theory Spec2Isabelle
  imports Main
begin

section \<open>JavaScript values, the object heap and JSON\<close>

text \<open>
  The cache of \<^verbatim>\<open>src/mysql-cache.js\<close> stores arrays of records in a \<^verbatim>\<open>Map\<close>, extends and
  overwrites those arrays in place, and hands out copies made with
  \<^verbatim>\<open>JSON.parse(JSON.stringify(...))\<close>. Arrays and objects are therefore cells of an explicit
  heap, addressed by their position; a value is a primitive or a reference to a cell.
  Numbers are integers here (no \<^verbatim>\<open>NaN\<close>, no infinities, no fractions); functions, dates and
  \<^verbatim>\<open>toJSON\<close> methods are not part of the value universe.
\<close>

type_synonym addr = nat

datatype val = Undefined | Null | Bool bool | Num int | Str string | Ref addr

datatype obj = Arr "val list" | Obj "(string \<times> val) list"

type_synonym heap = "obj list"

datatype json =
  JNull | JBool bool | JNum int | JStr string | JArr "json list" | JObj "(string \<times> json) list"

datatype error = TypeError | SyntaxError | ENOENT | IOError | QueryError | UserError

text \<open>A computation that may throw and may change the heap on the way.\<close>

type_synonym 'a res = "(error + 'a) \<times> heap"

definition alloc :: "obj \<Rightarrow> heap \<Rightarrow> addr \<times> heap" where
  "alloc ob h = (length h, h @ [ob])"

text \<open>The elements of the array at an address (\<open>[]\<close> where there is no array).\<close>

definition elems :: "heap \<Rightarrow> addr \<Rightarrow> val list" where
  "elems h a = (if a < length h then (case h ! a of Arr xs \<Rightarrow> xs | Obj ps \<Rightarrow> []) else [])"

text \<open>\<^verbatim>\<open>Array.isArray(v)\<close>\<close>

definition isArray :: "heap \<Rightarrow> val \<Rightarrow> bool" where
  "isArray h v =
     (case v of
        Ref a \<Rightarrow> a < length h \<and> (case h ! a of Arr xs \<Rightarrow> True | Obj ps \<Rightarrow> False)
      | _ \<Rightarrow> False)"

definition the_addr :: "val \<Rightarrow> addr" where
  "the_addr v = (case v of Ref a \<Rightarrow> a | _ \<Rightarrow> 0)"

text \<open>Putting an object on the stack leaves fewer objects that are not on it.\<close>

lemma unvisited_less:
  assumes "a \<notin> set stk" and "a < (n::nat)"
  shows "card ({..<n} - set (a # stk)) < card ({..<n} - set stk)"
proof -
  have sub: "{..<n} - set (a # stk) \<subset> {..<n} - set stk"
    using assms by auto
  have fin: "finite ({..<n} - set stk)"
    by simp
  from psubset_card_mono [OF fin sub] show ?thesis .
qed

text \<open>
  \<^verbatim>\<open>JSON.stringify\<close>: \<^verbatim>\<open>undefined\<close> has no JSON text (\<open>None\<close>), it becomes \<^verbatim>\<open>null\<close> inside an
  array and is left out of an object; an object that is met again below itself makes
  the call throw a \<^verbatim>\<open>TypeError\<close> (the stack \<open>stk\<close> holds the objects being written). A
  reference outside the heap does not exist in JavaScript; the model throws there.
\<close>

function ser :: "heap \<Rightarrow> addr list \<Rightarrow> val \<Rightarrow> error + json option"
  and ser_elems :: "heap \<Rightarrow> addr list \<Rightarrow> val list \<Rightarrow> error + json list"
  and ser_props :: "heap \<Rightarrow> addr list \<Rightarrow> (string \<times> val) list \<Rightarrow> error + (string \<times> json) list"
where
  "ser h stk Undefined = Inr None"
| "ser h stk Null = Inr (Some JNull)"
| "ser h stk (Bool b) = Inr (Some (JBool b))"
| "ser h stk (Num n) = Inr (Some (JNum n))"
| "ser h stk (Str s) = Inr (Some (JStr s))"
| "ser h stk (Ref a) =
     (if a \<in> set stk \<or> length h \<le> a then Inl TypeError
      else (case h ! a of
              Arr xs \<Rightarrow> (case ser_elems h (a # stk) xs of
                           Inl e \<Rightarrow> Inl e
                         | Inr js \<Rightarrow> Inr (Some (JArr js)))
            | Obj ps \<Rightarrow> (case ser_props h (a # stk) ps of
                           Inl e \<Rightarrow> Inl e
                         | Inr js \<Rightarrow> Inr (Some (JObj js)))))"
| "ser_elems h stk [] = Inr []"
| "ser_elems h stk (x # xs) =
     (case ser h stk x of
        Inl e \<Rightarrow> Inl e
      | Inr jo \<Rightarrow> (case ser_elems h stk xs of
                     Inl e \<Rightarrow> Inl e
                   | Inr js \<Rightarrow> Inr ((case jo of None \<Rightarrow> JNull | Some j \<Rightarrow> j) # js)))"
| "ser_props h stk [] = Inr []"
| "ser_props h stk (p # ps) =
     (case ser h stk (snd p) of
        Inl e \<Rightarrow> Inl e
      | Inr jo \<Rightarrow> (case ser_props h stk ps of
                     Inl e \<Rightarrow> Inl e
                   | Inr js \<Rightarrow> Inr (case jo of None \<Rightarrow> js | Some j \<Rightarrow> (fst p, j) # js)))"
  by pat_completeness auto

termination
proof (relation "inv_image (less_than <*lex*> less_than)
    (\<lambda>x. case x of
       Inl (h, stk, v) \<Rightarrow> (card ({..<length h} - set stk), 0)
     | Inr (Inl (h, stk, xs)) \<Rightarrow> (card ({..<length h} - set stk), Suc (length xs))
     | Inr (Inr (h, stk, ps)) \<Rightarrow> (card ({..<length h} - set stk), Suc (length ps)))",
    goal_cases)
  case 1
  then show ?case by (intro wf_inv_image wf_lex_prod wf_less_than)
next
  case (2 h stk a xs)
  then show ?case using unvisited_less [of a stk "length h"] by simp
next
  case (3 h stk a ps)
  then show ?case using unvisited_less [of a stk "length h"] by simp
qed simp_all

text \<open>\<^verbatim>\<open>JSON.parse\<close> of a JSON value: every array and object of the result is a new cell.\<close>

fun build :: "json \<Rightarrow> heap \<Rightarrow> val \<times> heap"
  and build_elems :: "json list \<Rightarrow> heap \<Rightarrow> val list \<times> heap"
  and build_props :: "(string \<times> json) list \<Rightarrow> heap \<Rightarrow> (string \<times> val) list \<times> heap"
where
  "build JNull h = (Null, h)"
| "build (JBool b) h = (Bool b, h)"
| "build (JNum n) h = (Num n, h)"
| "build (JStr s) h = (Str s, h)"
| "build (JArr js) h =
     (case build_elems js h of (vs, h') \<Rightarrow> (Ref (length h'), h' @ [Arr vs]))"
| "build (JObj ps) h =
     (case build_props ps h of (vs, h') \<Rightarrow> (Ref (length h'), h' @ [Obj vs]))"
| "build_elems [] h = ([], h)"
| "build_elems (j # js) h =
     (case build j h of (v, h1) \<Rightarrow>
        (case build_elems js h1 of (vs, h2) \<Rightarrow> (v # vs, h2)))"
| "build_props [] h = ([], h)"
| "build_props (p # ps) h =
     (case build (snd p) h of (v, h1) \<Rightarrow>
        (case build_props ps h1 of (vs, h2) \<Rightarrow> ((fst p, v) # vs, h2)))"

section \<open>The cache: configuration and state\<close>

text \<open>
  A JavaScript \<^verbatim>\<open>Map\<close> keeps its entries in insertion order; \<^verbatim>\<open>set\<close> on a key that is present
  replaces the value where the entry stands. The values of the cache's map are arrays,
  held by address: \<^verbatim>\<open>loadFromDatabase\<close> and \<^verbatim>\<open>saveToFile\<close> make and write no others. (A
  snapshot file that was not written by \<^verbatim>\<open>saveToFile\<close> can put other values into the map;
  see \<open>snapshotMap\<close> below.)
\<close>

type_synonym index = "(val \<times> addr) list"

definition map_get :: "(val \<times> 'v) list \<Rightarrow> val \<Rightarrow> 'v option" where
  "map_get m k = map_of m k"

fun map_set :: "(val \<times> 'v) list \<Rightarrow> val \<Rightarrow> 'v \<Rightarrow> (val \<times> 'v) list" where
  "map_set [] k a = [(k, a)]"
| "map_set (p # m) k a = (if fst p = k then (k, a) # m else p # map_set m k a)"

text \<open>\<^verbatim>\<open>new Map(pairs)\<close>\<close>

definition new_Map :: "(val \<times> 'v) list \<Rightarrow> (val \<times> 'v) list" where
  "new_Map pairs = foldl (\<lambda>m p. map_set m (fst p) (snd p)) [] pairs"

text \<open>
  The caller's functions. A record constructor (\<^verbatim>\<open>itemClass\<close>) reads the heap and its
  argument and gives the fields of the new object, or throws. A mapper reads the heap
  and a row and gives its result with the cells it has created (placed at the end of
  the heap), or throws. A single-row mapper returns one pair \<^verbatim>\<open>[key, value]\<close>, a multi-row
  mapper an array of such pairs; the pairs are only read by the cache and are values
  here, not cells. Callbacks that overwrite existing objects are outside this model.
\<close>

type_synonym ctor = "heap \<Rightarrow> val \<Rightarrow> error + (string \<times> val) list"
type_synonym mapItem = "val \<times> val"
type_synonym rowMapper = "heap \<Rightarrow> val \<Rightarrow> error + (mapItem \<times> obj list)"
type_synonym multiRowMapper = "heap \<Rightarrow> val \<Rightarrow> error + (mapItem list \<times> obj list)"

record options =
  keyFieldName :: string
  shouldSaveToFile :: bool
  itemClass :: "ctor option"
  opt_parseDataRow :: "rowMapper option"
  parseDataMultiRow :: "multiRowMapper option"

datatype notification = Update | Error error

text \<open>
  The state: the heap, the fields \<^verbatim>\<open>data\<close> and \<^verbatim>\<open>lastUpdate\<close> of the cache object, the
  notifications emitted so far, and whether \<^verbatim>\<open>loadDataPromise\<close> (the promise awaited by
  \<^verbatim>\<open>ensureCacheReady\<close>) is resolved.
\<close>

record cache =
  hp :: heap
  data :: index
  lastUpdate :: "nat option"
  emitted :: "notification list"
  loadDataPromise :: bool

text \<open>
  \<^verbatim>\<open>this.emit(...)\<close>. \<^verbatim>\<open>startCache\<close> registers \<^verbatim>\<open>resolve\<close> as a listener of \<^verbatim>\<open>'update'\<close> before any
  asynchronous step can continue, so every \<^verbatim>\<open>'update'\<close> resolves the promise. An observer of
  \<^verbatim>\<open>'error'\<close> is taken to be attached, as in the tests.
\<close>

definition emit :: "notification \<Rightarrow> cache \<Rightarrow> cache" where
  "emit n s = s\<lparr>emitted := emitted s @ [n], loadDataPromise := (loadDataPromise s \<or> n = Update)\<rparr>"

text \<open>\<^verbatim>\<open>startCache\<close>: the state in which the constructor leaves the cache.\<close>

definition startCache :: "heap \<Rightarrow> cache" where
  "startCache h = \<lparr>hp = h, data = [], lastUpdate = None, emitted = [], loadDataPromise = False\<rparr>"

section \<open>Record construction and \<^verbatim>\<open>setData\<close>\<close>

text \<open>\<^verbatim>\<open>new Item(v)\<close>\<close>

definition new_Item :: "ctor \<Rightarrow> val \<Rightarrow> heap \<Rightarrow> val res" where
  "new_Item Item v h =
     (case Item h v of
        Inl e \<Rightarrow> (Inl e, h)
      | Inr ps \<Rightarrow> (Inr (Ref (length h)), h @ [Obj ps]))"

text \<open>
  \<^verbatim>\<open>for (let j = 0; j < xs.length; j++) xs[j] = new Item(xs[j])\<close> on the array at \<open>a\<close>, over
  the indices given. A constructor cannot change the length of the array, so the loop
  runs over \<open>[0..<length (elems h a)]\<close>.
\<close>

fun construct_elems :: "ctor \<Rightarrow> addr \<Rightarrow> nat list \<Rightarrow> heap \<Rightarrow> unit res" where
  "construct_elems Item a [] h = (Inr (), h)"
| "construct_elems Item a (j # js) h =
     (case new_Item Item (elems h a ! j) h of
        (Inl e, h1) \<Rightarrow> (Inl e, h1)
      | (Inr r, h1) \<Rightarrow> construct_elems Item a js (h1[a := Arr ((elems h1 a)[j := r])]))"

fun construct_pairs :: "ctor \<Rightarrow> (val \<times> addr) list \<Rightarrow> heap \<Rightarrow> unit res" where
  "construct_pairs Item [] h = (Inr (), h)"
| "construct_pairs Item (p # ps) h =
     (case construct_elems Item (snd p) [0..<length (elems h (snd p))] h of
        (Inl e, h1) \<Rightarrow> (Inl e, h1)
      | (Inr u, h1) \<Rightarrow> construct_pairs Item ps h1)"

text \<open>
  The argument of \<^verbatim>\<open>setData\<close>: none, \<^verbatim>\<open>null\<close> (an empty snapshot file), a \<^verbatim>\<open>Map\<close>, or the array
  of \<^verbatim>\<open>[key, [record, ...]]\<close> pairs parsed from a snapshot.
\<close>

datatype mapData = NoData | NullData | MapData index | PairData "(val \<times> addr) list"

definition publish :: "nat \<Rightarrow> cache \<Rightarrow> cache" where
  "publish now s = emit Update (s\<lparr>lastUpdate := Some now\<rparr>)"

definition setData :: "options \<Rightarrow> nat \<Rightarrow> mapData \<Rightarrow> cache \<Rightarrow> (error + unit) \<times> cache" where
  "setData cfg now mapData s =
     (case mapData of
        NoData \<Rightarrow> (Inr (), publish now (s\<lparr>data := []\<rparr>))
      | MapData m \<Rightarrow> (Inr (), publish now (s\<lparr>data := m\<rparr>))
      | NullData \<Rightarrow>
          (case itemClass cfg of
             Some Item \<Rightarrow> (Inl TypeError, s)
           | None \<Rightarrow> (Inr (), publish now (s\<lparr>data := []\<rparr>)))
      | PairData ps \<Rightarrow>
          (case itemClass cfg of
             Some Item \<Rightarrow>
               (case construct_pairs Item ps (hp s) of
                  (Inl e, h1) \<Rightarrow> (Inl e, s\<lparr>hp := h1\<rparr>)
                | (Inr u, h1) \<Rightarrow> (Inr (), publish now (s\<lparr>hp := h1, data := new_Map ps\<rparr>)))
           | None \<Rightarrow> (Inr (), publish now (s\<lparr>data := new_Map ps\<rparr>))))"

section \<open>The refresh cycle\<close>

text \<open>
  What the query executor calls back with: an error, no rows at all (\<^verbatim>\<open>null\<close> or
  \<^verbatim>\<open>undefined\<close>), or an array of rows. The rows are values of the heap the cycle runs on.
  \<^verbatim>\<open>queryDatabase\<close> reads \<^verbatim>\<open>rows.length\<close> for its debug line before it returns.
\<close>

datatype queryResult = QueryFailed error | NoRows | Rows "val list"

definition queryDatabase :: "queryResult \<Rightarrow> error + val list option" where
  "queryDatabase q =
     (case q of
        QueryFailed err \<Rightarrow> Inl err
      | NoRows \<Rightarrow> Inl TypeError
      | Rows rows \<Rightarrow> Inr (Some rows))"

text \<open>
  \<^verbatim>\<open>row[name]\<close>. Rows are objects; the index and \<^verbatim>\<open>length\<close> properties of arrays and strings
  are not modelled.
\<close>

definition get_prop :: "heap \<Rightarrow> val \<Rightarrow> string \<Rightarrow> error + val" where
  "get_prop h v name =
     (case v of
        Undefined \<Rightarrow> Inl TypeError
      | Null \<Rightarrow> Inl TypeError
      | Ref a \<Rightarrow>
          (if a < length h
           then (case h ! a of
                   Obj ps \<Rightarrow> Inr (case map_of ps name of None \<Rightarrow> Undefined | Some x \<Rightarrow> x)
                 | Arr xs \<Rightarrow> Inr Undefined)
           else Inr Undefined)
      | _ \<Rightarrow> Inr Undefined)"

text \<open>The value read from a row that is an object (\<^verbatim>\<open>undefined\<close> where \<^verbatim>\<open>row[name]\<close> throws).\<close>

definition field :: "heap \<Rightarrow> val \<Rightarrow> string \<Rightarrow> val" where
  "field h row name = (case get_prop h row name of Inl e \<Rightarrow> Undefined | Inr v \<Rightarrow> v)"

text \<open>The default \<^verbatim>\<open>parseDataRow\<close> method: \<^verbatim>\<open>[row[this.keyFieldName], row]\<close>.\<close>

definition parseDataRow :: "string \<Rightarrow> rowMapper" where
  "parseDataRow keyField h row =
     (case get_prop h row keyField of
        Inl e \<Rightarrow> Inl e
      | Inr k \<Rightarrow> Inr ((k, row), []))"

fun mapRows :: "rowMapper \<Rightarrow> val list \<Rightarrow> mapItem list \<Rightarrow> heap \<Rightarrow> mapItem list res" where
  "mapRows f [] mapItems h = (Inr mapItems, h)"
| "mapRows f (row # rows) mapItems h =
     (case f h row of
        Inl e \<Rightarrow> (Inl e, h)
      | Inr (item, cells) \<Rightarrow> mapRows f rows (mapItems @ [item]) (h @ cells))"

fun mapRowsMulti :: "multiRowMapper \<Rightarrow> val list \<Rightarrow> mapItem list \<Rightarrow> heap \<Rightarrow> mapItem list res" where
  "mapRowsMulti f [] mapItems h = (Inr mapItems, h)"
| "mapRowsMulti f (row # rows) mapItems h =
     (case f h row of
        Inl e \<Rightarrow> (Inl e, h)
      | Inr (items, cells) \<Rightarrow> mapRowsMulti f rows (mapItems @ items) (h @ cells))"

text \<open>Lines 94 to 102: which mapper fills \<^verbatim>\<open>mapItems\<close>.\<close>

definition collectMapItems :: "options \<Rightarrow> val list \<Rightarrow> heap \<Rightarrow> mapItem list res" where
  "collectMapItems cfg rows h =
     (case parseDataMultiRow cfg of
        Some f \<Rightarrow> mapRowsMulti f rows [] h
      | None \<Rightarrow>
          mapRows (case opt_parseDataRow cfg of
                     Some g \<Rightarrow> g
                   | None \<Rightarrow> parseDataRow (keyFieldName cfg)) rows [] h)"

text \<open>Lines 110 to 120: the value of a pair goes through the constructor, if there is one.\<close>

definition construct_value :: "ctor option \<Rightarrow> val \<Rightarrow> heap \<Rightarrow> val res" where
  "construct_value Item dataValue h =
     (case Item of
        None \<Rightarrow> (Inr dataValue, h)
      | Some c \<Rightarrow>
          (if \<not> isArray h dataValue then new_Item c dataValue h
           else (case construct_elems c (the_addr dataValue)
                        [0..<length (elems h (the_addr dataValue))] h of
                   (Inl e, h1) \<Rightarrow> (Inl e, h1)
                 | (Inr u, h1) \<Rightarrow> (Inr dataValue, h1))))"

text \<open>Lines 105 to 136: one turn of the loop over \<^verbatim>\<open>mapItems\<close>.\<close>

definition mergeItem :: "ctor option \<Rightarrow> mapItem \<Rightarrow> index \<Rightarrow> heap \<Rightarrow> index res" where
  "mergeItem Item mapItem cacheMap h =
     (let dataKey = fst mapItem; isValueArray = isArray h (snd mapItem) in
      case construct_value Item (snd mapItem) h of
        (Inl e, h1) \<Rightarrow> (Inl e, h1)
      | (Inr dataValue, h1) \<Rightarrow>
          (case map_get cacheMap dataKey of
             None \<Rightarrow>
               (if \<not> isValueArray
                then (Inr (map_set cacheMap dataKey (length h1)), h1 @ [Arr [dataValue]])
                else (Inr (map_set cacheMap dataKey (the_addr dataValue)), h1))
           | Some m \<Rightarrow>
               (if \<not> isValueArray
                then (Inr cacheMap, h1[m := Arr (elems h1 m @ [dataValue])])
                else (Inr cacheMap,
                      h1[m := Arr (elems h1 m @ elems h1 (the_addr dataValue))]))))"

fun mergeItems :: "ctor option \<Rightarrow> mapItem list \<Rightarrow> index \<Rightarrow> heap \<Rightarrow> index res" where
  "mergeItems Item [] cacheMap h = (Inr cacheMap, h)"
| "mergeItems Item (mapItem # rest) cacheMap h =
     (case mergeItem Item mapItem cacheMap h of
        (Inl e, h1) \<Rightarrow> (Inl e, h1)
      | (Inr cacheMap1, h1) \<Rightarrow> mergeItems Item rest cacheMap1 h1)"

definition loadFromDatabase :: "options \<Rightarrow> nat \<Rightarrow> queryResult \<Rightarrow> cache \<Rightarrow> (error + unit) \<times> cache" where
  "loadFromDatabase cfg now q s =
     (case queryDatabase q of
        Inl err \<Rightarrow> (Inl err, s)
      | Inr None \<Rightarrow> setData cfg now NoData s
      | Inr (Some rows) \<Rightarrow>
          (if rows = [] then setData cfg now NoData s
           else (case collectMapItems cfg rows (hp s) of
                   (Inl e, h1) \<Rightarrow> (Inl e, s\<lparr>hp := h1\<rparr>)
                 | (Inr mapItems, h1) \<Rightarrow>
                     (case mergeItems (itemClass cfg) mapItems [] h1 of
                        (Inl e, h2) \<Rightarrow> (Inl e, s\<lparr>hp := h2\<rparr>)
                      | (Inr cacheMap, h2) \<Rightarrow> setData cfg now (MapData cacheMap) (s\<lparr>hp := h2\<rparr>)))))"

text \<open>
  Lines 104 to 139: the loop over \<^verbatim>\<open>mapItems\<close> and \<^verbatim>\<open>setData(cacheMap)\<close>, for a given \<^verbatim>\<open>mapItems\<close>.
\<close>

definition mergeAndSwap :: "options \<Rightarrow> nat \<Rightarrow> mapItem list \<Rightarrow> cache \<Rightarrow> (error + unit) \<times> cache" where
  "mergeAndSwap cfg now mapItems s =
     (case mergeItems (itemClass cfg) mapItems [] (hp s) of
        (Inl e, h2) \<Rightarrow> (Inl e, s\<lparr>hp := h2\<rparr>)
      | (Inr cacheMap, h2) \<Rightarrow> setData cfg now (MapData cacheMap) (s\<lparr>hp := h2\<rparr>))"

text \<open>
  \<^verbatim>\<open>[...this.data]\<close>: one new array \<^verbatim>\<open>[key, values]\<close> for each entry, and a new array of
  them.
\<close>

definition entries :: "index \<Rightarrow> heap \<Rightarrow> val \<times> heap" where
  "entries m h =
     (Ref (length h + length m),
      h @ map (\<lambda>p. Arr [fst p, Ref (snd p)]) m @ [Arr (map Ref [length h..<length h + length m])])"

text \<open>
  \<^verbatim>\<open>saveToFile\<close>; the outcome of \<^verbatim>\<open>fs.writeFile\<close> is given. The result is the JSON written to
  \<^verbatim>\<open>cacheFilePath\<close>.
\<close>

datatype writeResult = Written | WriteFailed error

definition saveToFile :: "writeResult \<Rightarrow> cache \<Rightarrow> (error + json) \<times> cache" where
  "saveToFile w s =
     (case entries (data s) (hp s) of
        (arr, h1) \<Rightarrow>
          (case ser h1 [] arr of
             Inl e \<Rightarrow> (Inl e, s\<lparr>hp := h1\<rparr>)
           | Inr None \<Rightarrow> (Inl TypeError, s\<lparr>hp := h1\<rparr>)
           | Inr (Some dataJson) \<Rightarrow>
               (case w of
                  WriteFailed e \<Rightarrow> (Inl e, s\<lparr>hp := h1\<rparr>)
                | Written \<Rightarrow> (Inr dataJson, s\<lparr>hp := h1\<rparr>))))"

definition loadFromDatabaseAndSaveToFile ::
    "options \<Rightarrow> nat \<Rightarrow> queryResult \<Rightarrow> writeResult \<Rightarrow> cache \<Rightarrow> cache" where
  "loadFromDatabaseAndSaveToFile cfg now q w s =
     (case loadFromDatabase cfg now q s of
        (Inl err, s1) \<Rightarrow> emit (Error err) s1
      | (Inr u, s1) \<Rightarrow>
          (if shouldSaveToFile cfg
           then (case saveToFile w s1 of
                   (Inl err, s2) \<Rightarrow> emit (Error err) s2
                 | (Inr dataJson, s2) \<Rightarrow> s2)
           else s1))"

section \<open>The snapshot file\<close>

text \<open>
  What \<^verbatim>\<open>fs.readFile\<close> and \<^verbatim>\<open>JSON.parse\<close> give: a read error, an empty file, a text that is
  not JSON, or the parsed array of \<^verbatim>\<open>[key, [record, ...]]\<close> pairs, as \<^verbatim>\<open>saveToFile\<close> writes it. For
  an array of pairs whose values need not be arrays, see \<open>snapshotMap\<close> below.
\<close>

datatype fileResult = ReadFailed error | EmptyFile | Unparsable | Parsed "(json \<times> json list) list"

fun build_pairs :: "(json \<times> json list) list \<Rightarrow> heap \<Rightarrow> (val \<times> addr) list \<times> heap" where
  "build_pairs [] h = ([], h)"
| "build_pairs (p # ps) h =
     (case build (fst p) h of (k, h1) \<Rightarrow>
        (case build (JArr (snd p)) h1 of (vs, h2) \<Rightarrow>
           (case build_pairs ps h2 of (rest, h3) \<Rightarrow> ((k, the_addr vs) # rest, h3))))"

text \<open>The \<^verbatim>\<open>catch\<close> of \<^verbatim>\<open>loadCacheFromFile\<close>.\<close>

definition file_catch :: "error \<Rightarrow> cache \<Rightarrow> cache" where
  "file_catch err s = (if err = ENOENT then s else emit (Error err) s)"

definition loadCacheFromFile :: "options \<Rightarrow> nat \<Rightarrow> fileResult \<Rightarrow> cache \<Rightarrow> cache" where
  "loadCacheFromFile cfg now f s =
     (case f of
        ReadFailed err \<Rightarrow> file_catch err s
      | Unparsable \<Rightarrow> file_catch SyntaxError s
      | EmptyFile \<Rightarrow>
          (case setData cfg now NullData s of
             (Inl err, s1) \<Rightarrow> file_catch err s1
           | (Inr u, s1) \<Rightarrow> file_catch TypeError s1)
      | Parsed snapshot \<Rightarrow>
          (case build_pairs snapshot (hp s) of
             (mapData, h1) \<Rightarrow>
               (case setData cfg now (PairData mapData) (s\<lparr>hp := h1\<rparr>) of
                  (Inl err, s1) \<Rightarrow> file_catch err s1
                | (Inr u, s1) \<Rightarrow> s1)))"

text \<open>
  A snapshot file is read as it is found; it need not have been written by \<^verbatim>\<open>saveToFile\<close>.
  \<open>snapshotMap\<close> is the map that \<^verbatim>\<open>setData\<close> makes (lines 148 to 161) of a parsed array of
  pairs \<^verbatim>\<open>[key, value]\<close> whose value is an array or a JSON scalar. The loop of lines 155 to
  157 reads \<^verbatim>\<open>mapValues.length\<close>: \<^verbatim>\<open>null\<close> throws, a number or a boolean has none and the loop
  does not run, and for a string that is not empty the first turn calls the constructor
  on the first character and throws then, since a character of a string cannot be
  assigned (a class body is strict code). \<^verbatim>\<open>new Map\<close> takes the pairs as they are. A value
  that is an object is not modelled (its \<^verbatim>\<open>length\<close> property would be converted to a
  number).
\<close>

datatype prim = PNull | PBool bool | PNum int | PStr string

fun prim_val :: "prim \<Rightarrow> val" where
  "prim_val PNull = Null"
| "prim_val (PBool b) = Bool b"
| "prim_val (PNum n) = Num n"
| "prim_val (PStr s) = Str s"

fun build_loose :: "(json \<times> (json list + prim)) list \<Rightarrow> heap \<Rightarrow> (val \<times> val) list \<times> heap" where
  "build_loose [] h = ([], h)"
| "build_loose (p # ps) h =
     (case build (fst p) h of (k, h1) \<Rightarrow>
        (case (case snd p of Inl js \<Rightarrow> build (JArr js) h1 | Inr x \<Rightarrow> (prim_val x, h1)) of
           (v, h2) \<Rightarrow>
             (case build_loose ps h2 of (rest, h3) \<Rightarrow> ((k, v) # rest, h3))))"

definition construct_scalar :: "ctor \<Rightarrow> val \<Rightarrow> heap \<Rightarrow> unit res" where
  "construct_scalar Item mapValues h =
     (case mapValues of
        Undefined \<Rightarrow> (Inl TypeError, h)
      | Null \<Rightarrow> (Inl TypeError, h)
      | Str s \<Rightarrow>
          (if s = [] then (Inr (), h)
           else (case new_Item Item (Str [hd s]) h of
                   (Inl e, h1) \<Rightarrow> (Inl e, h1)
                 | (Inr r, h1) \<Rightarrow> (Inl TypeError, h1)))
      | _ \<Rightarrow> (Inr (), h))"

fun construct_loose :: "ctor \<Rightarrow> (val \<times> val) list \<Rightarrow> heap \<Rightarrow> unit res" where
  "construct_loose Item [] h = (Inr (), h)"
| "construct_loose Item (p # ps) h =
     (case (if isArray h (snd p)
            then construct_elems Item (the_addr (snd p))
                   [0..<length (elems h (the_addr (snd p)))] h
            else construct_scalar Item (snd p) h) of
        (Inl e, h1) \<Rightarrow> (Inl e, h1)
      | (Inr u, h1) \<Rightarrow> construct_loose Item ps h1)"

definition snapshotMap ::
    "ctor option \<Rightarrow> (json \<times> (json list + prim)) list \<Rightarrow> heap \<Rightarrow> (val \<times> val) list res" where
  "snapshotMap Item snapshot h =
     (case build_loose snapshot h of
        (pairs, h1) \<Rightarrow>
          (case Item of
             None \<Rightarrow> (Inr (new_Map pairs), h1)
           | Some c \<Rightarrow>
               (case construct_loose c pairs h1 of
                  (Inl e, h2) \<Rightarrow> (Inl e, h2)
                | (Inr u, h2) \<Rightarrow> (Inr (new_Map pairs), h2))))"

section \<open>Reading\<close>

definition cloneArray :: "val \<Rightarrow> heap \<Rightarrow> val res" where
  "cloneArray items h =
     (if elems h (the_addr items) = [] then (Inr (Ref (length h)), h @ [Arr []])
      else (case ser h [] items of
              Inl e \<Rightarrow> (Inl e, h)
            | Inr None \<Rightarrow> (Inl SyntaxError, h)
            | Inr (Some j) \<Rightarrow> (case build j h of (v, h1) \<Rightarrow> (Inr v, h1))))"

definition getValues :: "val \<Rightarrow> cache \<Rightarrow> (error + val) \<times> cache" where
  "getValues key s =
     (case map_get (data s) key of
        None \<Rightarrow> (Inr (Ref (length (hp s))), s\<lparr>hp := hp s @ [Arr []]\<rparr>)
      | Some itemValues \<Rightarrow>
          (if elems (hp s) itemValues = []
           then (Inr (Ref (length (hp s))), s\<lparr>hp := hp s @ [Arr []]\<rparr>)
           else (case cloneArray (Ref itemValues) (hp s) of (r, h1) \<Rightarrow> (r, s\<lparr>hp := h1\<rparr>))))"

definition getFirstValue :: "val \<Rightarrow> cache \<Rightarrow> (error + val) \<times> cache" where
  "getFirstValue key s =
     (case map_get (data s) key of
        None \<Rightarrow> (Inr Null, s)
      | Some itemValues \<Rightarrow>
          (if elems (hp s) itemValues = [] then (Inr Null, s)
           else (case cloneArray (Ref (length (hp s)))
                        (hp s @ [Arr [elems (hp s) itemValues ! 0]]) of
                   (Inl e, h1) \<Rightarrow> (Inl e, s\<lparr>hp := h1\<rparr>)
                 | (Inr r, h1) \<Rightarrow> (Inr (elems h1 (the_addr r) ! 0), s\<lparr>hp := h1\<rparr>))))"

definition getAll :: "cache \<Rightarrow> (error + val) \<times> cache" where
  "getAll s =
     (case cloneArray (Ref (length (hp s)))
             (hp s @ [Arr (concat (map (\<lambda>p. elems (hp s) (snd p)) (data s)))]) of
        (r, h1) \<Rightarrow> (r, s\<lparr>hp := h1\<rparr>))"

section \<open>Runs\<close>

text \<open>
  What can happen to a started cache: a refresh cycle completes (the first one or one
  started by the timer), or the read of the snapshot file that \<^verbatim>\<open>startCache\<close> has started
  completes. Each carries the time and what the outside world answered.
\<close>

datatype event = DatabaseLoad nat queryResult writeResult | FileLoad nat fileResult

definition step :: "options \<Rightarrow> event \<Rightarrow> cache \<Rightarrow> cache" where
  "step cfg ev s =
     (case ev of
        DatabaseLoad now q w \<Rightarrow> loadFromDatabaseAndSaveToFile cfg now q w s
      | FileLoad now f \<Rightarrow> (if shouldSaveToFile cfg then loadCacheFromFile cfg now f s else s))"

definition run :: "options \<Rightarrow> event list \<Rightarrow> cache \<Rightarrow> cache" where
  "run cfg evs s = foldl (\<lambda>s ev. step cfg ev s) s evs"

section \<open>Example configurations and states\<close>

text \<open>
  The default configuration with persistence switched on, three rows as the tests' table
  holds them (\<^verbatim>\<open>id\<close>, \<^verbatim>\<open>text\<close>), and the cache after a cycle over these rows.
\<close>

definition demo_options :: options where
  "demo_options = \<lparr>keyFieldName = ''id'', shouldSaveToFile = True, itemClass = None,
     opt_parseDataRow = None, parseDataMultiRow = None\<rparr>"

definition demo_rows :: heap where
  "demo_rows = [Obj [(''id'', Num 1), (''text'', Str ''a'')], Obj [(''id'', Num 2)],
     Obj [(''id'', Num 1), (''text'', Str ''b'')]]"

definition demo_cache :: cache where
  "demo_cache = \<lparr>hp = demo_rows @ [Arr [Ref 0, Ref 2], Arr [Ref 1]],
     data = [(Num 1, 3), (Num 2, 4)], lastUpdate = Some 3, emitted = [Update],
     loadDataPromise = True\<rparr>"

text \<open>
  The mappers and the record class of the tests: \<^verbatim>\<open>parseDataRow\<close> returns
  \<^verbatim>\<open>[row.id, [{t1: row}, {t2: row}, {t3: row}]]\<close>, \<^verbatim>\<open>parseDataMultiRow\<close> returns the three pairs
  \<^verbatim>\<open>[row.id, {t1: row}]\<close>, \<^verbatim>\<open>[row.id, {t2: row}]\<close>, \<^verbatim>\<open>[row.id, {t3: row}]\<close>, and the constructor of
  \<^verbatim>\<open>TestRow\<close> is \<^verbatim>\<open>Object.assign(this, data)\<close>: it copies the fields of an object, the elements of
  an array and the characters of a string under their indices (\<open>decimal\<close> writes an index
  as a property name), and nothing from any other value.
\<close>

definition tests_parseDataRow :: rowMapper where
  "tests_parseDataRow h row =
     (case get_prop h row ''id'' of
        Inl e \<Rightarrow> Inl e
      | Inr k \<Rightarrow>
          Inr ((k, Ref (length h + 3)),
               [Obj [(''t1'', row)], Obj [(''t2'', row)], Obj [(''t3'', row)],
                Arr [Ref (length h), Ref (length h + 1), Ref (length h + 2)]]))"

definition tests_parseDataMultiRow :: multiRowMapper where
  "tests_parseDataMultiRow h row =
     (case get_prop h row ''id'' of
        Inl e \<Rightarrow> Inl e
      | Inr k \<Rightarrow>
          Inr ([(k, Ref (length h)), (k, Ref (length h + 1)), (k, Ref (length h + 2))],
               [Obj [(''t1'', row)], Obj [(''t2'', row)], Obj [(''t3'', row)]]))"

fun decimal :: "nat \<Rightarrow> string" where
  "decimal n =
     (if n < 10 then [''0123456789'' ! n] else decimal (n div 10) @ [''0123456789'' ! (n mod 10)])"

definition indexed :: "val list \<Rightarrow> (string \<times> val) list" where
  "indexed xs = map (\<lambda>p. (decimal (fst p), snd p)) (enumerate 0 xs)"

definition TestRow :: ctor where
  "TestRow h v =
     Inr (case v of
            Ref a \<Rightarrow> (if a < length h then (case h ! a of Obj ps \<Rightarrow> ps | Arr xs \<Rightarrow> indexed xs)
                      else [])
          | Str s \<Rightarrow> indexed (map (\<lambda>c. Str [c]) s)
          | _ \<Rightarrow> [])"

text \<open>A single-row mapper that returns \<^verbatim>\<open>[row.id, []]\<close>.\<close>

definition empty_list_parseDataRow :: rowMapper where
  "empty_list_parseDataRow h row =
     (case get_prop h row ''id'' of
        Inl e \<Rightarrow> Inl e
      | Inr k \<Rightarrow> Inr ((k, Ref (length h)), [Arr []]))"

text \<open>
  A single-row mapper that returns \<^verbatim>\<open>[row.id, SHARED]\<close>, with one array \<^verbatim>\<open>SHARED\<close> (here the
  cell at address 3) for every row.
\<close>

definition shared_list_parseDataRow :: rowMapper where
  "shared_list_parseDataRow h row =
     (case get_prop h row ''id'' of
        Inl e \<Rightarrow> Inl e
      | Inr k \<Rightarrow> Inr ((k, Ref 3), []))"

text \<open>The three reads of the public interface, as one operation.\<close>

datatype read_op = GetValues val | GetFirstValue val | GetAll

text \<open>\<open>perform\<close> runs the read.\<close>

definition perform :: "read_op \<Rightarrow> cache \<Rightarrow> (error + val) \<times> cache" where
  "perform r s =
     (case r of GetValues key \<Rightarrow> getValues key s
              | GetFirstValue key \<Rightarrow> getFirstValue key s
              | GetAll \<Rightarrow> getAll s)"

text \<open>
  A single-row mapper that returns \<^verbatim>\<open>[row.id, rec]\<close> for a new object \<^verbatim>\<open>rec = {row: row}\<close> with
  \<^verbatim>\<open>rec.self = rec\<close>, and a record class whose constructor throws unless the \<^verbatim>\<open>text\<close> of its
  argument is \<^verbatim>\<open>'a'\<close> and sets \<^verbatim>\<open>this.seen = true\<close> otherwise.
\<close>

definition cyclic_parseDataRow :: rowMapper where
  "cyclic_parseDataRow h row =
     (case get_prop h row ''id'' of
        Inl e \<Rightarrow> Inl e
      | Inr k \<Rightarrow> Inr ((k, Ref (length h)), [Obj [(''row'', row), (''self'', Ref (length h))]]))"

definition picky_Item :: ctor where
  "picky_Item h v =
     (case get_prop h v ''text'' of
        Inl e \<Rightarrow> Inl e
      | Inr t \<Rightarrow> (if t = Str ''a'' then Inr [(''seen'', Bool True)] else Inl UserError))"

text \<open>
  Reading back a snapshot file: what \<^verbatim>\<open>fs.readFile\<close> and \<^verbatim>\<open>JSON.parse\<close> give when the file
  holds the text of the JSON value \<open>j\<close>, for an array of \<^verbatim>\<open>[key, [record, ...]]\<close> pairs.
\<close>

fun snapshot_pair :: "json \<Rightarrow> (json \<times> json list) option" where
  "snapshot_pair (JArr [k, JArr vs]) = Some (k, vs)"
| "snapshot_pair j = None"

definition readSnapshot :: "json \<Rightarrow> fileResult option" where
  "readSnapshot j =
     (case j of
        JArr js \<Rightarrow> (if list_all (\<lambda>x. snapshot_pair x \<noteq> None) js
                    then Some (Parsed (map (\<lambda>x. the (snapshot_pair x)) js)) else None)
      | _ \<Rightarrow> None)"

text \<open>
  A record class that keeps its argument in one field:
  \<^verbatim>\<open>class Wrapper { constructor(d) { this.inner = d } }\<close>.
\<close>

definition Wrapper :: ctor where
  "Wrapper h v = Inr [(''inner'', v)]"

section \<open>Predicates used in the proofs\<close>

text \<open>
  Along a cycle the heap only changes in two ways: cells are added at the end, and an
  array is replaced by an array that is at least as long. Objects stay as they are.
\<close>

definition extends :: "heap \<Rightarrow> heap \<Rightarrow> bool" where
  "extends h h' =
     (length h \<le> length h' \<and>
      (\<forall>a<length h.
         (\<forall>ps. h ! a = Obj ps \<longrightarrow> h' ! a = Obj ps) \<and>
         (\<forall>xs. h ! a = Arr xs \<longrightarrow> (\<exists>ys. h' ! a = Arr ys \<and> length xs \<le> length ys))))"

text \<open>The same, and every array among the added cells has an element.\<close>

definition grows :: "heap \<Rightarrow> heap \<Rightarrow> bool" where
  "grows h h' =
     (extends h h' \<and> (\<forall>b. length h \<le> b \<longrightarrow> isArray h' (Ref b) \<longrightarrow> elems h' b \<noteq> []))"

text \<open>
  The invariant of the loop over \<^verbatim>\<open>mapItems\<close>: every list of \<^verbatim>\<open>cacheMap\<close> is an array, its key
  is the key of some pair, and a list that existed before the loop is the value of
  some pair.
\<close>

definition merge_inv :: "heap \<Rightarrow> mapItem list \<Rightarrow> heap \<Rightarrow> index \<Rightarrow> bool" where
  "merge_inv h0 items h m =
     (grows h0 h \<and>
      (\<forall>p\<in>set m. isArray h (Ref (snd p)) \<and> fst p \<in> fst ` set items \<and>
                  (snd p < length h0 \<longrightarrow> Ref (snd p) \<in> snd ` set items)))"

text \<open>
  A value is a constructed record when it is an object that \<^verbatim>\<open>new Item(x)\<close> has created after
  the heap \<open>h0\<close>: it stands at an address \<open>a\<close> beyond \<open>h0\<close>, and its fields are what the
  constructor gave for some \<open>x\<close> in a heap \<open>h1\<close> of \<open>a\<close> cells that lies between \<open>h0\<close> and \<open>h\<close>.
\<close>

definition constructed :: "ctor \<Rightarrow> heap \<Rightarrow> heap \<Rightarrow> val \<Rightarrow> bool" where
  "constructed c h0 h v =
     (\<exists>a ps h1 x. v = Ref a \<and> a < length h \<and> h ! a = Obj ps \<and>
                  extends h0 h1 \<and> extends h1 h \<and> length h1 = a \<and> c h1 x = Inr ps)"

text \<open>An array all of whose elements are constructed records.\<close>

definition all_constructed :: "ctor \<Rightarrow> heap \<Rightarrow> heap \<Rightarrow> addr \<Rightarrow> bool" where
  "all_constructed c h0 h a = (isArray h (Ref a) \<and> (\<forall>v\<in>set (elems h a). constructed c h0 h v))"

text \<open>The cells that a cycle has added and that are arrays hold constructed records only.\<close>

definition new_arrays_constructed :: "ctor \<Rightarrow> heap \<Rightarrow> heap \<Rightarrow> bool" where
  "new_arrays_constructed c h0 h =
     (length h0 \<le> length h \<and>
      (\<forall>b. length h0 \<le> b \<longrightarrow> isArray h (Ref b) \<longrightarrow> all_constructed c h0 h b))"

text \<open>
  The invariant of the loop over \<^verbatim>\<open>mapItems\<close> when a record class is configured: the lists
  of \<^verbatim>\<open>cacheMap\<close> hold constructed records only.
\<close>

definition ctor_inv :: "ctor \<Rightarrow> heap \<Rightarrow> heap \<Rightarrow> index \<Rightarrow> bool" where
  "ctor_inv c h0 h m =
     (new_arrays_constructed c h0 h \<and> (\<forall>p\<in>set m. all_constructed c h0 h (snd p)))"

text \<open>
  How a value \<open>x\<close> that a mapper has produced stands in a list of the index: as it is when
  no record class is configured, and otherwise as the object that \<^verbatim>\<open>new Item(x)\<close> has
  created. The constructor has run on \<open>x\<close> in a heap \<open>h1\<close> of the cycle (one that lies between
  \<open>h0\<close> and \<open>h\<close>, so its objects are those of \<open>h\<close>), and the new object stands at the address
  that was free then, with the fields the constructor gave.
\<close>

definition stored_as :: "ctor option \<Rightarrow> heap \<Rightarrow> heap \<Rightarrow> val \<Rightarrow> val \<Rightarrow> bool" where
  "stored_as Item h0 h r x =
     (case Item of
        None \<Rightarrow> r = x
      | Some c \<Rightarrow> (\<exists>ps h1. r = Ref (length h1) \<and> extends h0 h1 \<and> extends h1 h
                         \<and> length h1 < length h \<and> h ! length h1 = Obj ps \<and> c h1 x = Inr ps))"

text \<open>What one pair contributes to its key, and all that the pairs contribute to a key.\<close>

definition contribution :: "heap \<Rightarrow> val \<Rightarrow> val list" where
  "contribution h0 v = (if isArray h0 v then elems h0 (the_addr v) else [v])"

definition contributions :: "heap \<Rightarrow> mapItem list \<Rightarrow> val \<Rightarrow> val list" where
  "contributions h0 items k =
     concat (map (\<lambda>it. contribution h0 (snd it)) (filter (\<lambda>it. fst it = k) items))"

text \<open>The arrays among the values of the pairs.\<close>

definition array_addrs :: "heap \<Rightarrow> mapItem list \<Rightarrow> addr list" where
  "array_addrs h0 items = map (\<lambda>it. the_addr (snd it)) (filter (\<lambda>it. isArray h0 (snd it)) items)"

text \<open>
  The invariant of the loop over \<^verbatim>\<open>mapItems\<close>, after the pairs \<open>done\<close>: the keys of \<^verbatim>\<open>cacheMap\<close>
  are the keys of \<open>done\<close>, the list of a key holds what \<open>done\<close> contributes to it, no two
  keys share a list, and the arrays that existed before the loop and are not values of
  \<open>done\<close> are as they were.
\<close>

definition trace_inv ::
    "ctor option \<Rightarrow> heap \<Rightarrow> mapItem list \<Rightarrow> heap \<Rightarrow> index \<Rightarrow> bool" where
  "trace_inv Item h0 done h m =
     (extends h0 h \<and>
      (\<forall>k. (map_get m k = None) = (k \<notin> fst ` set done)) \<and>
      (\<forall>k a. map_get m k = Some a \<longrightarrow>
             isArray h (Ref a) \<and>
             list_all2 (stored_as Item h0 h) (elems h a) (contributions h0 done k)) \<and>
      (\<forall>k k' a. map_get m k = Some a \<and> map_get m k' = Some a \<longrightarrow> k = k') \<and>
      (\<forall>k a. map_get m k = Some a \<and> a < length h0 \<longrightarrow> a \<in> set (array_addrs h0 done)) \<and>
      (\<forall>a<length h0. a \<notin> set (array_addrs h0 done) \<longrightarrow> h ! a = h0 ! a))"

text \<open>
  The first \<open>n\<close> cells of a heap are closed when they refer to each other only: whatever
  can be reached from them lies among them.
\<close>

fun val_ok :: "nat \<Rightarrow> val \<Rightarrow> bool" where
  "val_ok n (Ref a) = (a < n)"
| "val_ok n v = True"

definition cell_ok :: "nat \<Rightarrow> obj \<Rightarrow> bool" where
  "cell_ok n ob =
     (case ob of Arr xs \<Rightarrow> list_all (val_ok n) xs | Obj ps \<Rightarrow> list_all (\<lambda>p. val_ok n (snd p)) ps)"

definition closed :: "nat \<Rightarrow> heap \<Rightarrow> bool" where
  "closed n h = (n \<le> length h \<and> list_all (cell_ok n) (take n h))"

text \<open>
  What a read gives, by value: the error it throws, or the JSON of the value it returns
  in the heap it leaves.
\<close>

definition result_json :: "(error + val) \<times> cache \<Rightarrow> error + json option" where
  "result_json r = (case fst r of Inl e \<Rightarrow> Inl e | Inr v \<Rightarrow> ser (hp (snd r)) [] v)"

text \<open>
  The index lies in the first \<open>n\<close> cells of the heap: these cells are closed, and every
  list of the index is an array among them.
\<close>

definition index_in :: "nat \<Rightarrow> cache \<Rightarrow> bool" where
  "index_in n s =
     (closed n (hp s) \<and> list_all (\<lambda>p. snd p < n \<and> isArray (hp s) (Ref (snd p))) (data s))"

text \<open>
  A returned value is fresh from \<open>m\<close> on when it is a primitive or a cell at \<open>m\<close> or beyond,
  and the cells from \<open>m\<close> on refer to cells from \<open>m\<close> on only: nothing that can be reached
  from the value is a cell below \<open>m\<close>.
\<close>

fun val_fresh :: "nat \<Rightarrow> val \<Rightarrow> bool" where
  "val_fresh m (Ref a) = (m \<le> a)"
| "val_fresh m v = True"

definition cell_fresh :: "nat \<Rightarrow> obj \<Rightarrow> bool" where
  "cell_fresh m ob =
     (case ob of Arr xs \<Rightarrow> list_all (val_fresh m) xs
               | Obj ps \<Rightarrow> list_all (\<lambda>p. val_fresh m (snd p)) ps)"

definition returned_fresh :: "nat \<Rightarrow> heap \<Rightarrow> val \<Rightarrow> bool" where
  "returned_fresh m h v = (val_fresh m v \<and> list_all (cell_fresh m) (drop m h))"

text \<open>The keys that the data model speaks of: \<^verbatim>\<open>null\<close>, booleans, numbers and strings.\<close>

fun scalar :: "val \<Rightarrow> bool" where
  "scalar Null = True"
| "scalar (Bool b) = True"
| "scalar (Num n) = True"
| "scalar (Str s) = True"
| "scalar v = False"

fun key_json :: "val \<Rightarrow> json" where
  "key_json (Bool b) = JBool b"
| "key_json (Num n) = JNum n"
| "key_json (Str s) = JStr s"
| "key_json v = JNull"

definition pair_json :: "json \<times> json list \<Rightarrow> json" where
  "pair_json q = JArr [fst q, JArr (snd q)]"

text \<open>
  The snapshot of a cache: for each entry of the index, the JSON of the key and of the
  records of its list.
\<close>

definition snapshot_of :: "cache \<Rightarrow> (json \<times> json list) list" where
  "snapshot_of s =
     map (\<lambda>p. (key_json (fst p),
                (case ser_elems (hp s) [] (elems (hp s) (snd p)) of Inl e \<Rightarrow> [] | Inr js \<Rightarrow> js)))
       (data s)"

text \<open>
  A heap \<open>H\<close> agrees with \<open>h\<close> on the cells from \<open>L\<close> up to \<open>U\<close>; a stack avoids these cells.
\<close>

definition agrees :: "nat \<Rightarrow> nat \<Rightarrow> heap \<Rightarrow> heap \<Rightarrow> bool" where
  "agrees L U H h = (U \<le> length H \<and> (\<forall>x. L \<le> x \<and> x < U \<longrightarrow> H ! x = h ! x))"

definition avoids :: "nat \<Rightarrow> nat \<Rightarrow> addr list \<Rightarrow> bool" where
  "avoids L U stk = (\<forall>a\<in>set stk. a < L \<or> U \<le> a)"

text \<open>
  The fields \<open>fs\<close> have the JSON \<open>props\<close> on every heap that agrees with \<open>h\<close> on the cells from
  \<open>L\<close> up to \<open>U\<close>.
\<close>

definition props_rep :: "nat \<Rightarrow> nat \<Rightarrow> heap \<Rightarrow> (string \<times> val) list \<Rightarrow> (string \<times> json) list \<Rightarrow> bool" where
  "props_rep L U h fs props =
     (\<forall>H stk. agrees L U H h \<and> avoids L U stk \<longrightarrow> ser_props H stk fs = Inr props)"

text \<open>
  A parsed record: the value \<open>v\<close> is an \<open>Obj\<close> cell of \<open>h\<close> at \<open>l\<close> or beyond whose fields have
  the JSON of the object \<open>j\<close> wherever the cells parsed for them are left alone, and none of
  these cells, nor the object itself, is one of the addresses \<open>A\<close>.
\<close>

definition rec_rep :: "nat set \<Rightarrow> nat \<Rightarrow> heap \<Rightarrow> val \<Rightarrow> json \<Rightarrow> bool" where
  "rec_rep A l h v j =
     (\<exists>b fs props L. v = Ref b \<and> j = JObj props \<and> l \<le> L \<and> L \<le> b \<and> b < length h \<and>
        h ! b = Obj fs \<and> (\<forall>a\<in>A. a < L \<or> b < a) \<and> props_rep L b h fs props)"

text \<open>
  A record class whose constructor copies the fields of the object it is given, as
  \<^verbatim>\<open>Object.assign(this, data)\<close> does.
\<close>

definition copies_fields :: "ctor \<Rightarrow> bool" where
  "copies_fields c = (\<forall>h a fs. a < length h \<and> h ! a = Obj fs \<longrightarrow> c h (Ref a) = Inr fs)"

text \<open>The value is an object that is not an array.\<close>

definition is_object :: "heap \<Rightarrow> val \<Rightarrow> bool" where
  "is_object h v =
     (case v of
        Ref a \<Rightarrow> a < length h \<and> (case h ! a of Obj ps \<Rightarrow> True | Arr xs \<Rightarrow> False)
      | _ \<Rightarrow> False)"

text \<open>Every record of the index is such an object.\<close>

definition records_are_objects :: "cache \<Rightarrow> bool" where
  "records_are_objects s =
     list_all (\<lambda>p. list_all (is_object (hp s)) (elems (hp s) (snd p))) (data s)"

text \<open>
  A step swaps when it gets to the end of \<^verbatim>\<open>setData\<close>, where \<^verbatim>\<open>this.data\<close> and \<^verbatim>\<open>this.lastUpdate\<close>
  are assigned: a refresh cycle whose \<^verbatim>\<open>loadFromDatabase\<close> returns (the database-driven
  swap), or, with persistence enabled, a read of the snapshot file whose \<^verbatim>\<open>setData\<close> returns
  (the pre-warm swap). \<open>event_time\<close> is the time at which the step runs.
\<close>

definition swaps :: "options \<Rightarrow> event \<Rightarrow> cache \<Rightarrow> bool" where
  "swaps cfg ev s =
     (case ev of
        DatabaseLoad now q w \<Rightarrow>
          (case loadFromDatabase cfg now q s of (Inr u, s1) \<Rightarrow> True | (Inl e, s1) \<Rightarrow> False)
      | FileLoad now f \<Rightarrow>
          shouldSaveToFile cfg \<and>
          (case f of
             Parsed snapshot \<Rightarrow>
               (case build_pairs snapshot (hp s) of
                  (mapData, h1) \<Rightarrow>
                    (case setData cfg now (PairData mapData) (s\<lparr>hp := h1\<rparr>) of
                       (Inr u, s1) \<Rightarrow> True
                     | (Inl e, s1) \<Rightarrow> False))
           | EmptyFile \<Rightarrow>
               (case setData cfg now NullData s of (Inr u, s1) \<Rightarrow> True | (Inl e, s1) \<Rightarrow> False)
           | ReadFailed err \<Rightarrow> False
           | Unparsable \<Rightarrow> False))"

definition event_time :: "event \<Rightarrow> nat" where
  "event_time ev = (case ev of DatabaseLoad now q w \<Rightarrow> now | FileLoad now f \<Rightarrow> now)"

text \<open>
  A mapper has been called on every row, in order: \<open>outs ! i\<close> is what it returned for
  \<open>rows ! i\<close>, in the heap that holds the cells of the rows before.
\<close>

definition mapped_each ::
    "(heap \<Rightarrow> val \<Rightarrow> error + ('a \<times> obj list)) \<Rightarrow> val list \<Rightarrow> heap \<Rightarrow> ('a \<times> obj list) list \<Rightarrow> bool" where
  "mapped_each f rows h outs =
     (length outs = length rows \<and>
      (\<forall>i<length rows. f (h @ concat (map snd (take i outs))) (rows ! i) = Inr (outs ! i)))"

text \<open>A list of the index, as the value that the map holds.\<close>

definition boxed :: "val \<times> addr \<Rightarrow> val \<times> val" where
  "boxed p = (fst p, Ref (snd p))"

section \<open>Reading a key that is absent\<close>

text \<open>
  C8. For a key that is absent from the index, \<^verbatim>\<open>getValues\<close> returns a new empty array
  (never \<^verbatim>\<open>null\<close>), and \<^verbatim>\<open>getFirstValue\<close> returns \<^verbatim>\<open>null\<close> without throwing and without
  touching the state.
\<close>

theorem absent_key_reads:
  assumes "map_get (data s) key = None"
  shows "fst (getValues key s) = Inr (Ref (length (hp s)))
       \<and> isArray (hp (snd (getValues key s))) (Ref (length (hp s)))
       \<and> elems (hp (snd (getValues key s))) (length (hp s)) = []
       \<and> getFirstValue key s = (Inr Null, s)"
  using assms by (simp add: getValues_def getFirstValue_def isArray_def elems_def)

theorem absent_key_reads_witness:
  "map_get (data demo_cache) (Num 150) = None
   \<and> fst (getValues (Num 150) demo_cache) = Inr (Ref 5)
   \<and> getFirstValue (Num 150) demo_cache = (Inr Null, demo_cache)"
proof -
  have a: "map_get (data demo_cache) (Num 150) = None"
    by (simp add: demo_cache_def map_get_def)
  have l: "length (hp demo_cache) = 5"
    by (simp add: demo_cache_def demo_rows_def)
  from absent_key_reads [OF a] a l show ?thesis by simp
qed

section \<open>A query that returns no rows\<close>

text \<open>
  An empty array of rows replaces the index by an empty one, sets \<^verbatim>\<open>lastUpdate\<close> and emits
  \<^verbatim>\<open>'update'\<close>.
\<close>

lemma empty_rows_swap:
  "loadFromDatabase cfg now (Rows []) s
     = (Inr (), emit Update (s\<lparr>data := [], lastUpdate := Some now\<rparr>))"
  by (simp add: loadFromDatabase_def queryDatabase_def setData_def publish_def)

text \<open>
  C10. When the query calls back with \<^verbatim>\<open>null\<close> for the rows, \<^verbatim>\<open>queryDatabase\<close> throws on
  \<^verbatim>\<open>rows.length\<close> before \<^verbatim>\<open>loadFromDatabase\<close> can test \<^verbatim>\<open>rows == null\<close>: the cycle emits an
  error, swaps nothing and emits no update.
\<close>

theorem null_rows_reported_as_error:
  "loadFromDatabaseAndSaveToFile cfg now NoRows w s = emit (Error TypeError) s"
  by (simp add: loadFromDatabaseAndSaveToFile_def loadFromDatabase_def queryDatabase_def)

section \<open>Which mapper a cycle uses\<close>

lemma setData_ignores_mappers:
  "setData (cfg\<lparr>opt_parseDataRow := g\<rparr>) now md s = setData cfg now md s"
  by (cases md) (simp_all add: setData_def)

lemma collectMapItems_ignores_single:
  "parseDataMultiRow cfg = Some f \<Longrightarrow>
   collectMapItems (cfg\<lparr>opt_parseDataRow := g\<rparr>) rows h = collectMapItems cfg rows h"
  by (simp add: collectMapItems_def)

lemma loadFromDatabase_ignores_single:
  assumes "parseDataMultiRow cfg = Some f"
  shows "loadFromDatabase cfg now q s = loadFromDatabase (cfg\<lparr>opt_parseDataRow := g\<rparr>) now q s"
  by (simp add: loadFromDatabase_def setData_ignores_mappers
      collectMapItems_ignores_single [OF assms]
      split: sum.splits option.splits prod.splits)

section \<open>Heaps along the merge loop\<close>

lemma extends_refl [simp]: "extends h h"
  by (simp add: extends_def)

lemma extends_length: "extends h h' \<Longrightarrow> length h \<le> length h'"
  by (simp add: extends_def)

lemma extends_obj:
  "extends h h' \<Longrightarrow> a < length h \<Longrightarrow> h ! a = Obj ps \<Longrightarrow> h' ! a = Obj ps"
  by (simp add: extends_def)

lemma extends_arr:
  "extends h h' \<Longrightarrow> a < length h \<Longrightarrow> h ! a = Arr xs \<Longrightarrow>
   \<exists>ys. h' ! a = Arr ys \<and> length xs \<le> length ys"
  by (simp add: extends_def)

lemma extends_trans:
  assumes "extends h1 h2" and "extends h2 h3"
  shows "extends h1 h3"
  unfolding extends_def
proof (intro conjI allI impI)
  show "length h1 \<le> length h3"
    using assms by (simp add: extends_def)
next
  fix a ps
  assume "a < length h1" "h1 ! a = Obj ps"
  then have "a < length h2" "h2 ! a = Obj ps"
    using assms(1) by (simp_all add: extends_def)
  then show "h3 ! a = Obj ps"
    using assms(2) by (simp add: extends_def)
next
  fix a xs
  assume a: "a < length h1" "h1 ! a = Arr xs"
  then have a2: "a < length h2"
    using assms(1) by (simp add: extends_def)
  from extends_arr [OF assms(1) a] obtain ys where y: "h2 ! a = Arr ys" "length xs \<le> length ys"
    by blast
  from extends_arr [OF assms(2) a2 y(1)] obtain zs where "h3 ! a = Arr zs" "length ys \<le> length zs"
    by blast
  with y show "\<exists>ys. h3 ! a = Arr ys \<and> length xs \<le> length ys"
    by simp
qed

lemma extends_append [simp]: "extends h (h @ cs)"
  by (simp add: extends_def nth_append)

lemma extends_update:
  "isArray h (Ref a) \<Longrightarrow> length (elems h a) \<le> length ys \<Longrightarrow> extends h (h[a := Arr ys])"
  by (cases "h ! a") (auto simp: extends_def isArray_def elems_def nth_list_update)

lemma extends_isArray:
  assumes "extends h h'" and "a < length h"
  shows "isArray h' (Ref a) = isArray h (Ref a)"
proof (cases "h ! a")
  case (Arr xs)
  from extends_arr [OF assms Arr] obtain ys where "h' ! a = Arr ys"
    by blast
  with Arr assms extends_length [OF assms(1)] show ?thesis
    by (simp add: isArray_def)
next
  case (Obj ps)
  from extends_obj [OF assms Obj] Obj assms extends_length [OF assms(1)] show ?thesis
    by (simp add: isArray_def)
qed

lemma isArray_less: "isArray h (Ref a) \<Longrightarrow> a < length h"
  by (simp add: isArray_def)

lemma isArray_Ref: "isArray h v \<Longrightarrow> v = Ref (the_addr v)"
  by (cases v) (simp_all add: isArray_def the_addr_def)

lemma extends_isArray_val:
  assumes "extends h h'" and "isArray h v"
  shows "isArray h' v"
proof -
  from assms(2) obtain a where v: "v = Ref a"
    by (cases v) (simp_all add: isArray_def)
  with assms(2) have "a < length h"
    by (simp add: isArray_def)
  from extends_isArray [OF assms(1) this] assms(2) v show ?thesis
    by simp
qed

lemma extends_elems_length:
  assumes "extends h h'"
  shows "length (elems h a) \<le> length (elems h' a)"
proof (cases "a < length h")
  case False
  then show ?thesis by (simp add: elems_def)
next
  case True
  show ?thesis
  proof (cases "h ! a")
    case (Arr xs)
    from extends_arr [OF assms True Arr] obtain ys where "h' ! a = Arr ys" "length xs \<le> length ys"
      by blast
    with Arr True extends_length [OF assms] show ?thesis
      by (simp add: elems_def)
  next
    case (Obj ps)
    with True show ?thesis by (simp add: elems_def)
  qed
qed

lemma new_Item_cases:
  assumes "new_Item c v h = (r, h')"
  obtains e where "c h v = Inl e" "r = Inl e" "h' = h"
  | ps where "c h v = Inr ps" "r = Inr (Ref (length h))" "h' = h @ [Obj ps]"
  using assms by (auto simp: new_Item_def split: sum.splits)

lemma new_Item_extends: "new_Item c v h = (r, h') \<Longrightarrow> extends h h'"
  by (erule new_Item_cases) simp_all

lemma isArray_elems_update [simp]:
  "a < length h \<Longrightarrow> elems (h[a := Arr ys]) a = ys"
  by (simp add: elems_def)

lemma elems_update_other [simp]:
  "b \<noteq> a \<Longrightarrow> elems (h[a := c]) b = elems h b"
  by (simp add: elems_def)

lemma construct_elems_extends:
  "isArray h (Ref a) \<Longrightarrow> construct_elems c a js h = (r, h') \<Longrightarrow> extends h h'"
proof (induction js arbitrary: h)
  case Nil
  then show ?case by simp
next
  case (Cons j js)
  obtain r1 h1 where n: "new_Item c (elems h a ! j) h = (r1, h1)"
    by (cases "new_Item c (elems h a ! j) h")
  then have e1: "extends h h1"
    by (rule new_Item_extends)
  show ?case
  proof (cases r1)
    case (Inl e)
    with Cons.prems n e1 show ?thesis by simp
  next
    case (Inr x)
    let ?h2 = "h1[a := Arr ((elems h1 a)[j := x])]"
    have a1: "isArray h1 (Ref a)"
      using e1 Cons.prems(1) by (rule extends_isArray_val)
    then have e2: "extends h1 ?h2"
      by (rule extends_update) simp
    have a2: "isArray ?h2 (Ref a)"
      using e2 a1 by (rule extends_isArray_val)
    from Cons.prems n Inr have "construct_elems c a js ?h2 = (r, h')"
      by simp
    from Cons.IH [OF a2 this] have "extends ?h2 h'" .
    with e1 e2 show ?thesis
      by (blast intro: extends_trans)
  qed
qed

lemma construct_value_extends:
  assumes "construct_value Item v h = (r, h')"
  shows "extends h h'"
proof (cases Item)
  case None
  with assms show ?thesis by (simp add: construct_value_def)
next
  case (Some c)
  show ?thesis
  proof (cases "isArray h v")
    case False
    with assms Some show ?thesis
      by (simp add: construct_value_def new_Item_extends)
  next
    case True
    obtain r1 h1 where
      ce: "construct_elems c (the_addr v) [0..<length (elems h (the_addr v))] h = (r1, h1)"
      by (cases "construct_elems c (the_addr v) [0..<length (elems h (the_addr v))] h")
    from True have "isArray h (Ref (the_addr v))"
      using isArray_Ref by fastforce
    from construct_elems_extends [OF this ce] have "extends h h1" .
    moreover from assms Some True ce have "h' = h1"
      by (auto simp: construct_value_def split: sum.splits)
    ultimately show ?thesis by simp
  qed
qed

lemma grows_refl [simp]: "grows h h"
  by (auto simp: grows_def dest: isArray_less)

lemma grows_extends: "grows h h' \<Longrightarrow> extends h h'"
  by (simp add: grows_def)

lemma grows_trans:
  assumes "grows h1 h2" and "grows h2 h3"
  shows "grows h1 h3"
  unfolding grows_def
proof (intro conjI allI impI)
  show "extends h1 h3"
    using assms by (blast intro: extends_trans grows_extends)
next
  fix b
  assume b: "length h1 \<le> b" "isArray h3 (Ref b)"
  show "elems h3 b \<noteq> []"
  proof (cases "b < length h2")
    case True
    with extends_isArray [OF grows_extends [OF assms(2)] True] b have "isArray h2 (Ref b)"
      by simp
    with assms(1) b have "elems h2 b \<noteq> []"
      by (simp add: grows_def)
    with extends_elems_length [OF grows_extends [OF assms(2)], of b] show ?thesis
      by auto
  next
    case False
    with assms(2) b show ?thesis
      by (simp add: grows_def)
  qed
qed

lemma grows_append_obj [simp]: "grows h (h @ [Obj ps])"
  by (auto simp: grows_def isArray_def nth_append less_Suc_eq)

lemma grows_append_arr [simp]: "grows h (h @ [Arr (v # vs)])"
  by (auto simp: grows_def isArray_def elems_def nth_append less_Suc_eq)

lemma grows_update:
  "isArray h (Ref a) \<Longrightarrow> length (elems h a) \<le> length ys \<Longrightarrow> grows h (h[a := Arr ys])"
  by (auto simp: grows_def extends_update dest: isArray_less)

lemma new_Item_grows: "new_Item c v h = (r, h') \<Longrightarrow> grows h h'"
  by (erule new_Item_cases) simp_all

lemma construct_elems_grows:
  "isArray h (Ref a) \<Longrightarrow> construct_elems c a js h = (r, h') \<Longrightarrow> grows h h'"
proof (induction js arbitrary: h)
  case Nil
  then show ?case by simp
next
  case (Cons j js)
  obtain r1 h1 where n: "new_Item c (elems h a ! j) h = (r1, h1)"
    by (cases "new_Item c (elems h a ! j) h")
  then have e1: "grows h h1"
    by (rule new_Item_grows)
  show ?case
  proof (cases r1)
    case (Inl e)
    with Cons.prems n e1 show ?thesis by simp
  next
    case (Inr x)
    let ?h2 = "h1[a := Arr ((elems h1 a)[j := x])]"
    have a1: "isArray h1 (Ref a)"
      using grows_extends [OF e1] Cons.prems(1) by (rule extends_isArray_val)
    then have e2: "grows h1 ?h2"
      by (rule grows_update) simp
    have a2: "isArray ?h2 (Ref a)"
      using grows_extends [OF e2] a1 by (rule extends_isArray_val)
    from Cons.prems n Inr have "construct_elems c a js ?h2 = (r, h')"
      by simp
    from Cons.IH [OF a2 this] have "grows ?h2 h'" .
    with e1 e2 show ?thesis
      by (blast intro: grows_trans)
  qed
qed

text \<open>What \<open>construct_value\<close> returns.\<close>

lemma construct_value_cases:
  assumes "construct_value Item v h = (r, h')"
  obtains (plain) "Item = None" "r = Inr v" "h' = h"
  | (scalar) c where "Item = Some c" "\<not> isArray h v" "new_Item c v h = (r, h')"
  | (array) c r1 where "Item = Some c" "isArray h v"
      "construct_elems c (the_addr v) [0..<length (elems h (the_addr v))] h = (r1, h')"
      "r = (case r1 of Inl e \<Rightarrow> Inl e | Inr u \<Rightarrow> Inr v)"
  using assms
  by (cases Item; cases "isArray h v")
     (auto simp: construct_value_def split: prod.splits sum.splits)

lemma construct_value_grows:
  assumes "construct_value Item v h = (r, h')"
  shows "grows h h'"
  using assms
proof (cases rule: construct_value_cases)
  case plain
  then show ?thesis by simp
next
  case (scalar c)
  then show ?thesis by (simp add: new_Item_grows)
next
  case (array c r1)
  from array(2) have "isArray h (Ref (the_addr v))"
    using isArray_Ref by fastforce
  from construct_elems_grows [OF this array(3)] show ?thesis .
qed

lemma construct_value_array:
  assumes "construct_value Item v h = (Inr v', h')" and "isArray h v"
  shows "v' = v"
  using assms(1)
  by (cases rule: construct_value_cases) (use assms(2) in \<open>auto split: sum.splits\<close>)

text \<open>One turn of the merge loop, case by case.\<close>

lemma mergeItem_cases:
  assumes "mergeItem Item it m h = (r, h')"
  obtains (throws) e where "construct_value Item (snd it) h = (Inl e, h')" "r = Inl e"
  | (new_scalar) v h1 where "construct_value Item (snd it) h = (Inr v, h1)"
      "map_get m (fst it) = None" "\<not> isArray h (snd it)"
      "r = Inr (map_set m (fst it) (length h1))" "h' = h1 @ [Arr [v]]"
  | (new_array) v where "construct_value Item (snd it) h = (Inr v, h')"
      "map_get m (fst it) = None" "isArray h (snd it)"
      "r = Inr (map_set m (fst it) (the_addr v))"
  | (push_scalar) v h1 a where "construct_value Item (snd it) h = (Inr v, h1)"
      "map_get m (fst it) = Some a" "\<not> isArray h (snd it)"
      "r = Inr m" "h' = h1[a := Arr (elems h1 a @ [v])]"
  | (push_array) v h1 a where "construct_value Item (snd it) h = (Inr v, h1)"
      "map_get m (fst it) = Some a" "isArray h (snd it)"
      "r = Inr m" "h' = h1[a := Arr (elems h1 a @ elems h1 (the_addr v))]"
proof -
  obtain r1 h1 where cv: "construct_value Item (snd it) h = (r1, h1)"
    by (cases "construct_value Item (snd it) h")
  show ?thesis
  proof (cases r1)
    case (Inl e)
    with assms cv throws show ?thesis
      by (simp add: mergeItem_def)
  next
    case (Inr v)
    show ?thesis
    proof (cases "map_get m (fst it)")
      case None
      with assms cv Inr new_scalar new_array show ?thesis
        by (cases "isArray h (snd it)") (simp_all add: mergeItem_def)
    next
      case (Some a)
      with assms cv Inr push_scalar push_array show ?thesis
        by (cases "isArray h (snd it)") (simp_all add: mergeItem_def)
    qed
  qed
qed

lemma map_set_absent: "map_get m k = None \<Longrightarrow> map_set m k a = m @ [(k, a)]"
  by (induction m) (auto simp: map_get_def split: if_splits)

lemma map_get_mem: "map_get m k = Some a \<Longrightarrow> (k, a) \<in> set m"
  by (simp add: map_get_def map_of_SomeD)

lemma merge_inv_start: "merge_inv h0 items h0 []"
  by (simp add: merge_inv_def)

lemma merge_inv_grows:
  assumes "merge_inv h0 items h m" and "grows h h'"
  shows "merge_inv h0 items h' m"
  using assms
  by (auto simp: merge_inv_def intro: grows_trans extends_isArray_val [OF grows_extends])

lemma mergeItem_grows:
  assumes "\<forall>p\<in>set m. isArray h (Ref (snd p))" and "mergeItem Item it m h = (r, h')"
  shows "grows h h'"
  using assms(2)
proof (cases rule: mergeItem_cases)
  case (throws e)
  then show ?thesis by (simp add: construct_value_grows)
next
  case (new_scalar v h1)
  from construct_value_grows [OF new_scalar(1)] have "grows h h1" .
  moreover have "grows h1 h'"
    using new_scalar(5) by simp
  ultimately show ?thesis by (rule grows_trans)
next
  case (new_array v)
  then show ?thesis by (simp add: construct_value_grows)
next
  case (push_scalar v h1 a)
  from construct_value_grows [OF push_scalar(1)] have g: "grows h h1" .
  from map_get_mem [OF push_scalar(2)] assms(1) have "isArray h (Ref a)"
    by fastforce
  with g have "isArray h1 (Ref a)"
    by (blast intro: extends_isArray_val grows_extends)
  then have "grows h1 h'"
    unfolding push_scalar(5) by (rule grows_update) simp
  with g show ?thesis by (rule grows_trans)
next
  case (push_array v h1 a)
  from construct_value_grows [OF push_array(1)] have g: "grows h h1" .
  from map_get_mem [OF push_array(2)] assms(1) have "isArray h (Ref a)"
    by fastforce
  with g have "isArray h1 (Ref a)"
    by (blast intro: extends_isArray_val grows_extends)
  then have "grows h1 h'"
    unfolding push_array(5) by (rule grows_update) simp
  with g show ?thesis by (rule grows_trans)
qed

lemma mergeItem_inv:
  assumes inv: "merge_inv h0 items h m"
    and it: "it \<in> set items"
    and m: "mergeItem Item it m h = (Inr m', h')"
  shows "merge_inv h0 items h' m'"
proof -
  from inv have arr: "\<forall>p\<in>set m. isArray h (Ref (snd p))"
    by (simp add: merge_inv_def)
  from mergeItem_grows [OF arr m] have g: "grows h h'" .
  from merge_inv_grows [OF inv g] have inv': "merge_inv h0 items h' m" .
  from inv have g0: "grows h0 h"
    by (simp add: merge_inv_def)
  from m show ?thesis
  proof (cases rule: mergeItem_cases)
    case (throws e)
    then show ?thesis by simp
  next
    case (new_scalar v h1)
    from construct_value_grows [OF new_scalar(1)] g0 have "length h0 \<le> length h1"
      by (blast dest: grows_extends extends_length grows_trans)
    moreover have "isArray h' (Ref (length h1))"
      using new_scalar(5) by (simp add: isArray_def)
    ultimately show ?thesis
      using inv' new_scalar(2,4) it
      by (auto simp: merge_inv_def map_set_absent)
  next
    case (new_array v)
    from construct_value_array [OF new_array(1,3)] have v: "v = snd it" .
    from new_array(3) have r: "snd it = Ref (the_addr (snd it))"
      by (rule isArray_Ref)
    have "isArray h' (Ref (the_addr (snd it)))"
      using g new_array(3) r by (metis extends_isArray_val grows_extends)
    moreover have "Ref (the_addr (snd it)) \<in> snd ` set items"
      using it r by (metis imageI)
    ultimately show ?thesis
      using inv' new_array(2,4) it v
      by (auto simp: merge_inv_def map_set_absent)
  next
    case (push_scalar v h1 a)
    with inv' show ?thesis by simp
  next
    case (push_array v h1 a)
    with inv' show ?thesis by simp
  qed
qed

lemma mergeItems_inv:
  assumes "merge_inv h0 items h m"
    and "set rest \<subseteq> set items"
    and "mergeItems Item rest m h = (Inr m', h')"
  shows "merge_inv h0 items h' m'"
  using assms
proof (induction rest arbitrary: m h)
  case Nil
  then show ?case by simp
next
  case (Cons it rest)
  obtain r1 h1 where s: "mergeItem Item it m h = (r1, h1)"
    by (cases "mergeItem Item it m h")
  with Cons.prems(3) obtain m1 where r1: "r1 = Inr m1"
    by (cases r1) simp_all
  from Cons.prems(2) have "it \<in> set items"
    by simp
  from mergeItem_inv [OF Cons.prems(1) this s [unfolded r1]]
  have "merge_inv h0 items h1 m1" .
  moreover from Cons.prems(3) s r1 have "mergeItems Item rest m1 h1 = (Inr m', h')"
    by simp
  ultimately show ?case
    using Cons.IH Cons.prems(2) by simp
qed

lemma merged_lists_nonempty:
  assumes m: "mergeItems Item items [] h0 = (Inr m', h')"
    and ne: "\<forall>it\<in>set items. isArray h0 (snd it) \<longrightarrow> elems h0 (the_addr (snd it)) \<noteq> []"
    and p: "p \<in> set m'"
  shows "elems h' (snd p) \<noteq> [] \<and> fst p \<in> fst ` set items"
proof -
  from mergeItems_inv [OF merge_inv_start _ m] have inv: "merge_inv h0 items h' m'"
    by simp
  then have g: "grows h0 h'" and a: "isArray h' (Ref (snd p))"
    and k: "fst p \<in> fst ` set items"
    and o: "snd p < length h0 \<longrightarrow> Ref (snd p) \<in> snd ` set items"
    using p by (simp_all add: merge_inv_def)
  have "elems h' (snd p) \<noteq> []"
  proof (cases "snd p < length h0")
    case False
    with g a show ?thesis by (simp add: grows_def)
  next
    case True
    with o obtain it where it: "it \<in> set items" "snd it = Ref (snd p)"
      by auto
    from extends_isArray [OF grows_extends [OF g] True] a have "isArray h0 (Ref (snd p))"
      by simp
    with ne it have "elems h0 (snd p) \<noteq> []"
      by (auto simp: the_addr_def)
    with extends_elems_length [OF grows_extends [OF g], of "snd p"] show ?thesis
      by auto
  qed
  with k show ?thesis by simp
qed

section \<open>No key without records\<close>

lemma loadFromDatabase_success:
  assumes "loadFromDatabase cfg now (Rows rows) s = (Inr (), s')" and "rows \<noteq> []"
  obtains mapItems h1 m h2 where
    "collectMapItems cfg rows (hp s) = (Inr mapItems, h1)"
    "mergeItems (itemClass cfg) mapItems [] h1 = (Inr m, h2)"
    "s' = publish now (s\<lparr>hp := h2, data := m\<rparr>)"
  using assms
  by (auto simp: loadFromDatabase_def queryDatabase_def setData_def
      split: prod.splits sum.splits)

lemma publish_fields [simp]:
  "data (publish now s) = data s" "hp (publish now s) = hp s"
  by (simp_all add: publish_def emit_def)

text \<open>
  C2, as the code has it. When no pair of \<^verbatim>\<open>mapItems\<close> carries an empty array, every key of
  the index that a successful refresh cycle builds has at least one record, and every
  key of the index is the key of some pair.
\<close>

theorem refreshed_lists_nonempty:
  assumes "loadFromDatabase cfg now (Rows rows) s = (Inr (), s')"
    and "collectMapItems cfg rows (hp s) = (Inr mapItems, h1)"
    and "\<forall>it\<in>set mapItems. isArray h1 (snd it) \<longrightarrow> elems h1 (the_addr (snd it)) \<noteq> []"
    and "p \<in> set (data s')"
  shows "elems (hp s') (snd p) \<noteq> [] \<and> fst p \<in> fst ` set mapItems"
proof (cases "rows = []")
  case True
  with assms(1,4) show ?thesis
    by (auto simp: loadFromDatabase_def queryDatabase_def setData_def)
next
  case False
  from assms(1) False obtain items h1' m h2 where
    c: "collectMapItems cfg rows (hp s) = (Inr items, h1')"
    and m: "mergeItems (itemClass cfg) items [] h1' = (Inr m, h2)"
    and s': "s' = publish now (s\<lparr>hp := h2, data := m\<rparr>)"
    by (rule loadFromDatabase_success)
  from c assms(2) have eq: "items = mapItems" "h1' = h1"
    by simp_all
  from assms(4) s' have "p \<in> set m"
    by simp
  from merged_lists_nonempty [OF m [unfolded eq] assms(3) this] s' show ?thesis
    by simp
qed

text \<open>
  C2, as stated, fails: a single-row mapper that returns an empty array for a row leaves
  the key of that row in the index, with an empty list.
\<close>

theorem empty_sequence_is_stored:
  "loadFromDatabase (demo_options\<lparr>opt_parseDataRow := Some empty_list_parseDataRow\<rparr>) 1
      (Rows [Ref 1]) (startCache demo_rows)
     = (Inr (), \<lparr>hp = demo_rows @ [Arr []], data = [(Num 2, 3)], lastUpdate = Some 1,
                 emitted = [Update], loadDataPromise = True\<rparr>)
   \<and> elems (demo_rows @ [Arr []]) 3 = []"
  by (simp add: loadFromDatabase_def queryDatabase_def collectMapItems_def
      empty_list_parseDataRow_def get_prop_def demo_rows_def demo_options_def mergeItem_def
      construct_value_def isArray_def map_get_def the_addr_def setData_def publish_def
      emit_def startCache_def elems_def)

theorem refreshed_lists_nonempty_witness:
  "loadFromDatabase (demo_options\<lparr>opt_parseDataRow := Some tests_parseDataRow\<rparr>) 1
      (Rows [Ref 0, Ref 2]) (startCache demo_rows)
     = (Inr (), \<lparr>hp = demo_rows @
                   [Obj [(''t1'', Ref 0)], Obj [(''t2'', Ref 0)], Obj [(''t3'', Ref 0)],
                    Arr [Ref 3, Ref 4, Ref 5, Ref 7, Ref 8, Ref 9],
                    Obj [(''t1'', Ref 2)], Obj [(''t2'', Ref 2)], Obj [(''t3'', Ref 2)],
                    Arr [Ref 7, Ref 8, Ref 9]],
                 data = [(Num 1, 6)], lastUpdate = Some 1, emitted = [Update],
                 loadDataPromise = True\<rparr>)
   \<and> elems (demo_rows @
                   [Obj [(''t1'', Ref 0)], Obj [(''t2'', Ref 0)], Obj [(''t3'', Ref 0)],
                    Arr [Ref 3, Ref 4, Ref 5, Ref 7, Ref 8, Ref 9],
                    Obj [(''t1'', Ref 2)], Obj [(''t2'', Ref 2)], Obj [(''t3'', Ref 2)],
                    Arr [Ref 7, Ref 8, Ref 9]]) 6 \<noteq> []"
proof -
  let ?cfg = "demo_options\<lparr>opt_parseDataRow := Some tests_parseDataRow\<rparr>"
  let ?h1 = "demo_rows @
     [Obj [(''t1'', Ref 0)], Obj [(''t2'', Ref 0)], Obj [(''t3'', Ref 0)],
      Arr [Ref 3, Ref 4, Ref 5],
      Obj [(''t1'', Ref 2)], Obj [(''t2'', Ref 2)], Obj [(''t3'', Ref 2)],
      Arr [Ref 7, Ref 8, Ref 9]]"
  let ?h2 = "demo_rows @
     [Obj [(''t1'', Ref 0)], Obj [(''t2'', Ref 0)], Obj [(''t3'', Ref 0)],
      Arr [Ref 3, Ref 4, Ref 5, Ref 7, Ref 8, Ref 9],
      Obj [(''t1'', Ref 2)], Obj [(''t2'', Ref 2)], Obj [(''t3'', Ref 2)],
      Arr [Ref 7, Ref 8, Ref 9]]"
  let ?s' = "\<lparr>hp = ?h2, data = [(Num 1, 6)], lastUpdate = Some 1, emitted = [Update],
              loadDataPromise = True\<rparr>"
  have c: "collectMapItems ?cfg [Ref 0, Ref 2] (hp (startCache demo_rows))
             = (Inr [(Num 1, Ref 6), (Num 1, Ref 10)], ?h1)"
    by (simp add: collectMapItems_def demo_options_def tests_parseDataRow_def get_prop_def
        demo_rows_def startCache_def)
  have l: "loadFromDatabase ?cfg 1 (Rows [Ref 0, Ref 2]) (startCache demo_rows) = (Inr (), ?s')"
    by code_simp
  have ne: "\<forall>it\<in>set [(Num 1, Ref 6), (Num 1, Ref 10)].
              isArray ?h1 (snd it) \<longrightarrow> elems ?h1 (the_addr (snd it)) \<noteq> []"
    by (simp add: isArray_def elems_def the_addr_def demo_rows_def)
  have p: "(Num 1, 6) \<in> set (data ?s')"
    by simp
  from refreshed_lists_nonempty [OF l c ne p] l show ?thesis
    by simp
qed

section \<open>Constructed records\<close>

lemma constructed_extends:
  assumes "constructed c h0 h v" and "extends h h'"
  shows "constructed c h0 h' v"
proof -
  from assms(1) obtain a ps h1 x where
    v: "v = Ref a" "extends h0 h1" "a < length h" "h ! a = Obj ps" "length h1 = a" "c h1 x = Inr ps"
    and e: "extends h1 h"
    unfolding constructed_def by blast
  from extends_obj [OF assms(2) v(3,4)] extends_length [OF assms(2)] v
    extends_trans [OF e assms(2)]
  show ?thesis
    unfolding constructed_def by (intro exI [of _ a] exI [of _ ps] exI [of _ h1] exI [of _ x]) simp
qed

lemma new_Item_constructed:
  assumes "new_Item c v h = (Inr r, h')" and "extends h0 h"
  shows "constructed c h0 h' r"
  using assms(1)
proof (cases rule: new_Item_cases)
  case (1 e)
  then show ?thesis by simp
next
  case (2 ps)
  with assms(2) show ?thesis
    unfolding constructed_def
    by (intro exI [of _ "length h"] exI [of _ ps] exI [of _ h] exI [of _ v]) simp
qed

lemma elems_append_old [simp]: "a < length h \<Longrightarrow> elems (h @ cs) a = elems h a"
  by (simp add: elems_def nth_append)

lemma isArray_append_old [simp]: "a < length h \<Longrightarrow> isArray (h @ cs) (Ref a) = isArray h (Ref a)"
  by (simp add: isArray_def nth_append)

lemma isArray_update_same [simp]: "isArray (h[a := Arr ys]) (Ref a) = (a < length h)"
  by (auto simp: isArray_def)

lemma isArray_update_other [simp]: "b \<noteq> a \<Longrightarrow> isArray (h[a := c]) (Ref b) = isArray h (Ref b)"
  by (simp add: isArray_def)

text \<open>
  What the construction loop does to the array it runs over, and that it leaves every
  other cell alone.
\<close>

lemma construct_elems_result:
  assumes "isArray h (Ref a)" and "extends h0 h"
    and "construct_elems c a js h = (Inr (), h')"
    and "\<forall>j\<in>set js. j < length (elems h a)"
  shows "length (elems h' a) = length (elems h a)
       \<and> (\<forall>i<length (elems h a).
            if i \<in> set js then constructed c h0 h' (elems h' a ! i)
            else elems h' a ! i = elems h a ! i)
       \<and> (\<forall>b<length h. b \<noteq> a \<longrightarrow> h' ! b = h ! b)
       \<and> (\<forall>b. length h \<le> b \<longrightarrow> \<not> isArray h' (Ref b))"
  using assms
proof (induction js arbitrary: h)
  case Nil
  then show ?case by (auto dest: isArray_less)
next
  case (Cons j js)
  from Cons.prems(1) have al: "a < length h"
    by (rule isArray_less)
  obtain r1 h1 where n: "new_Item c (elems h a ! j) h = (r1, h1)"
    by (cases "new_Item c (elems h a ! j) h")
  with Cons.prems(3) obtain r where r1: "r1 = Inr r"
    by (cases r1) simp_all
  from n [unfolded r1] obtain ps where h1: "h1 = h @ [Obj ps]" and r: "r = Ref (length h)"
    by (cases rule: new_Item_cases) simp_all
  let ?h2 = "h1[a := Arr ((elems h1 a)[j := r])]"
  have e1: "elems h1 a = elems h a"
    using al h1 by simp
  have a2: "isArray ?h2 (Ref a)"
    using al h1 by simp
  have e12: "extends h1 ?h2"
    using al h1 Cons.prems(1) by (intro extends_update) simp_all
  have "extends h h1"
    using h1 by simp
  from extends_trans [OF extends_trans [OF Cons.prems(2) this] e12]
  have l2: "extends h0 ?h2" .
  have el2: "elems ?h2 a = (elems h a)[j := r]"
    using al h1 by simp
  have c2: "construct_elems c a js ?h2 = (Inr (), h')"
    using Cons.prems(3) n r1 by simp
  have js2: "\<forall>j\<in>set js. j < length (elems ?h2 a)"
    using Cons.prems(4) el2 by simp
  note IH = Cons.IH [OF a2 l2 c2 js2]
  have g2: "extends ?h2 h'"
    using a2 c2 by (rule construct_elems_extends)
  have rc: "constructed c h0 ?h2 r"
  proof -
    from new_Item_constructed [OF n [unfolded r1] Cons.prems(2)] have "constructed c h0 h1 r" .
    moreover have "extends h1 ?h2"
      using al h1 Cons.prems(1) by (intro extends_update) simp_all
    ultimately show ?thesis by (rule constructed_extends)
  qed
  have jl: "j < length (elems h a)"
    using Cons.prems(4) by simp
  show ?case
  proof (intro conjI allI impI)
    show "length (elems h' a) = length (elems h a)"
      using IH el2 by simp
  next
    fix i
    assume i: "i < length (elems h a)"
    show "if i \<in> set (j # js) then constructed c h0 h' (elems h' a ! i)
          else elems h' a ! i = elems h a ! i"
    proof (cases "i \<in> set js")
      case True
      with IH i el2 show ?thesis by simp
    next
      case False
      with IH i el2 have same: "elems h' a ! i = (elems h a)[j := r] ! i"
        by simp
      show ?thesis
      proof (cases "i = j")
        case True
        with same jl have "elems h' a ! i = r"
          by simp
        with constructed_extends [OF rc g2] True show ?thesis
          by simp
      next
        case ne: False
        with same False show ?thesis by simp
      qed
    qed
  next
    fix b
    assume b: "b < length h" "b \<noteq> a"
    with IH h1 have "h' ! b = ?h2 ! b"
      by simp
    with b h1 show "h' ! b = h ! b"
      by (simp add: nth_append)
  next
    fix b
    assume b: "length h \<le> b"
    show "\<not> isArray h' (Ref b)"
    proof (cases "b = length h")
      case True
      then have "b < length ?h2" "?h2 ! b = Obj ps"
        using h1 al by (simp_all add: nth_append)
      from extends_obj [OF g2 this] extends_length [OF g2] \<open>b < length ?h2\<close> show ?thesis
        by (simp add: isArray_def)
    next
      case False
      with b h1 have "length ?h2 \<le> b"
        by simp
      with IH show ?thesis by simp
    qed
  qed
qed

lemma all_constructed_frame:
  assumes "all_constructed c h0 h b" and "extends h h'" and "h' ! b = h ! b"
  shows "all_constructed c h0 h' b"
proof -
  from assms(1) have b: "b < length h" and arr: "isArray h (Ref b)"
    by (auto simp: all_constructed_def dest: isArray_less)
  with extends_length [OF assms(2)] assms(3) have "elems h' b = elems h b"
    by (simp add: elems_def)
  moreover from extends_isArray_val [OF assms(2) arr] have "isArray h' (Ref b)" .
  ultimately show ?thesis
    using assms(1,2) by (auto simp: all_constructed_def intro: constructed_extends)
qed

lemma all_constructed_append:
  "all_constructed c h0 h b \<Longrightarrow> all_constructed c h0 (h @ cs) b"
  by (rule all_constructed_frame) (auto simp: all_constructed_def nth_append dest: isArray_less)

lemma all_constructed_push:
  assumes "all_constructed c h0 h a" and "\<forall>v\<in>set vs. constructed c h0 h v"
  shows "all_constructed c h0 (h[a := Arr (elems h a @ vs)]) a"
proof -
  from assms(1) have arr: "isArray h (Ref a)" and al: "a < length h"
    by (auto simp: all_constructed_def dest: isArray_less)
  have "extends h (h[a := Arr (elems h a @ vs)])"
    using arr by (rule extends_update) simp
  with assms al show ?thesis
    by (auto simp: all_constructed_def intro: constructed_extends)
qed

lemma all_constructed_update_other:
  assumes "all_constructed c h0 h b" and "b \<noteq> a" and "isArray h (Ref a)"
    and "length (elems h a) \<le> length ys"
  shows "all_constructed c h0 (h[a := Arr ys]) b"
  using assms(1)
proof (rule all_constructed_frame)
  show "extends h (h[a := Arr ys])"
    using assms(3,4) by (rule extends_update)
  show "h[a := Arr ys] ! b = h ! b"
    using assms(2) by simp
qed

lemma construct_elems_all:
  assumes arr: "isArray h (Ref a)" and l: "extends h0 h"
    and ce: "construct_elems c a [0..<length (elems h a)] h = (Inr (), h')"
  shows "all_constructed c h0 h' a
       \<and> (\<forall>b. all_constructed c h0 h b \<longrightarrow> all_constructed c h0 h' b)
       \<and> (\<forall>b. length h \<le> b \<longrightarrow> \<not> isArray h' (Ref b))"
proof -
  have js: "\<forall>j\<in>set [0..<length (elems h a)]. j < length (elems h a)"
    by simp
  note R = construct_elems_result [OF arr l ce js]
  from arr ce have ext: "extends h h'"
    by (rule construct_elems_extends)
  have here: "all_constructed c h0 h' a"
    unfolding all_constructed_def
  proof (intro conjI ballI)
    show "isArray h' (Ref a)"
      using ext arr by (rule extends_isArray_val)
  next
    fix v
    assume "v \<in> set (elems h' a)"
    then obtain i where "i < length (elems h' a)" "v = elems h' a ! i"
      by (auto simp: in_set_conv_nth)
    with R show "constructed c h0 h' v"
      by simp
  qed
  have others: "all_constructed c h0 h' b" if b: "all_constructed c h0 h b" for b
  proof (cases "b = a")
    case True
    with here show ?thesis by simp
  next
    case False
    from b have "b < length h"
      by (auto simp: all_constructed_def dest: isArray_less)
    with R False have "h' ! b = h ! b"
      by simp
    with b ext show ?thesis
      by (rule all_constructed_frame)
  qed
  from here others R show ?thesis
    by blast
qed

lemma construct_value_ctor:
  assumes inv: "new_arrays_constructed c h0 h" and e0: "extends h0 h"
    and cv: "construct_value (Some c) v h = (Inr v', h1)"
  shows "new_arrays_constructed c h0 h1
       \<and> (\<forall>b. all_constructed c h0 h b \<longrightarrow> all_constructed c h0 h1 b)
       \<and> (if isArray h v then v' = v \<and> all_constructed c h0 h1 (the_addr v)
           else constructed c h0 h1 v')"
proof -
  from inv have l: "length h0 \<le> length h"
    by (simp add: new_arrays_constructed_def)
  from cv have ext: "extends h h1"
    by (blast dest: construct_value_grows grows_extends)
  from cv show ?thesis
  proof (cases rule: construct_value_cases)
    case plain
    then show ?thesis by simp
  next
    case (scalar c')
    then have n: "new_Item c v h = (Inr v', h1)"
      by simp
    then obtain ps where h1: "h1 = h @ [Obj ps]"
      by (cases rule: new_Item_cases) simp_all
    have keep: "all_constructed c h0 h1 b" if "all_constructed c h0 h b" for b
      using that h1 by (simp add: all_constructed_append)
    have "new_arrays_constructed c h0 h1"
      unfolding new_arrays_constructed_def
    proof (intro conjI allI impI)
      show "length h0 \<le> length h1"
        using l h1 by simp
    next
      fix b
      assume b: "length h0 \<le> b" "isArray h1 (Ref b)"
      then have "b < length h"
        using h1 by (auto simp: isArray_def nth_append less_Suc_eq split: if_splits)
      with b h1 have "isArray h (Ref b)"
        by simp
      with inv b have "all_constructed c h0 h b"
        by (simp add: new_arrays_constructed_def)
      then show "all_constructed c h0 h1 b"
        by (rule keep)
    qed
    with keep new_Item_constructed [OF n e0] scalar show ?thesis
      by simp
  next
    case (array c' r1)
    then have r1: "r1 = Inr ()" and c': "c' = c"
      by (cases r1; simp)+
    from array(2) have arr: "isArray h (Ref (the_addr v))"
      using isArray_Ref by fastforce
    note A = construct_elems_all [OF arr e0 array(3) [unfolded r1 c']]
    have "new_arrays_constructed c h0 h1"
      unfolding new_arrays_constructed_def
    proof (intro conjI allI impI)
      show "length h0 \<le> length h1"
        using l extends_length [OF ext] by simp
    next
      fix b
      assume b: "length h0 \<le> b" "isArray h1 (Ref b)"
      with A have bl: "b < length h"
        by (meson not_le)
      from extends_isArray [OF ext bl] b have "isArray h (Ref b)"
        by simp
      with inv b have "all_constructed c h0 h b"
        by (simp add: new_arrays_constructed_def)
      with A show "all_constructed c h0 h1 b"
        by blast
    qed
    with A array r1 show ?thesis
      by simp
  qed
qed

lemma new_arrays_update:
  assumes n: "new_arrays_constructed c h0 h"
    and a: "all_constructed c h0 h a"
    and vs: "\<forall>v\<in>set vs. constructed c h0 h v"
  shows "new_arrays_constructed c h0 (h[a := Arr (elems h a @ vs)])
       \<and> (\<forall>b. all_constructed c h0 h b \<longrightarrow> all_constructed c h0 (h[a := Arr (elems h a @ vs)]) b)"
proof -
  let ?h' = "h[a := Arr (elems h a @ vs)]"
  from a have arr: "isArray h (Ref a)"
    by (simp add: all_constructed_def)
  have keep: "all_constructed c h0 ?h' b" if b: "all_constructed c h0 h b" for b
  proof (cases "b = a")
    case True
    with all_constructed_push [OF a vs] show ?thesis by simp
  next
    case False
    from all_constructed_update_other [OF b False arr] show ?thesis by simp
  qed
  have "new_arrays_constructed c h0 ?h'"
    unfolding new_arrays_constructed_def
  proof (intro conjI allI impI)
    show "length h0 \<le> length ?h'"
      using n by (simp add: new_arrays_constructed_def)
  next
    fix b
    assume b: "length h0 \<le> b" "isArray ?h' (Ref b)"
    show "all_constructed c h0 ?h' b"
    proof (cases "b = a")
      case True
      with keep a show ?thesis by simp
    next
      case False
      with b have "isArray h (Ref b)"
        by simp
      with n b have "all_constructed c h0 h b"
        by (simp add: new_arrays_constructed_def)
      then show ?thesis by (rule keep)
    qed
  qed
  with keep show ?thesis by blast
qed

lemma mergeItem_ctor_inv:
  assumes inv: "ctor_inv c h0 h m" and e0: "extends h0 h"
    and m: "mergeItem (Some c) it m h = (Inr m', h')"
  shows "ctor_inv c h0 h' m'"
  using m
proof (cases rule: mergeItem_cases)
  case (throws e)
  then show ?thesis by simp
next
  case (new_scalar v h1)
  from inv have n: "new_arrays_constructed c h0 h"
    by (simp add: ctor_inv_def)
  note V = construct_value_ctor [OF n e0 new_scalar(1)]
  from V new_scalar(3) have v: "constructed c h0 h1 v" and n1: "new_arrays_constructed c h0 h1"
    by simp_all
  have here: "all_constructed c h0 h' (length h1)"
    unfolding new_scalar(5) all_constructed_def
    using v by (auto simp: isArray_def elems_def intro: constructed_extends)
  have keep: "all_constructed c h0 h' b" if "all_constructed c h0 h b" for b
    using that V new_scalar(5) by (simp add: all_constructed_append)
  have "new_arrays_constructed c h0 h'"
    unfolding new_arrays_constructed_def
  proof (intro conjI allI impI)
    show "length h0 \<le> length h'"
      using n1 new_scalar(5) by (simp add: new_arrays_constructed_def)
  next
    fix b
    assume b: "length h0 \<le> b" "isArray h' (Ref b)"
    show "all_constructed c h0 h' b"
    proof (cases "b = length h1")
      case True
      with here show ?thesis by simp
    next
      case False
      with b new_scalar(5) have bl: "b < length h1"
        by (auto simp: isArray_def)
      with b new_scalar(5) have "isArray h1 (Ref b)"
        by simp
      with n1 b have "all_constructed c h0 h1 b"
        by (simp add: new_arrays_constructed_def)
      then show ?thesis
        unfolding new_scalar(5) by (rule all_constructed_append)
    qed
  qed
  with here keep inv new_scalar(2,4) show ?thesis
    by (auto simp: ctor_inv_def map_set_absent)
next
  case (new_array v)
  from inv have n: "new_arrays_constructed c h0 h"
    by (simp add: ctor_inv_def)
  note V = construct_value_ctor [OF n e0 new_array(1)]
  with inv new_array(2,3,4) show ?thesis
    by (auto simp: ctor_inv_def map_set_absent)
next
  case (push_scalar v h1 a)
  from inv have n: "new_arrays_constructed c h0 h"
    by (simp add: ctor_inv_def)
  note V = construct_value_ctor [OF n e0 push_scalar(1)]
  from map_get_mem [OF push_scalar(2)] inv have "all_constructed c h0 h a"
    by (fastforce simp: ctor_inv_def)
  with V have a1: "all_constructed c h0 h1 a"
    by blast
  from V push_scalar(3) have "\<forall>x\<in>set [v]. constructed c h0 h1 x"
    by simp
  from new_arrays_update [OF _ a1 this] V inv push_scalar(4,5) show ?thesis
    by (auto simp: ctor_inv_def)
next
  case (push_array v h1 a)
  from inv have n: "new_arrays_constructed c h0 h"
    by (simp add: ctor_inv_def)
  note V = construct_value_ctor [OF n e0 push_array(1)]
  from map_get_mem [OF push_array(2)] inv have "all_constructed c h0 h a"
    by (fastforce simp: ctor_inv_def)
  with V have a1: "all_constructed c h0 h1 a"
    by blast
  from V push_array(3) have "\<forall>x\<in>set (elems h1 (the_addr v)). constructed c h0 h1 x"
    by (simp add: all_constructed_def)
  from new_arrays_update [OF _ a1 this] V inv push_array(4,5) show ?thesis
    by (auto simp: ctor_inv_def)
qed

lemma mergeItems_ctor_inv:
  assumes "ctor_inv c h0 h m" and "extends h0 h"
    and "mergeItems (Some c) rest m h = (Inr m', h')"
  shows "ctor_inv c h0 h' m'"
  using assms
proof (induction rest arbitrary: m h)
  case Nil
  then show ?case by simp
next
  case (Cons it rest)
  obtain r1 h1 where s: "mergeItem (Some c) it m h = (r1, h1)"
    by (cases "mergeItem (Some c) it m h")
  with Cons.prems(3) obtain m1 where r1: "r1 = Inr m1"
    by (cases r1) simp_all
  from mergeItem_ctor_inv [OF Cons.prems(1,2) s [unfolded r1]] have 1: "ctor_inv c h0 h1 m1" .
  from Cons.prems(1) have "\<forall>p\<in>set m. isArray h (Ref (snd p))"
    by (simp add: ctor_inv_def all_constructed_def)
  from grows_extends [OF mergeItem_grows [OF this s]] Cons.prems(2) have 2: "extends h0 h1"
    by (blast intro: extends_trans)
  from Cons.prems(3) s r1 have "mergeItems (Some c) rest m1 h1 = (Inr m', h')"
    by simp
  with 1 2 show ?case
    by (rule Cons.IH)
qed

lemma ctor_inv_start: "ctor_inv c h0 h0 []"
  by (auto simp: ctor_inv_def new_arrays_constructed_def dest: isArray_less)

text \<open>\<^verbatim>\<open>JSON.parse\<close> only adds cells.\<close>

lemma build_appends:
  "\<exists>cs. snd (build j h) = h @ cs"
  "\<exists>cs. snd (build_elems js h) = h @ cs"
  "\<exists>cs. snd (build_props ps h) = h @ cs"
proof (induction j h and js h and ps h rule: build_build_elems_build_props.induct)
  case (5 js h)
  then show ?case by (auto split: prod.splits)
next
  case (6 ps h)
  then show ?case by (auto split: prod.splits)
next
  case (8 j js h)
  obtain v h1 where b: "build j h = (v, h1)"
    by (cases "build j h")
  obtain vs h2 where bs: "build_elems js h1 = (vs, h2)"
    by (cases "build_elems js h1")
  from 8(1) b obtain cs where "h1 = h @ cs"
    by auto
  moreover from 8(2) [OF b [symmetric]] bs obtain ds where "h2 = h1 @ ds"
    by auto
  ultimately show ?case
    using b bs by simp
next
  case (10 p ps h)
  obtain v h1 where b: "build (snd p) h = (v, h1)"
    by (cases "build (snd p) h")
  obtain vs h2 where bs: "build_props ps h1 = (vs, h2)"
    by (cases "build_props ps h1")
  from 10(1) b obtain cs where "h1 = h @ cs"
    by auto
  moreover from 10(2) [OF b [symmetric]] bs obtain ds where "h2 = h1 @ ds"
    by auto
  ultimately show ?case
    using b bs by simp
qed simp_all

lemma build_pairs_arrays:
  assumes "build_pairs snapshot h = (pairs, h')"
  shows "(\<exists>cs. h' = h @ cs) \<and> (\<forall>p\<in>set pairs. isArray h' (Ref (snd p)))"
  using assms
proof (induction snapshot arbitrary: h pairs h')
  case Nil
  then show ?case by simp
next
  case (Cons p ps)
  obtain k h1 where b1: "build (fst p) h = (k, h1)"
    by (cases "build (fst p) h")
  obtain vs h2 where b2: "build_elems (snd p) h1 = (vs, h2)"
    by (cases "build_elems (snd p) h1")
  obtain rest h3 where b3: "build_pairs ps (h2 @ [Arr vs]) = (rest, h3)"
    by (cases "build_pairs ps (h2 @ [Arr vs])")
  from Cons.prems b1 b2 b3 have pairs: "pairs = (k, length h2) # rest" and h': "h' = h3"
    by (simp_all add: the_addr_def)
  from build_appends(1) [of "fst p" h] b1 obtain cs where c1: "h1 = h @ cs"
    by auto
  from build_appends(2) [of "snd p" h1] b2 obtain ds where c2: "h2 = h1 @ ds"
    by auto
  from Cons.IH [OF b3] obtain es where c3: "h3 = (h2 @ [Arr vs]) @ es"
    and arr: "\<forall>q\<in>set rest. isArray h3 (Ref (snd q))"
    by blast
  have "isArray h3 (Ref (length h2))"
    using c3 by (simp add: isArray_def nth_append)
  with arr c1 c2 c3 pairs h' show ?case
    by simp
qed

lemma construct_pairs_all:
  assumes "\<forall>p\<in>set ps. isArray h (Ref (snd p))" and "extends h0 h"
    and "construct_pairs c ps h = (Inr (), h')"
  shows "(\<forall>p\<in>set ps. all_constructed c h0 h' (snd p))
       \<and> (\<forall>b. all_constructed c h0 h b \<longrightarrow> all_constructed c h0 h' b)
       \<and> extends h h'"
  using assms
proof (induction ps arbitrary: h)
  case Nil
  then show ?case by simp
next
  case (Cons p ps)
  obtain r1 h1 where ce: "construct_elems c (snd p) [0..<length (elems h (snd p))] h = (r1, h1)"
    by (cases "construct_elems c (snd p) [0..<length (elems h (snd p))] h")
  with Cons.prems(3) have r1: "r1 = Inr ()"
    by (cases r1) simp_all
  from Cons.prems(1) have arr: "isArray h (Ref (snd p))"
    by simp
  note A = construct_elems_all [OF arr Cons.prems(2) ce [unfolded r1]]
  from arr ce have e1: "extends h h1"
    by (rule construct_elems_extends)
  have arrs: "\<forall>q\<in>set ps. isArray h1 (Ref (snd q))"
    using Cons.prems(1) e1 by (auto intro: extends_isArray_val)
  have l1: "extends h0 h1"
    using Cons.prems(2) e1 by (rule extends_trans)
  from Cons.prems(3) ce r1 have "construct_pairs c ps h1 = (Inr (), h')"
    by simp
  note IH = Cons.IH [OF arrs l1 this]
  from IH e1 have "extends h h'"
    by (blast intro: extends_trans)
  with A IH show ?case
    by auto
qed

lemma map_set_subset: "set (map_set m k a) \<subseteq> insert (k, a) (set m)"
  by (induction m) auto

lemma foldl_map_set_subset:
  "set (foldl (\<lambda>m p. map_set m (fst p) (snd p)) m ps) \<subseteq> set m \<union> set ps"
proof (induction ps arbitrary: m)
  case Nil
  then show ?case by simp
next
  case (Cons p ps)
  from Cons.IH [of "map_set m (fst p) (snd p)"] map_set_subset [of m "fst p" "snd p"]
  show ?case by auto
qed

lemma new_Map_subset: "set (new_Map ps) \<subseteq> set ps"
  using foldl_map_set_subset [of "[]" ps] by (simp add: new_Map_def)

lemma emit_fields [simp]:
  "data (emit n s) = data s" "hp (emit n s) = hp s" "emitted (emit n s) = emitted s @ [n]"
  "lastUpdate (emit n s) = lastUpdate s"
  by (simp_all add: emit_def)

lemma file_catch_fields [simp]:
  "data (file_catch e s) = data s" "hp (file_catch e s) = hp s"
  "emitted (file_catch e s) = (if e = ENOENT then emitted s else emitted s @ [Error e])"
  by (simp_all add: file_catch_def)

lemma publish_emitted [simp]: "emitted (publish now s) = emitted s @ [Update]"
  by (simp add: publish_def)

text \<open>A snapshot load that has emitted \<^verbatim>\<open>'update'\<close> has gone through \<^verbatim>\<open>setData\<close> to the end.\<close>

lemma loadCacheFromFile_swapped:
  assumes "loadCacheFromFile cfg now (Parsed snapshot) s = s'"
    and "emitted s' = emitted s @ [Update]"
    and "build_pairs snapshot (hp s) = (mapData, h1)"
  shows "setData cfg now (PairData mapData) (s\<lparr>hp := h1\<rparr>) = (Inr (), s')"
proof -
  obtain r s1 where sd: "setData cfg now (PairData mapData) (s\<lparr>hp := h1\<rparr>) = (r, s1)"
    by (cases "setData cfg now (PairData mapData) (s\<lparr>hp := h1\<rparr>)")
  show ?thesis
  proof (cases r)
    case (Inl e)
    with sd have "emitted s1 = emitted s"
      by (auto simp: setData_def split: option.splits prod.splits sum.splits)
    with assms sd Inl show ?thesis
      by (auto simp: loadCacheFromFile_def split: if_splits)
  next
    case (Inr u)
    with assms sd show ?thesis
      by (simp add: loadCacheFromFile_def)
  qed
qed

lemma setData_pairs_constructed:
  assumes "itemClass cfg = Some c"
    and "setData cfg now (PairData ps) s = (Inr (), s')"
  obtains h1 where "construct_pairs c ps (hp s) = (Inr (), h1)"
    "s' = publish now (s\<lparr>hp := h1, data := new_Map ps\<rparr>)"
  using assms by (auto simp: setData_def split: prod.splits sum.splits)

section \<open>The merge rule\<close>

lemma stored_as_extends:
  assumes "stored_as Item h0 h r x" and "extends h h'"
  shows "stored_as Item h0 h' r x"
proof (cases Item)
  case None
  with assms show ?thesis by (simp add: stored_as_def)
next
  case (Some c)
  with assms(1) obtain ps h1 where
    r: "r = Ref (length h1)" "extends h0 h1" "length h1 < length h"
      "h ! length h1 = Obj ps" "c h1 x = Inr ps" and e: "extends h1 h"
    by (auto simp: stored_as_def)
  from extends_obj [OF assms(2) r(3,4)] extends_length [OF assms(2)] r Some
    extends_trans [OF e assms(2)]
  show ?thesis
    unfolding stored_as_def by (auto intro!: exI [of _ ps] exI [of _ h1])
qed

lemma list_all2_stored_extends:
  "list_all2 (stored_as Item h0 h) rs xs \<Longrightarrow> extends h h' \<Longrightarrow>
   list_all2 (stored_as Item h0 h') rs xs"
  by (erule list_all2_mono) (rule stored_as_extends)

lemma new_Item_stored:
  assumes "new_Item c v h = (Inr r, h')" and "extends h0 h"
  shows "stored_as (Some c) h0 h' r v"
  using assms(1)
proof (cases rule: new_Item_cases)
  case (1 e)
  then show ?thesis by simp
next
  case (2 ps)
  with assms(2) show ?thesis
    unfolding stored_as_def by (auto intro!: exI [of _ ps] exI [of _ h])
qed

lemma construct_elems_trace:
  assumes "isArray h (Ref a)" and "extends h0 h"
    and "construct_elems c a js h = (Inr (), h')"
    and "\<forall>j\<in>set js. j < length (elems h a)" and "distinct js"
    and "i < length (elems h a)"
  shows "if i \<in> set js then stored_as (Some c) h0 h' (elems h' a ! i) (elems h a ! i)
         else elems h' a ! i = elems h a ! i"
  using assms
proof (induction js arbitrary: h)
  case Nil
  then show ?case by simp
next
  case (Cons j js)
  from Cons.prems(1) have al: "a < length h"
    by (rule isArray_less)
  obtain r1 h1 where n: "new_Item c (elems h a ! j) h = (r1, h1)"
    by (cases "new_Item c (elems h a ! j) h")
  with Cons.prems(3) obtain r where r1: "r1 = Inr r"
    by (cases r1) simp_all
  from n [unfolded r1] obtain ps where h1: "h1 = h @ [Obj ps]"
    by (cases rule: new_Item_cases) simp_all
  let ?h2 = "h1[a := Arr ((elems h1 a)[j := r])]"
  have a2: "isArray ?h2 (Ref a)"
    using al h1 by simp
  have e12: "extends h1 ?h2"
    using al h1 Cons.prems(1) by (intro extends_update) simp_all
  have "extends h h1"
    using h1 by simp
  from extends_trans [OF extends_trans [OF Cons.prems(2) this] e12]
  have l2: "extends h0 ?h2" .
  have el2: "elems ?h2 a = (elems h a)[j := r]"
    using al h1 by simp
  have c2: "construct_elems c a js ?h2 = (Inr (), h')"
    using Cons.prems(3) n r1 by simp
  have js2: "\<forall>j\<in>set js. j < length (elems ?h2 a)"
    using Cons.prems(4) el2 by simp
  have d2: "distinct js" and jn: "j \<notin> set js"
    using Cons.prems(5) by simp_all
  have i2: "i < length (elems ?h2 a)"
    using Cons.prems(6) el2 by simp
  note IH = Cons.IH [OF a2 l2 c2 js2 d2 i2]
  have g2: "extends ?h2 h'"
    using a2 c2 by (rule construct_elems_extends)
  show ?case
  proof (cases "i = j")
    case True
    with jn IH [unfolded el2] Cons.prems(6) have here: "elems h' a ! i = r"
      by simp
    from new_Item_stored [OF n [unfolded r1] Cons.prems(2)]
    have "stored_as (Some c) h0 h1 r (elems h a ! j)" .
    then have "stored_as (Some c) h0 h' r (elems h a ! j)"
      using e12 g2 by (blast intro: stored_as_extends)
    with True here show ?thesis by simp
  next
    case False
    then have "(elems h a)[j := r] ! i = elems h a ! i"
      by simp
    with False IH [unfolded el2] show ?thesis by (simp split: if_splits)
  qed
qed

text \<open>What \<open>construct_value\<close> does to the heap and to the value it is given.\<close>

lemma construct_value_trace:
  assumes e0: "extends h0 h" and cv: "construct_value Item v h = (Inr v', h1)"
  shows "extends h h1
       \<and> (\<forall>b<length h. (isArray h v \<longrightarrow> b \<noteq> the_addr v) \<longrightarrow> h1 ! b = h ! b)
       \<and> (\<forall>b. length h \<le> b \<longrightarrow> \<not> isArray h1 (Ref b))
       \<and> (if isArray h v
           then v' = v \<and> list_all2 (stored_as Item h0 h1) (elems h1 (the_addr v))
                                    (elems h (the_addr v))
           else stored_as Item h0 h1 v' v)"
proof -
  from e0 have l: "length h0 \<le> length h"
    by (rule extends_length)
  from cv have ext: "extends h h1"
    by (blast dest: construct_value_grows grows_extends)
  from cv show ?thesis
  proof (cases rule: construct_value_cases)
    case plain
    then show ?thesis
      by (auto simp: stored_as_def list_all2_same dest: isArray_less)
  next
    case (scalar c)
    then have n: "new_Item c v h = (Inr v', h1)"
      by simp
    then obtain ps where h1: "h1 = h @ [Obj ps]"
      by (cases rule: new_Item_cases) simp_all
    have "\<not> isArray h1 (Ref b)" if "length h \<le> b" for b
      using that h1 by (auto simp: isArray_def nth_append)
    with ext scalar new_Item_stored [OF n e0] h1 show ?thesis
      by (simp add: nth_append)
  next
    case (array c r1)
    then have r1: "r1 = Inr ()"
      by (cases r1) simp_all
    let ?a = "the_addr v"
    from array(2) have arr: "isArray h (Ref ?a)"
      using isArray_Ref by fastforce
    have js: "\<forall>j\<in>set [0..<length (elems h ?a)]. j < length (elems h ?a)"
      by simp
    note R = construct_elems_result [OF arr e0 array(3) [unfolded r1] js]
    have "list_all2 (stored_as Item h0 h1) (elems h1 ?a) (elems h ?a)"
    proof (rule list_all2_all_nthI)
      show "length (elems h1 ?a) = length (elems h ?a)"
        using R by simp
    next
      fix i
      assume "i < length (elems h1 ?a)"
      with R have i: "i < length (elems h ?a)"
        by simp
      from construct_elems_trace [OF arr e0 array(3) [unfolded r1] js _ i] i array(1)
      show "stored_as Item h0 h1 (elems h1 ?a ! i) (elems h ?a ! i)"
        by simp
    qed
    with R ext array r1 show ?thesis
      by simp
  qed
qed

lemma map_get_append:
  "map_get (m @ [(k, a)]) k' =
     (case map_get m k' of None \<Rightarrow> (if k' = k then Some a else None) | Some x \<Rightarrow> Some x)"
  by (simp add: map_get_def map_add_def split: option.splits)

lemma contributions_snoc:
  "contributions h0 (done @ [it]) k =
     contributions h0 done k @ (if fst it = k then contribution h0 (snd it) else [])"
  by (simp add: contributions_def)

lemma contributions_absent:
  "k \<notin> fst ` set done \<Longrightarrow> contributions h0 done k = []"
  by (induction "done") (auto simp: contributions_def)

lemma array_addrs_snoc:
  "array_addrs h0 (done @ [it]) =
     array_addrs h0 done @ (if isArray h0 (snd it) then [the_addr (snd it)] else [])"
  by (simp add: array_addrs_def)

lemma trace_inv_start: "trace_inv Item h0 [] h0 []"
  by (simp add: trace_inv_def map_get_def)

text \<open>
  One turn of the loop, seen from the invariant: the values \<open>vs\<close> that stand for the pair's
  contribution are put at the end of the list \<open>t\<close> of the key, a new list if the key had
  none, and the other lists stay as they are.
\<close>

lemma trace_inv_step:
  assumes inv: "trace_inv Item h0 done h m"
    and ext: "extends h h'"
    and t_arr: "isArray h' (Ref t)"
    and key: "case map_get m (fst it) of
                None \<Rightarrow> m' = m @ [(fst it, t)] \<and> old = [] \<and>
                        (\<forall>k' b. map_get m k' = Some b \<longrightarrow> b \<noteq> t) \<and>
                        (t < length h0 \<longrightarrow> t \<in> set (array_addrs h0 (done @ [it])))
              | Some b \<Rightarrow> m' = m \<and> t = b \<and> old = elems h b"
    and t_elems: "elems h' t = old @ vs"
    and vs: "list_all2 (stored_as Item h0 h') vs (contribution h0 (snd it))"
    and frame: "\<forall>k' b. map_get m k' = Some b \<and> b \<noteq> t \<longrightarrow> elems h' b = elems h b"
    and old_cells: "\<forall>a<length h0. a \<notin> set (array_addrs h0 (done @ [it])) \<longrightarrow> h' ! a = h ! a"
  shows "trace_inv Item h0 (done @ [it]) h' m'"
proof -
  let ?k = "fst it"
  from inv have
    I1: "extends h0 h"
    and I2: "\<And>k. (map_get m k = None) = (k \<notin> fst ` set done)"
    and I3: "\<And>k a. map_get m k = Some a \<Longrightarrow>
               isArray h (Ref a) \<and>
               list_all2 (stored_as Item h0 h) (elems h a) (contributions h0 done k)"
    and I4: "\<And>k k' a. map_get m k = Some a \<Longrightarrow> map_get m k' = Some a \<Longrightarrow> k = k'"
    and I5: "\<And>k a. map_get m k = Some a \<Longrightarrow> a < length h0 \<Longrightarrow> a \<in> set (array_addrs h0 done)"
    and I6: "\<And>a. a < length h0 \<Longrightarrow> a \<notin> set (array_addrs h0 done) \<Longrightarrow> h ! a = h0 ! a"
    unfolding trace_inv_def by blast+
  have get': "map_get m' k = (if k = ?k then Some t else map_get m k)" for k
  proof (cases "map_get m ?k")
    case None
    with key have "m' = m @ [(?k, t)]"
      by simp
    with None show ?thesis
      by (simp add: map_get_append split: option.splits)
  next
    case (Some b)
    with key show ?thesis by simp
  qed
  have other: "b \<noteq> t" if "map_get m k = Some b" "k \<noteq> ?k" for k b
  proof (cases "map_get m ?k")
    case None
    with key that show ?thesis by simp
  next
    case (Some b')
    with key have "map_get m ?k = Some t"
      by simp
    with I4 [OF that(1)] that(2) show ?thesis
      by blast
  qed
  have old: "list_all2 (stored_as Item h0 h') old (contributions h0 done ?k)"
  proof (cases "map_get m ?k")
    case None
    with I2 [of ?k] have "?k \<notin> fst ` set done"
      by simp
    with key None show ?thesis
      by (simp add: contributions_absent)
  next
    case (Some b)
    with key I3 [OF Some] show ?thesis
      by (auto intro: list_all2_stored_extends [OF _ ext])
  qed
  show ?thesis
    unfolding trace_inv_def
  proof (intro conjI allI impI)
    show "extends h0 h'"
      using I1 ext by (rule extends_trans)
  next
    fix k
    show "(map_get m' k = None) = (k \<notin> fst ` set (done @ [it]))"
      using I2 [of k] by (simp add: get')
  next
    fix k a
    assume g: "map_get m' k = Some a"
    show "isArray h' (Ref a)"
    proof (cases "k = ?k")
      case True
      with g t_arr show ?thesis by (simp add: get')
    next
      case False
      with g have "map_get m k = Some a"
        by (simp add: get')
      with I3 ext show ?thesis
        by (blast intro: extends_isArray_val)
    qed
    show "list_all2 (stored_as Item h0 h') (elems h' a) (contributions h0 (done @ [it]) k)"
    proof (cases "k = ?k")
      case True
      with g have "a = t"
        by (simp add: get')
      with True t_elems old vs show ?thesis
        by (simp add: contributions_snoc list_all2_appendI)
    next
      case False
      with g have ga: "map_get m k = Some a"
        by (simp add: get')
      from other [OF ga False] frame ga have "elems h' a = elems h a"
        by blast
      with I3 [OF ga] False show ?thesis
        by (auto simp: contributions_snoc intro: list_all2_stored_extends [OF _ ext])
    qed
  next
    fix k k' a
    assume g: "map_get m' k = Some a \<and> map_get m' k' = Some a"
    show "k = k'"
    proof (cases "k = ?k"; cases "k' = ?k")
      assume "k = ?k" "k' \<noteq> ?k"
      with g other [of k' a] show ?thesis
        by (auto simp: get')
    next
      assume "k \<noteq> ?k" "k' = ?k"
      with g other [of k a] show ?thesis
        by (auto simp: get')
    next
      assume "k \<noteq> ?k" "k' \<noteq> ?k"
      with g I4 [of k a k'] show ?thesis
        by (simp add: get')
    qed simp
  next
    fix k a
    assume g: "map_get m' k = Some a \<and> a < length h0"
    show "a \<in> set (array_addrs h0 (done @ [it]))"
    proof (cases "map_get m k")
      case None
      with g have k: "k = ?k" "a = t"
        by (auto simp: get' split: if_splits)
      with None key g show ?thesis
        by simp
    next
      case (Some b)
      have "a = b"
      proof (cases "k = ?k")
        case True
        with Some key g show ?thesis
          by (simp add: get')
      next
        case False
        with Some g show ?thesis
          by (simp add: get')
      qed
      with I5 [OF Some] g show ?thesis
        by (simp add: array_addrs_snoc)
    qed
  next
    fix a
    assume a: "a < length h0" "a \<notin> set (array_addrs h0 (done @ [it]))"
    then have "a \<notin> set (array_addrs h0 done)"
      by (simp add: array_addrs_snoc)
    with I6 a old_cells show "h' ! a = h0 ! a"
      by simp
  qed
qed

lemma elems_cong: "a < length h \<Longrightarrow> a < length h' \<Longrightarrow> h' ! a = h ! a \<Longrightarrow> elems h' a = elems h a"
  by (simp add: elems_def)

lemma elems_frame:
  "b < length h \<Longrightarrow> length h \<le> length h' \<Longrightarrow> h' ! b = h ! b \<Longrightarrow> elems h' b = elems h b"
  by (simp add: elems_def)

text \<open>
  The heap after \<open>construct_value\<close>, when the pair's array (if its value is one) is not
  the value of an earlier pair: the lists of \<^verbatim>\<open>cacheMap\<close> have not changed, and the values
  to store stand for the pair's contribution.
\<close>

lemma construct_value_mid:
  assumes inv: "trace_inv Item h0 done h m"
    and wf: "\<forall>a. snd it = Ref a \<longrightarrow> a < length h0"
    and fresh: "isArray h0 (snd it) \<longrightarrow> the_addr (snd it) \<notin> set (array_addrs h0 done)"
    and cv: "construct_value Item (snd it) h = (Inr v, h1)"
  shows "extends h h1"
    and "isArray h (snd it) = isArray h0 (snd it)"
    and "\<forall>k b. map_get m k = Some b \<longrightarrow> b < length h \<and> h1 ! b = h ! b"
    and "list_all2 (stored_as Item h0 h1)
           (if isArray h (snd it) then elems h1 (the_addr (snd it)) else [v])
           (contribution h0 (snd it))"
    and "\<forall>a<length h0. a \<notin> set (array_addrs h0 (done @ [it])) \<longrightarrow> h1 ! a = h ! a"
    and "isArray h (snd it) \<longrightarrow>
           v = snd it \<and> the_addr (snd it) < length h0 \<and>
           (\<forall>k b. map_get m k = Some b \<longrightarrow> b \<noteq> the_addr (snd it))"
proof -
  from inv have
    I1: "extends h0 h"
    and I3: "\<And>k a. map_get m k = Some a \<Longrightarrow> isArray h (Ref a)"
    and I5: "\<And>k a. map_get m k = Some a \<Longrightarrow> a < length h0 \<Longrightarrow> a \<in> set (array_addrs h0 done)"
    and I6: "\<And>a. a < length h0 \<Longrightarrow> a \<notin> set (array_addrs h0 done) \<Longrightarrow> h ! a = h0 ! a"
    unfolding trace_inv_def by blast+
  from I1 have L: "length h0 \<le> length h"
    by (rule extends_length)
  note T = construct_value_trace [OF I1 cv]
  show ext: "extends h h1"
    using T by simp
  show AR: "isArray h (snd it) = isArray h0 (snd it)"
  proof (cases "snd it")
    case (Ref a)
    with wf have "a < length h0"
      by simp
    from extends_isArray [OF I1 this] Ref show ?thesis
      by simp
  qed (simp_all add: isArray_def)
  have addr: "the_addr (snd it) < length h0" if "isArray h (snd it)"
  proof -
    from that have "snd it = Ref (the_addr (snd it))"
      by (rule isArray_Ref)
    with wf show ?thesis
      by blast
  qed
  have apart: "b \<noteq> the_addr (snd it)" if "isArray h (snd it)" "map_get m k = Some b" for k b
  proof
    assume "b = the_addr (snd it)"
    with I5 [OF that(2)] addr [OF that(1)] have "the_addr (snd it) \<in> set (array_addrs h0 done)"
      by simp
    with fresh AR that(1) show False
      by simp
  qed
  show "\<forall>k b. map_get m k = Some b \<longrightarrow> b < length h \<and> h1 ! b = h ! b"
  proof (intro allI impI)
    fix k b
    assume g: "map_get m k = Some b"
    from I3 [OF g] have bl: "b < length h"
      by (rule isArray_less)
    with T apart [OF _ g] show "b < length h \<and> h1 ! b = h ! b"
      by blast
  qed
  show "list_all2 (stored_as Item h0 h1)
           (if isArray h (snd it) then elems h1 (the_addr (snd it)) else [v])
           (contribution h0 (snd it))"
  proof (cases "isArray h (snd it)")
    case True
    let ?a = "the_addr (snd it)"
    from addr [OF True] fresh AR True have "h ! ?a = h0 ! ?a"
      by (intro I6) simp_all
    with addr [OF True] L have "elems h ?a = elems h0 ?a"
      by (intro elems_cong) simp_all
    with T True AR show ?thesis
      by (simp add: contribution_def)
  next
    case False
    with T AR show ?thesis
      by (simp add: contribution_def)
  qed
  show "\<forall>a<length h0. a \<notin> set (array_addrs h0 (done @ [it])) \<longrightarrow> h1 ! a = h ! a"
  proof (intro allI impI)
    fix a
    assume a: "a < length h0" "a \<notin> set (array_addrs h0 (done @ [it]))"
    then have "isArray h (snd it) \<longrightarrow> a \<noteq> the_addr (snd it)"
      using AR by (auto simp: array_addrs_snoc)
    with T a L show "h1 ! a = h ! a"
      by simp
  qed
  show "isArray h (snd it) \<longrightarrow>
           v = snd it \<and> the_addr (snd it) < length h0 \<and>
           (\<forall>k b. map_get m k = Some b \<longrightarrow> b \<noteq> the_addr (snd it))"
    using T addr apart by auto
qed

lemma mergeItem_trace:
  assumes inv: "trace_inv Item h0 done h m"
    and wf: "\<forall>a. snd it = Ref a \<longrightarrow> a < length h0"
    and fresh: "isArray h0 (snd it) \<longrightarrow> the_addr (snd it) \<notin> set (array_addrs h0 done)"
    and m: "mergeItem Item it m h = (Inr m', h')"
  shows "trace_inv Item h0 (done @ [it]) h' m'"
proof -
  from inv have I1: "extends h0 h"
    unfolding trace_inv_def by simp
  from inv have I3: "\<And>k a. map_get m k = Some a \<Longrightarrow> isArray h (Ref a)"
    unfolding trace_inv_def by simp
  from inv have
    I5: "\<And>k a. map_get m k = Some a \<Longrightarrow> a < length h0 \<Longrightarrow> a \<in> set (array_addrs h0 done)"
    unfolding trace_inv_def by simp
  from I1 have L: "length h0 \<le> length h"
    by (rule extends_length)
  from m show ?thesis
  proof (cases rule: mergeItem_cases)
    case (throws e)
    then show ?thesis by simp
  next
    case (new_scalar v h1)
    note M = construct_value_mid [OF inv wf fresh new_scalar(1)]
    from M(1) have L1: "length h \<le> length h1"
      by (rule extends_length)
    show ?thesis
    proof (rule trace_inv_step [OF inv, where t = "length h1" and old = "[]" and vs = "[v]"])
      show "extends h h'"
        unfolding new_scalar(5) using M(1) extends_append by (rule extends_trans)
      show "isArray h' (Ref (length h1))"
        unfolding new_scalar(5) by (simp add: isArray_def)
      show "case map_get m (fst it) of
              None \<Rightarrow> m' = m @ [(fst it, length h1)] \<and> [] = [] \<and>
                      (\<forall>k' b. map_get m k' = Some b \<longrightarrow> b \<noteq> length h1) \<and>
                      (length h1 < length h0 \<longrightarrow> length h1 \<in> set (array_addrs h0 (done @ [it])))
            | Some b \<Rightarrow> m' = m \<and> length h1 = b \<and> [] = elems h b"
      proof -
        have "b \<noteq> length h1" if "map_get m k' = Some b" for k' b
          using M(3) that L1 by fastforce
        with new_scalar(2,4) L L1 show ?thesis
          by (simp add: map_set_absent)
      qed
      show "elems h' (length h1) = [] @ [v]"
        unfolding new_scalar(5) by (simp add: elems_def)
      show "list_all2 (stored_as Item h0 h') [v] (contribution h0 (snd it))"
      proof -
        from M(4) new_scalar(3)
        have "list_all2 (stored_as Item h0 h1) [v] (contribution h0 (snd it))"
          by simp
        then show ?thesis
          unfolding new_scalar(5) by (rule list_all2_stored_extends) simp
      qed
      show "\<forall>k' b. map_get m k' = Some b \<and> b \<noteq> length h1 \<longrightarrow> elems h' b = elems h b"
      proof (intro allI impI)
        fix k' b
        assume "map_get m k' = Some b \<and> b \<noteq> length h1"
        with M(3) have "b < length h" "h1 ! b = h ! b"
          by blast+
        with L1 show "elems h' b = elems h b"
          unfolding new_scalar(5) by (intro elems_frame) (simp_all add: nth_append)
      qed
      show "\<forall>a<length h0. a \<notin> set (array_addrs h0 (done @ [it])) \<longrightarrow> h' ! a = h ! a"
        using M(5) L L1 unfolding new_scalar(5) by (auto simp: nth_append)
    qed
  next
    case (new_array v)
    note M = construct_value_mid [OF inv wf fresh new_array(1)]
    let ?a = "the_addr (snd it)"
    from M(6) new_array(3) have v: "v = snd it" and al: "?a < length h0"
      and apart: "\<forall>k b. map_get m k = Some b \<longrightarrow> b \<noteq> ?a"
      by simp_all
    show ?thesis
    proof (rule trace_inv_step [OF inv, where t = ?a and old = "[]" and vs = "elems h' ?a"])
      show "extends h h'"
        by (rule M(1))
      show "isArray h' (Ref ?a)"
      proof -
        from new_array(3) isArray_Ref [OF new_array(3)] have "isArray h (Ref ?a)"
          by simp
        with M(1) show ?thesis
          by (rule extends_isArray_val)
      qed
      show "case map_get m (fst it) of
              None \<Rightarrow> m' = m @ [(fst it, ?a)] \<and> [] = [] \<and>
                      (\<forall>k' b. map_get m k' = Some b \<longrightarrow> b \<noteq> ?a) \<and>
                      (?a < length h0 \<longrightarrow> ?a \<in> set (array_addrs h0 (done @ [it])))
            | Some b \<Rightarrow> m' = m \<and> ?a = b \<and> [] = elems h b"
        using new_array(2,3,4) v apart M(2) by (auto simp: map_set_absent array_addrs_snoc)
      show "elems h' ?a = [] @ elems h' ?a"
        by simp
      show "list_all2 (stored_as Item h0 h') (elems h' ?a) (contribution h0 (snd it))"
        using M(4) new_array(3) by simp
      show "\<forall>k' b. map_get m k' = Some b \<and> b \<noteq> ?a \<longrightarrow> elems h' b = elems h b"
      proof (intro allI impI)
        fix k' b
        assume "map_get m k' = Some b \<and> b \<noteq> ?a"
        with M(3) have "b < length h" "h' ! b = h ! b"
          by blast+
        with extends_length [OF M(1)] show "elems h' b = elems h b"
          by (intro elems_frame)
      qed
      show "\<forall>a<length h0. a \<notin> set (array_addrs h0 (done @ [it])) \<longrightarrow> h' ! a = h ! a"
        by (rule M(5))
    qed
  next
    case (push_scalar v h1 b)
    note M = construct_value_mid [OF inv wf fresh push_scalar(1)]
    from M(1) have L1: "length h \<le> length h1"
      by (rule extends_length)
    from M(3) push_scalar(2) have bl: "b < length h" and same: "h1 ! b = h ! b"
      by blast+
    have arr1: "isArray h1 (Ref b)"
      using M(1) I3 [OF push_scalar(2)] by (rule extends_isArray_val)
    have e1: "elems h1 b = elems h b"
      using bl L1 same by (intro elems_cong) simp_all
    have ext': "extends h1 h'"
      unfolding push_scalar(5) using arr1 by (rule extends_update) simp
    show ?thesis
    proof (rule trace_inv_step [OF inv, where t = b and old = "elems h b" and vs = "[v]"])
      show "extends h h'"
        using M(1) ext' by (rule extends_trans)
      show "isArray h' (Ref b)"
        using ext' arr1 by (rule extends_isArray_val)
      show "case map_get m (fst it) of
              None \<Rightarrow> m' = m @ [(fst it, b)] \<and> elems h b = [] \<and>
                      (\<forall>k' b'. map_get m k' = Some b' \<longrightarrow> b' \<noteq> b) \<and>
                      (b < length h0 \<longrightarrow> b \<in> set (array_addrs h0 (done @ [it])))
            | Some b' \<Rightarrow> m' = m \<and> b = b' \<and> elems h b = elems h b'"
        using push_scalar(2,4) by simp
      show "elems h' b = elems h b @ [v]"
        unfolding push_scalar(5) using bl L1 e1 by simp
      show "list_all2 (stored_as Item h0 h') [v] (contribution h0 (snd it))"
      proof -
        from M(4) push_scalar(3)
        have "list_all2 (stored_as Item h0 h1) [v] (contribution h0 (snd it))"
          by simp
        then show ?thesis
          using ext' by (rule list_all2_stored_extends)
      qed
      show "\<forall>k' b'. map_get m k' = Some b' \<and> b' \<noteq> b \<longrightarrow> elems h' b' = elems h b'"
      proof (intro allI impI)
        fix k' b'
        assume g: "map_get m k' = Some b' \<and> b' \<noteq> b"
        with M(3) have "b' < length h" "h1 ! b' = h ! b'"
          by blast+
        with L1 g show "elems h' b' = elems h b'"
          unfolding push_scalar(5) by (intro elems_frame) simp_all
      qed
      show "\<forall>a<length h0. a \<notin> set (array_addrs h0 (done @ [it])) \<longrightarrow> h' ! a = h ! a"
      proof (intro allI impI)
        fix a
        assume a: "a < length h0" "a \<notin> set (array_addrs h0 (done @ [it]))"
        with I5 [OF push_scalar(2)] have "a \<noteq> b"
          by (auto simp: array_addrs_snoc)
        with M(5) a show "h' ! a = h ! a"
          unfolding push_scalar(5) by simp
      qed
    qed
  next
    case (push_array v h1 b)
    note M = construct_value_mid [OF inv wf fresh push_array(1)]
    let ?a = "the_addr (snd it)"
    from M(6) push_array(3) have v: "v = snd it"
      by simp
    from M(1) have L1: "length h \<le> length h1"
      by (rule extends_length)
    from M(3) push_array(2) have bl: "b < length h" and same: "h1 ! b = h ! b"
      by blast+
    have arr1: "isArray h1 (Ref b)"
      using M(1) I3 [OF push_array(2)] by (rule extends_isArray_val)
    have e1: "elems h1 b = elems h b"
      using bl L1 same by (intro elems_cong) simp_all
    have ext': "extends h1 h'"
      unfolding push_array(5) using arr1 by (rule extends_update) simp
    show ?thesis
    proof (rule trace_inv_step [OF inv, where t = b and old = "elems h b" and vs = "elems h1 ?a"])
      show "extends h h'"
        using M(1) ext' by (rule extends_trans)
      show "isArray h' (Ref b)"
        using ext' arr1 by (rule extends_isArray_val)
      show "case map_get m (fst it) of
              None \<Rightarrow> m' = m @ [(fst it, b)] \<and> elems h b = [] \<and>
                      (\<forall>k' b'. map_get m k' = Some b' \<longrightarrow> b' \<noteq> b) \<and>
                      (b < length h0 \<longrightarrow> b \<in> set (array_addrs h0 (done @ [it])))
            | Some b' \<Rightarrow> m' = m \<and> b = b' \<and> elems h b = elems h b'"
        using push_array(2,4) by simp
      show "elems h' b = elems h b @ elems h1 ?a"
        unfolding push_array(5) using bl L1 e1 v by simp
      show "list_all2 (stored_as Item h0 h') (elems h1 ?a) (contribution h0 (snd it))"
      proof -
        from M(4) push_array(3)
        have "list_all2 (stored_as Item h0 h1) (elems h1 ?a) (contribution h0 (snd it))"
          by simp
        then show ?thesis
          using ext' by (rule list_all2_stored_extends)
      qed
      show "\<forall>k' b'. map_get m k' = Some b' \<and> b' \<noteq> b \<longrightarrow> elems h' b' = elems h b'"
      proof (intro allI impI)
        fix k' b'
        assume g: "map_get m k' = Some b' \<and> b' \<noteq> b"
        with M(3) have "b' < length h" "h1 ! b' = h ! b'"
          by blast+
        with L1 g show "elems h' b' = elems h b'"
          unfolding push_array(5) by (intro elems_frame) simp_all
      qed
      show "\<forall>a<length h0. a \<notin> set (array_addrs h0 (done @ [it])) \<longrightarrow> h' ! a = h ! a"
      proof (intro allI impI)
        fix a
        assume a: "a < length h0" "a \<notin> set (array_addrs h0 (done @ [it]))"
        with I5 [OF push_array(2)] have "a \<noteq> b"
          by (auto simp: array_addrs_snoc)
        with M(5) a show "h' ! a = h ! a"
          unfolding push_array(5) by simp
      qed
    qed
  qed
qed

lemma array_addrs_append:
  "array_addrs h0 (xs @ ys) = array_addrs h0 xs @ array_addrs h0 ys"
  by (simp add: array_addrs_def)

lemma mergeItems_trace:
  assumes "trace_inv Item h0 done h m"
    and "\<forall>it\<in>set rest. \<forall>a. snd it = Ref a \<longrightarrow> a < length h0"
    and "distinct (array_addrs h0 (done @ rest))"
    and "mergeItems Item rest m h = (Inr m', h')"
  shows "trace_inv Item h0 (done @ rest) h' m'"
  using assms
proof (induction rest arbitrary: "done" m h)
  case Nil
  then show ?case by simp
next
  case (Cons it rest)
  obtain r1 h1 where s: "mergeItem Item it m h = (r1, h1)"
    by (cases "mergeItem Item it m h")
  with Cons.prems(4) obtain m1 where r1: "r1 = Inr m1"
    by (cases r1) simp_all
  have wf: "\<forall>a. snd it = Ref a \<longrightarrow> a < length h0"
    using Cons.prems(2) by simp
  have fresh: "isArray h0 (snd it) \<longrightarrow> the_addr (snd it) \<notin> set (array_addrs h0 done)"
    using Cons.prems(3) by (auto simp: array_addrs_def)
  from mergeItem_trace [OF Cons.prems(1) wf fresh s [unfolded r1]]
  have inv1: "trace_inv Item h0 (done @ [it]) h1 m1" .
  have d1: "distinct (array_addrs h0 ((done @ [it]) @ rest))"
    using Cons.prems(3) by simp
  have w1: "\<forall>it\<in>set rest. \<forall>a. snd it = Ref a \<longrightarrow> a < length h0"
    using Cons.prems(2) by simp
  from Cons.prems(4) s r1 have "mergeItems Item rest m1 h1 = (Inr m', h')"
    by simp
  from Cons.IH [OF inv1 w1 d1 this] show ?case
    by simp
qed

text \<open>
  C4, as the code has it. The loop takes the pairs of \<^verbatim>\<open>mapItems\<close> in order and appends: a
  value that is an array contributes its elements, any other value contributes itself.
  When no two pairs carry the same array object, the keys of the new index are the keys
  of the pairs, and the list of a key is, element by element and in order, what the
  pairs contribute to that key (each element as it is, or as the record class has
  constructed it).
\<close>

theorem merged_lists_are_concatenations:
  assumes "loadFromDatabase cfg now (Rows rows) s = (Inr (), s')"
    and "collectMapItems cfg rows (hp s) = (Inr mapItems, h1)"
    and "\<forall>it\<in>set mapItems. \<forall>a. snd it = Ref a \<longrightarrow> a < length h1"
    and "distinct (array_addrs h1 mapItems)"
  shows "(map_get (data s') k = None) = (k \<notin> fst ` set mapItems)
       \<and> (\<forall>a. map_get (data s') k = Some a \<longrightarrow>
              list_all2 (stored_as (itemClass cfg) h1 (hp s')) (elems (hp s') a)
                (contributions h1 mapItems k))"
proof (cases "rows = []")
  case True
  with assms(1,2) show ?thesis
    by (auto simp: loadFromDatabase_def queryDatabase_def setData_def collectMapItems_def
        map_get_def split: option.splits)
next
  case False
  from assms(1) False obtain items h1' m h2 where
    c: "collectMapItems cfg rows (hp s) = (Inr items, h1')"
    and m: "mergeItems (itemClass cfg) items [] h1' = (Inr m, h2)"
    and s': "s' = publish now (s\<lparr>hp := h2, data := m\<rparr>)"
    by (rule loadFromDatabase_success)
  from c assms(2) have eq: "items = mapItems" "h1' = h1"
    by simp_all
  from mergeItems_trace [OF trace_inv_start, of mapItems h1 "itemClass cfg" m h2]
    assms(3,4) m [unfolded eq]
  have "trace_inv (itemClass cfg) h1 mapItems h2 m"
    by simp
  with s' show ?thesis
    by (simp add: trace_inv_def)
qed

text \<open>
  C4, as stated, fails when two pairs carry the same array object: the array becomes the
  list of both keys, and what is appended for one key shows under the other. The rows
  have the keys 1, 2, 1 and every row is mapped to the shared array \<^verbatim>\<open>['x']\<close>: the list of
  key 2 ends as \<^verbatim>\<open>['x', 'x']\<close>, while the pairs contribute \<^verbatim>\<open>['x']\<close> to key 2.
\<close>

theorem shared_array_breaks_concatenation:
  "loadFromDatabase (demo_options\<lparr>opt_parseDataRow := Some shared_list_parseDataRow\<rparr>) 1
      (Rows [Ref 0, Ref 1, Ref 2]) (startCache (demo_rows @ [Arr [Str ''x'']]))
     = (Inr (), \<lparr>hp = demo_rows @ [Arr [Str ''x'', Str ''x'']],
                 data = [(Num 1, 3), (Num 2, 3)], lastUpdate = Some 1, emitted = [Update],
                 loadDataPromise = True\<rparr>)
   \<and> collectMapItems (demo_options\<lparr>opt_parseDataRow := Some shared_list_parseDataRow\<rparr>)
        [Ref 0, Ref 1, Ref 2] (demo_rows @ [Arr [Str ''x'']])
     = (Inr [(Num 1, Ref 3), (Num 2, Ref 3), (Num 1, Ref 3)], demo_rows @ [Arr [Str ''x'']])
   \<and> contributions (demo_rows @ [Arr [Str ''x'']])
        [(Num 1, Ref 3), (Num 2, Ref 3), (Num 1, Ref 3)] (Num 2) = [Str ''x'']
   \<and> elems (demo_rows @ [Arr [Str ''x'', Str ''x'']]) 3 = [Str ''x'', Str ''x'']"
  by code_simp

theorem merged_lists_are_concatenations_witness:
  "loadFromDatabase (demo_options\<lparr>opt_parseDataRow := Some tests_parseDataRow\<rparr>) 1
      (Rows [Ref 0, Ref 2]) (startCache demo_rows)
     = (Inr (), \<lparr>hp = demo_rows @
                   [Obj [(''t1'', Ref 0)], Obj [(''t2'', Ref 0)], Obj [(''t3'', Ref 0)],
                    Arr [Ref 3, Ref 4, Ref 5, Ref 7, Ref 8, Ref 9],
                    Obj [(''t1'', Ref 2)], Obj [(''t2'', Ref 2)], Obj [(''t3'', Ref 2)],
                    Arr [Ref 7, Ref 8, Ref 9]],
                 data = [(Num 1, 6)], lastUpdate = Some 1, emitted = [Update],
                 loadDataPromise = True\<rparr>)
   \<and> contributions
        (demo_rows @
           [Obj [(''t1'', Ref 0)], Obj [(''t2'', Ref 0)], Obj [(''t3'', Ref 0)],
            Arr [Ref 3, Ref 4, Ref 5],
            Obj [(''t1'', Ref 2)], Obj [(''t2'', Ref 2)], Obj [(''t3'', Ref 2)],
            Arr [Ref 7, Ref 8, Ref 9]])
        [(Num 1, Ref 6), (Num 1, Ref 10)] (Num 1)
     = [Ref 3, Ref 4, Ref 5, Ref 7, Ref 8, Ref 9]
   \<and> list_all2
        (stored_as None
           (demo_rows @
              [Obj [(''t1'', Ref 0)], Obj [(''t2'', Ref 0)], Obj [(''t3'', Ref 0)],
               Arr [Ref 3, Ref 4, Ref 5],
               Obj [(''t1'', Ref 2)], Obj [(''t2'', Ref 2)], Obj [(''t3'', Ref 2)],
               Arr [Ref 7, Ref 8, Ref 9]])
           (demo_rows @
              [Obj [(''t1'', Ref 0)], Obj [(''t2'', Ref 0)], Obj [(''t3'', Ref 0)],
               Arr [Ref 3, Ref 4, Ref 5, Ref 7, Ref 8, Ref 9],
               Obj [(''t1'', Ref 2)], Obj [(''t2'', Ref 2)], Obj [(''t3'', Ref 2)],
               Arr [Ref 7, Ref 8, Ref 9]]))
        [Ref 3, Ref 4, Ref 5, Ref 7, Ref 8, Ref 9]
        [Ref 3, Ref 4, Ref 5, Ref 7, Ref 8, Ref 9]"
proof -
  let ?cfg = "demo_options\<lparr>opt_parseDataRow := Some tests_parseDataRow\<rparr>"
  let ?h1 = "demo_rows @
     [Obj [(''t1'', Ref 0)], Obj [(''t2'', Ref 0)], Obj [(''t3'', Ref 0)],
      Arr [Ref 3, Ref 4, Ref 5],
      Obj [(''t1'', Ref 2)], Obj [(''t2'', Ref 2)], Obj [(''t3'', Ref 2)],
      Arr [Ref 7, Ref 8, Ref 9]]"
  let ?h2 = "demo_rows @
     [Obj [(''t1'', Ref 0)], Obj [(''t2'', Ref 0)], Obj [(''t3'', Ref 0)],
      Arr [Ref 3, Ref 4, Ref 5, Ref 7, Ref 8, Ref 9],
      Obj [(''t1'', Ref 2)], Obj [(''t2'', Ref 2)], Obj [(''t3'', Ref 2)],
      Arr [Ref 7, Ref 8, Ref 9]]"
  let ?s' = "\<lparr>hp = ?h2, data = [(Num 1, 6)], lastUpdate = Some 1, emitted = [Update],
              loadDataPromise = True\<rparr>"
  let ?items = "[(Num 1, Ref 6), (Num 1, Ref 10)]"
  have l: "loadFromDatabase ?cfg 1 (Rows [Ref 0, Ref 2]) (startCache demo_rows) = (Inr (), ?s')"
    by code_simp
  have c: "collectMapItems ?cfg [Ref 0, Ref 2] (hp (startCache demo_rows)) = (Inr ?items, ?h1)"
    by code_simp
  have w: "\<forall>it\<in>set ?items. \<forall>a. snd it = Ref a \<longrightarrow> a < length ?h1"
    by (simp add: demo_rows_def)
  have d: "distinct (array_addrs ?h1 ?items)"
    by code_simp
  have g: "map_get (data ?s') (Num 1) = Some 6"
    by (simp add: map_get_def)
  have e: "elems (hp ?s') 6 = [Ref 3, Ref 4, Ref 5, Ref 7, Ref 8, Ref 9]"
    by code_simp
  have k: "contributions ?h1 ?items (Num 1) = [Ref 3, Ref 4, Ref 5, Ref 7, Ref 8, Ref 9]"
    by code_simp
  have i: "itemClass ?cfg = None"
    by (simp add: demo_options_def)
  from merged_lists_are_concatenations [OF l c w d, of "Num 1"] g
  have "list_all2 (stored_as (itemClass ?cfg) ?h1 (hp ?s')) (elems (hp ?s') 6)
          (contributions ?h1 ?items (Num 1))"
    by blast
  then have "list_all2 (stored_as None ?h1 ?h2) [Ref 3, Ref 4, Ref 5, Ref 7, Ref 8, Ref 9]
          [Ref 3, Ref 4, Ref 5, Ref 7, Ref 8, Ref 9]"
    unfolding i e k by simp
  with l k show ?thesis
    by blast
qed

section \<open>JSON and the heap\<close>

lemma closed_cell: "closed n h \<Longrightarrow> a < n \<Longrightarrow> cell_ok n (h ! a)"
  by (auto simp: closed_def list_all_length)

text \<open>
  \<^verbatim>\<open>JSON.stringify\<close> of a value of a closed part of the heap reads that part only: it gives
  the same on every heap that has the same cells there, whatever else is on the stack.
\<close>

lemma ser_frame_aux:
  "closed n h \<Longrightarrow> n \<le> length h' \<Longrightarrow> (\<forall>a<n. h' ! a = h ! a) \<Longrightarrow>
   val_ok n v \<Longrightarrow> (\<forall>a<n. (a \<in> set stk') = (a \<in> set stk)) \<Longrightarrow>
   ser h' stk' v = ser h stk v"
  "closed n h \<Longrightarrow> n \<le> length h' \<Longrightarrow> (\<forall>a<n. h' ! a = h ! a) \<Longrightarrow>
   list_all (val_ok n) xs \<Longrightarrow> (\<forall>a<n. (a \<in> set stk') = (a \<in> set stk)) \<Longrightarrow>
   ser_elems h' stk' xs = ser_elems h stk xs"
  "closed n h \<Longrightarrow> n \<le> length h' \<Longrightarrow> (\<forall>a<n. h' ! a = h ! a) \<Longrightarrow>
   list_all (\<lambda>p. val_ok n (snd p)) ps \<Longrightarrow> (\<forall>a<n. (a \<in> set stk') = (a \<in> set stk)) \<Longrightarrow>
   ser_props h' stk' ps = ser_props h stk ps"
proof (induction h stk v and h stk xs and h stk ps arbitrary: stk' and stk' and stk'
    rule: ser_ser_elems_ser_props.induct)
  case (6 h stk a)
  note c = 6(3) and l = 6(4) and same = 6(5)
  from 6(6) have an: "a < n"
    by simp
  with c have ah: "a < length h"
    by (simp add: closed_def)
  from an l have ah': "a < length h'"
    by simp
  from an same have cell: "h' ! a = h ! a"
    by simp
  from an 6(7) have st: "(a \<in> set stk') = (a \<in> set stk)"
    by simp
  show ?case
  proof (cases "a \<in> set stk")
    case True
    with st show ?thesis by simp
  next
    case False
    have st2: "\<forall>b<n. (b \<in> set (a # stk')) = (b \<in> set (a # stk))"
      using 6(7) by simp
    from closed_cell [OF c an] have ok: "cell_ok n (h ! a)" .
    have go: "\<not> (a \<in> set stk \<or> length h \<le> a)"
      using False ah by simp
    show ?thesis
    proof (cases "h ! a")
      case (Arr xs)
      with ok have "list_all (val_ok n) xs"
        by (simp add: cell_ok_def)
      from 6(1) [OF go Arr c l same this st2]
      have "ser_elems h' (a # stk') xs = ser_elems h (a # stk) xs" .
      with False st ah ah' cell Arr show ?thesis
        by simp
    next
      case (Obj ps)
      with ok have "list_all (\<lambda>p. val_ok n (snd p)) ps"
        by (simp add: cell_ok_def)
      from 6(2) [OF go Obj c l same this st2]
      have "ser_props h' (a # stk') ps = ser_props h (a # stk) ps" .
      with False st ah ah' cell Obj show ?thesis
        by simp
    qed
  qed
next
  case (8 h stk x xs)
  note c = 8(3) and l = 8(4) and same = 8(5)
  from 8(6) have x: "val_ok n x" and xs: "list_all (val_ok n) xs"
    by simp_all
  from 8(1) [OF c l same x 8(7)] have e1: "ser h' stk' x = ser h stk x" .
  show ?case
  proof (cases "ser h stk x")
    case (Inl e)
    with e1 show ?thesis by simp
  next
    case (Inr jo)
    from 8(2) [OF Inr c l same xs 8(7)] e1 Inr show ?thesis
      by simp
  qed
next
  case (10 h stk p ps)
  note c = 10(3) and l = 10(4) and same = 10(5)
  from 10(6) have x: "val_ok n (snd p)" and xs: "list_all (\<lambda>p. val_ok n (snd p)) ps"
    by simp_all
  from 10(1) [OF c l same x 10(7)] have e1: "ser h' stk' (snd p) = ser h stk (snd p)" .
  show ?case
  proof (cases "ser h stk (snd p)")
    case (Inl e)
    with e1 show ?thesis by simp
  next
    case (Inr jo)
    from 10(2) [OF Inr c l same xs 10(7)] e1 Inr show ?thesis
      by simp
  qed
qed simp_all

lemma build_length:
  "length h \<le> length (snd (build j h))"
  "length h \<le> length (snd (build_elems js h))"
  "length h \<le> length (snd (build_props ps h))"
  using build_appends(1) [of j h] build_appends(2) [of js h] build_appends(3) [of ps h]
  by auto

text \<open>
  \<^verbatim>\<open>JSON.stringify\<close> of what \<^verbatim>\<open>JSON.parse\<close> has built gives the JSON back, on every heap that
  extends the one after parsing, as long as none of the cells that parsing has created
  is on the stack.
\<close>

lemma build_ser:
  "(\<forall>a\<in>set stk. a < length h \<or> length (snd (build j h)) \<le> a) \<Longrightarrow>
   ser (snd (build j h) @ ext) stk (fst (build j h)) = Inr (Some j)"
  "(\<forall>a\<in>set stk. a < length h \<or> length (snd (build_elems js h)) \<le> a) \<Longrightarrow>
   ser_elems (snd (build_elems js h) @ ext) stk (fst (build_elems js h)) = Inr js"
  "(\<forall>a\<in>set stk. a < length h \<or> length (snd (build_props ps h)) \<le> a) \<Longrightarrow>
   ser_props (snd (build_props ps h) @ ext) stk (fst (build_props ps h)) = Inr ps"
proof (induction j h and js h and ps h arbitrary: stk ext and stk ext and stk ext
    rule: build_build_elems_build_props.induct)
  case (5 js h)
  obtain vs h1 where b: "build_elems js h = (vs, h1)"
    by (cases "build_elems js h")
  from build_length(2) [of h js] b have le: "length h \<le> length h1"
    by simp
  from 5(2) b have stk: "\<forall>a\<in>set stk. a < length h \<or> Suc (length h1) \<le> a"
    by simp
  with le have notin: "length h1 \<notin> set stk"
    by fastforce
  have "\<forall>a\<in>set (length h1 # stk). a < length h \<or> length (snd (build_elems js h)) \<le> a"
    using stk b by auto
  from 5(1) [OF this, of "Arr vs # ext"] b
  have "ser_elems (h1 @ Arr vs # ext) (length h1 # stk) vs = Inr js"
    by simp
  with notin b show ?case
    by simp
next
  case (6 ps h)
  obtain vs h1 where b: "build_props ps h = (vs, h1)"
    by (cases "build_props ps h")
  from build_length(3) [of h ps] b have le: "length h \<le> length h1"
    by simp
  from 6(2) b have stk: "\<forall>a\<in>set stk. a < length h \<or> Suc (length h1) \<le> a"
    by simp
  with le have notin: "length h1 \<notin> set stk"
    by fastforce
  have "\<forall>a\<in>set (length h1 # stk). a < length h \<or> length (snd (build_props ps h)) \<le> a"
    using stk b by auto
  from 6(1) [OF this, of "Obj vs # ext"] b
  have "ser_props (h1 @ Obj vs # ext) (length h1 # stk) vs = Inr ps"
    by simp
  with notin b show ?case
    by simp
next
  case (8 j js h)
  obtain v h1 where b1: "build j h = (v, h1)"
    by (cases "build j h")
  obtain vs h2 where b2: "build_elems js h1 = (vs, h2)"
    by (cases "build_elems js h1")
  from build_appends(2) [of js h1] b2 obtain cs where cs: "h2 = h1 @ cs"
    by auto
  from build_length(1) [of h j] b1 have le: "length h \<le> length h1"
    by simp
  from 8(3) b1 b2 have stk: "\<forall>a\<in>set stk. a < length h \<or> length h2 \<le> a"
    by simp
  have "\<forall>a\<in>set stk. a < length h \<or> length (snd (build j h)) \<le> a"
    using stk b1 cs by auto
  from 8(1) [OF this, of "cs @ ext"] b1 cs
  have s1: "ser (h2 @ ext) stk v = Inr (Some j)"
    by simp
  have "\<forall>a\<in>set stk. a < length h1 \<or> length (snd (build_elems js h1)) \<le> a"
    using stk b2 le by auto
  from 8(2) [OF b1 [symmetric] this, of ext] b2
  have s2: "ser_elems (h2 @ ext) stk vs = Inr js"
    by simp
  from s1 s2 b1 b2 show ?case
    by simp
next
  case (10 p ps h)
  obtain v h1 where b1: "build (snd p) h = (v, h1)"
    by (cases "build (snd p) h")
  obtain vs h2 where b2: "build_props ps h1 = (vs, h2)"
    by (cases "build_props ps h1")
  from build_appends(3) [of ps h1] b2 obtain cs where cs: "h2 = h1 @ cs"
    by auto
  from build_length(1) [of h "snd p"] b1 have le: "length h \<le> length h1"
    by simp
  from 10(3) b1 b2 have stk: "\<forall>a\<in>set stk. a < length h \<or> length h2 \<le> a"
    by simp
  have "\<forall>a\<in>set stk. a < length h \<or> length (snd (build (snd p) h)) \<le> a"
    using stk b1 cs by auto
  from 10(1) [OF this, of "cs @ ext"] b1 cs
  have s1: "ser (h2 @ ext) stk v = Inr (Some (snd p))"
    by simp
  have "\<forall>a\<in>set stk. a < length h1 \<or> length (snd (build_props ps h1)) \<le> a"
    using stk b2 le by auto
  from 10(2) [OF b1 [symmetric] this, of ext] b2
  have s2: "ser_props (h2 @ ext) stk vs = Inr ps"
    by simp
  from s1 s2 b1 b2 show ?case
    by simp
qed simp_all

section \<open>Reads by value\<close>

text \<open>From here on the simplifier leaves \<open>ser\<close> of a reference folded.\<close>

declare ser.simps(6) [simp del]

lemma ser_array:
  assumes "isArray h (Ref a)" and "a \<notin> set stk"
  shows "ser h stk (Ref a) =
           (case ser_elems h (a # stk) (elems h a) of
              Inl e \<Rightarrow> Inl e
            | Inr js \<Rightarrow> Inr (Some (JArr js)))"
  using assms by (cases "h ! a") (simp_all add: isArray_def elems_def ser.simps(6))

lemma ser_new_empty [simp]: "ser (h @ [Arr []]) [] (Ref (length h)) = Inr (Some (JArr []))"
  by (simp add: ser.simps(6))

lemma cloneArray_json:
  assumes arr: "isArray h (Ref a)" and c: "cloneArray (Ref a) h = (r, h')"
  shows "(case r of Inl e \<Rightarrow> Inl e | Inr v \<Rightarrow> ser h' [] v) = ser h [] (Ref a)"
    and "\<exists>cs. h' = h @ cs"
proof -
  note shape = ser_array [OF arr, of "[]", simplified]
  have "(case r of Inl e \<Rightarrow> Inl e | Inr v \<Rightarrow> ser h' [] v) = ser h [] (Ref a) \<and> (\<exists>cs. h' = h @ cs)"
  proof (cases "elems h a = []")
    case True
    with c have "r = Inr (Ref (length h))" "h' = h @ [Arr []]"
      by (simp_all add: cloneArray_def the_addr_def)
    with True shape show ?thesis
      by simp
  next
    case False
    show ?thesis
    proof (cases "ser h [] (Ref a)")
      case (Inl e)
      with c False show ?thesis
        by (auto simp: cloneArray_def the_addr_def)
    next
      case (Inr jo)
      with shape obtain js where jo: "jo = Some (JArr js)"
        by (auto split: sum.splits)
      obtain v h1 where b: "build (JArr js) h = (v, h1)"
        by (cases "build (JArr js) h")
      with c False Inr jo have r: "r = Inr v" "h' = h1"
        by (simp_all add: cloneArray_def the_addr_def)
      from build_ser(1) [of "[]" h "JArr js" "[]"] b have "ser h1 [] v = Inr (Some (JArr js))"
        by simp
      moreover from build_appends(1) [of "JArr js" h] b have "\<exists>cs. h1 = h @ cs"
        by simp
      ultimately show ?thesis
        using r Inr jo by simp
    qed
  qed
  then show "(case r of Inl e \<Rightarrow> Inl e | Inr v \<Rightarrow> ser h' [] v) = ser h [] (Ref a)"
    and "\<exists>cs. h' = h @ cs"
    by simp_all
qed

lemma getValues_json:
  assumes "\<forall>p\<in>set (data s). isArray (hp s) (Ref (snd p))"
  shows "result_json (getValues k s) =
           (case map_get (data s) k of
              None \<Rightarrow> Inr (Some (JArr []))
            | Some a \<Rightarrow> ser (hp s) [] (Ref a))"
proof (cases "map_get (data s) k")
  case None
  then show ?thesis
    by (simp add: getValues_def result_json_def)
next
  case (Some a)
  with assms map_get_mem [OF Some] have arr: "isArray (hp s) (Ref a)"
    by fastforce
  show ?thesis
  proof (cases "elems (hp s) a = []")
    case True
    with Some ser_array [OF arr, of "[]"] show ?thesis
      by (simp add: getValues_def result_json_def)
  next
    case False
    obtain r h1 where c: "cloneArray (Ref a) (hp s) = (r, h1)"
      by (cases "cloneArray (Ref a) (hp s)")
    from cloneArray_json(1) [OF arr c] Some False c show ?thesis
      by (cases r) (simp_all add: getValues_def result_json_def)
  qed
qed

lemma getAll_json:
  "result_json (getAll s) =
     ser (hp s @ [Arr (concat (map (\<lambda>p. elems (hp s) (snd p)) (data s)))]) []
       (Ref (length (hp s)))"
proof -
  let ?h = "hp s @ [Arr (concat (map (\<lambda>p. elems (hp s) (snd p)) (data s)))]"
  obtain r h1 where c: "cloneArray (Ref (length (hp s))) ?h = (r, h1)"
    by (cases "cloneArray (Ref (length (hp s))) ?h")
  have "isArray ?h (Ref (length (hp s)))"
    by (simp add: isArray_def)
  from cloneArray_json(1) [OF this c] c show ?thesis
    by (cases r) (simp_all add: getAll_def result_json_def)
qed

lemma getFirstValue_json:
  "result_json (getFirstValue k s) =
     (case map_get (data s) k of
        None \<Rightarrow> Inr (Some JNull)
      | Some a \<Rightarrow>
          (if elems (hp s) a = [] then Inr (Some JNull)
           else (case ser (hp s @ [Arr [elems (hp s) a ! 0]]) [length (hp s)] (elems (hp s) a ! 0) of
                   Inl e \<Rightarrow> Inl e
                 | Inr jo \<Rightarrow> Inr (Some (case jo of None \<Rightarrow> JNull | Some j \<Rightarrow> j)))))"
proof (cases "map_get (data s) k")
  case None
  then show ?thesis
    by (simp add: getFirstValue_def result_json_def)
next
  case (Some a)
  show ?thesis
  proof (cases "elems (hp s) a = []")
    case True
    with Some show ?thesis
      by (simp add: getFirstValue_def result_json_def)
  next
    case False
    let ?x = "elems (hp s) a ! 0"
    let ?t = "length (hp s)"
    let ?h = "hp s @ [Arr [?x]]"
    have el: "elems ?h ?t = [?x]"
      by (simp add: elems_def)
    have top: "ser ?h [] (Ref ?t) =
        (case ser ?h [?t] ?x of
           Inl e \<Rightarrow> Inl e
         | Inr jo \<Rightarrow> Inr (Some (JArr [case jo of None \<Rightarrow> JNull | Some j \<Rightarrow> j])))"
      by (simp add: ser.simps(6) split: sum.splits)
    show ?thesis
    proof (cases "ser ?h [?t] ?x")
      case (Inl e)
      with top Some False el show ?thesis
        by (simp add: getFirstValue_def result_json_def cloneArray_def the_addr_def)
    next
      case (Inr jo)
      let ?j = "case jo of None \<Rightarrow> JNull | Some j \<Rightarrow> j"
      obtain v h1 where b: "build ?j ?h = (v, h1)"
        by (cases "build ?j ?h")
      from Inr top have t2: "ser ?h [] (Ref ?t) = Inr (Some (JArr [?j]))"
        by simp
      have c: "cloneArray (Ref ?t) ?h = (Inr (Ref (length h1)), h1 @ [Arr [v]])"
        using t2 b el by (simp add: cloneArray_def the_addr_def)
      from build_ser(1) [of "[]" ?h ?j "[Arr [v]]"] b
      have "ser (h1 @ [Arr [v]]) [] v = Inr (Some ?j)"
        by simp
      with Some False c Inr show ?thesis
        by (simp add: getFirstValue_def result_json_def the_addr_def elems_def)
    qed
  qed
qed

lemma closed_append: "closed n h \<Longrightarrow> closed n (h @ cs)"
  by (simp add: closed_def)

lemma closed_elems: 
  assumes "closed n h" and "a < n"
  shows "list_all (val_ok n) (elems h a)"
proof -
  from assms have "a < length h"
    by (simp add: closed_def)
  with closed_cell [OF assms] show ?thesis
    by (cases "h ! a") (simp_all add: elems_def cell_ok_def)
qed

lemma same_cell_array:
  assumes "a < n" and "n \<le> length h" and "n \<le> length h'" and "\<forall>b<n. h' ! b = h ! b"
  shows "isArray h' (Ref a) = isArray h (Ref a)" and "elems h' a = elems h a"
  using assms by (simp_all add: isArray_def elems_def)

text \<open>
  The three reads depend on the index and on the cells it lies in, and on nothing else.
\<close>

lemma reads_frame:
  assumes ix: "index_in n s"
    and d: "data s2 = data s"
    and l: "n \<le> length (hp s2)"
    and same: "\<forall>a<n. hp s2 ! a = hp s ! a"
  shows "result_json (getValues k s2) = result_json (getValues k s)"
    and "result_json (getFirstValue k s2) = result_json (getFirstValue k s)"
    and "result_json (getAll s2) = result_json (getAll s)"
proof -
  from ix have c: "closed n (hp s)"
    and dl: "\<And>p. p \<in> set (data s) \<Longrightarrow> snd p < n \<and> isArray (hp s) (Ref (snd p))"
    by (simp_all add: index_in_def list_all_iff)
  from c have ln: "n \<le> length (hp s)"
    by (simp add: closed_def)
  have el: "elems (hp s2) (snd p) = elems (hp s) (snd p)"
    and ar: "isArray (hp s2) (Ref (snd p))" if "p \<in> set (data s)" for p
    using same_cell_array [OF _ ln l same, of "snd p"] dl [OF that] by simp_all
  have arrs: "\<forall>p\<in>set (data s). isArray (hp s) (Ref (snd p))"
    using dl by blast
  have arrs2: "\<forall>p\<in>set (data s2). isArray (hp s2) (Ref (snd p))"
    using ar d by simp
  show "result_json (getValues k s2) = result_json (getValues k s)"
  proof (cases "map_get (data s) k")
    case None
    with d show ?thesis
      by (simp add: getValues_json [OF arrs] getValues_json [OF arrs2])
  next
    case (Some a)
    from dl [OF map_get_mem [OF Some]] have "a < n"
      by simp
    then have "ser (hp s2) [] (Ref a) = ser (hp s) [] (Ref a)"
      using c l same by (intro ser_frame_aux(1)) simp_all
    with Some d show ?thesis
      by (simp add: getValues_json [OF arrs] getValues_json [OF arrs2])
  qed
  show "result_json (getFirstValue k s2) = result_json (getFirstValue k s)"
  proof (cases "map_get (data s) k")
    case None
    with d show ?thesis
      by (simp add: getFirstValue_json)
  next
    case (Some a)
    from dl [OF map_get_mem [OF Some]] have an: "a < n"
      by simp
    from el [OF map_get_mem [OF Some]] have e: "elems (hp s2) a = elems (hp s) a"
      by simp
    show ?thesis
    proof (cases "elems (hp s) a = []")
      case True
      with Some d e show ?thesis
        by (simp add: getFirstValue_json)
    next
      case False
      let ?x = "elems (hp s) a ! 0"
      from closed_elems [OF c an] False have x: "val_ok n ?x"
        by (cases "elems (hp s) a") simp_all
      have "ser (hp s2 @ [Arr [?x]]) [length (hp s2)] ?x
              = ser (hp s @ [Arr [?x]]) [length (hp s)] ?x"
      proof (rule ser_frame_aux(1) [OF closed_append [OF c] _ _ x])
        show "n \<le> length (hp s2 @ [Arr [?x]])"
          using l by simp
        show "\<forall>a<n. (hp s2 @ [Arr [?x]]) ! a = (hp s @ [Arr [?x]]) ! a"
          using same l ln by (simp add: nth_append)
        show "\<forall>a<n. (a \<in> set [length (hp s2)]) = (a \<in> set [length (hp s)])"
          using l ln by auto
      qed
      with Some d e False show ?thesis
        by (simp add: getFirstValue_json)
    qed
  qed
  show "result_json (getAll s2) = result_json (getAll s)"
  proof -
    let ?items = "concat (map (\<lambda>p. elems (hp s) (snd p)) (data s))"
    have items2: "concat (map (\<lambda>p. elems (hp s2) (snd p)) (data s2)) = ?items"
      using el d by (auto intro!: arg_cong [where f = concat])
    have ok: "list_all (val_ok n) ?items"
      using closed_elems [OF c] dl by (auto simp: list_all_iff)
    have "ser_elems (hp s2 @ [Arr ?items]) [length (hp s2)] ?items
            = ser_elems (hp s @ [Arr ?items]) [length (hp s)] ?items"
    proof (rule ser_frame_aux(2) [OF closed_append [OF c] _ _ ok])
      show "n \<le> length (hp s2 @ [Arr ?items])"
        using l by simp
      show "\<forall>a<n. (hp s2 @ [Arr ?items]) ! a = (hp s @ [Arr ?items]) ! a"
        using same l ln by (simp add: nth_append)
      show "\<forall>a<n. (a \<in> set [length (hp s2)]) = (a \<in> set [length (hp s)])"
        using l ln by auto
    qed
    then have "ser (hp s2 @ [Arr ?items]) [] (Ref (length (hp s2)))
                 = ser (hp s @ [Arr ?items]) [] (Ref (length (hp s)))"
      by (simp add: ser_array isArray_def elems_def)
    then show ?thesis
      by (simp add: getAll_json items2)
  qed
qed

section \<open>Copies are isolated\<close>

lemma val_fresh_mono: "val_fresh m v \<Longrightarrow> m' \<le> m \<Longrightarrow> val_fresh m' v"
  by (cases v) simp_all

lemma cell_fresh_mono: "cell_fresh m ob \<Longrightarrow> m' \<le> m \<Longrightarrow> cell_fresh m' ob"
  by (cases ob) (auto simp: cell_fresh_def list_all_iff intro: val_fresh_mono)

lemma build_fresh:
  "val_fresh (length h) (fst (build j h))
   \<and> list_all (cell_fresh (length h)) (drop (length h) (snd (build j h)))"
  "list_all (val_fresh (length h)) (fst (build_elems js h))
   \<and> list_all (cell_fresh (length h)) (drop (length h) (snd (build_elems js h)))"
  "list_all (\<lambda>p. val_fresh (length h) (snd p)) (fst (build_props ps h))
   \<and> list_all (cell_fresh (length h)) (drop (length h) (snd (build_props ps h)))"
proof (induction j h and js h and ps h rule: build_build_elems_build_props.induct)
  case (5 js h)
  obtain vs h1 where b: "build_elems js h = (vs, h1)"
    by (cases "build_elems js h")
  from build_length(2) [of h js] b have le: "length h \<le> length h1"
    by simp
  with 5 b show ?case
    by (simp add: cell_fresh_def)
next
  case (6 ps h)
  obtain vs h1 where b: "build_props ps h = (vs, h1)"
    by (cases "build_props ps h")
  from build_length(3) [of h ps] b have le: "length h \<le> length h1"
    by simp
  with 6 b show ?case
    by (simp add: cell_fresh_def)
next
  case (8 j js h)
  obtain v h1 where b1: "build j h = (v, h1)"
    by (cases "build j h")
  obtain vs h2 where b2: "build_elems js h1 = (vs, h2)"
    by (cases "build_elems js h1")
  from build_appends(2) [of js h1] b2 obtain cs where cs: "h2 = h1 @ cs"
    by auto
  from build_length(1) [of h j] b1 have le: "length h \<le> length h1"
    by simp
  from 8(1) b1 have f1: "val_fresh (length h) v" "list_all (cell_fresh (length h)) (drop (length h) h1)"
    by simp_all
  from 8(2) [OF b1 [symmetric]] b2 cs
  have f2: "list_all (val_fresh (length h1)) vs" "list_all (cell_fresh (length h1)) cs"
    by simp_all
  from f2 le have "list_all (val_fresh (length h)) vs" "list_all (cell_fresh (length h)) cs"
    by (auto simp: list_all_iff intro: val_fresh_mono cell_fresh_mono)
  with f1 b1 b2 cs le show ?case
    by simp
next
  case (10 p ps h)
  obtain v h1 where b1: "build (snd p) h = (v, h1)"
    by (cases "build (snd p) h")
  obtain vs h2 where b2: "build_props ps h1 = (vs, h2)"
    by (cases "build_props ps h1")
  from build_appends(3) [of ps h1] b2 obtain cs where cs: "h2 = h1 @ cs"
    by auto
  from build_length(1) [of h "snd p"] b1 have le: "length h \<le> length h1"
    by simp
  from 10(1) b1 have f1: "val_fresh (length h) v" "list_all (cell_fresh (length h)) (drop (length h) h1)"
    by simp_all
  from 10(2) [OF b1 [symmetric]] b2 cs
  have f2: "list_all (\<lambda>p. val_fresh (length h1) (snd p)) vs" "list_all (cell_fresh (length h1)) cs"
    by simp_all
  from f2 le have "list_all (\<lambda>p. val_fresh (length h) (snd p)) vs"
      "list_all (cell_fresh (length h)) cs"
    by (auto simp: list_all_iff intro: val_fresh_mono cell_fresh_mono)
  with f1 b1 b2 cs le show ?case
    by simp
qed simp_all

lemma cloneArray_fresh:
  assumes "cloneArray items h = (Inr v, h')"
  shows "returned_fresh (length h) h' v \<and> (\<exists>cs. h' = h @ cs)"
proof (cases "elems h (the_addr items) = []")
  case True
  with assms show ?thesis
    by (auto simp: cloneArray_def returned_fresh_def cell_fresh_def)
next
  case False
  with assms obtain j where j: "ser h [] items = Inr (Some j)" and b: "build j h = (v, h')"
    by (auto simp: cloneArray_def split: sum.splits option.splits prod.splits)
  from build_fresh(1) [of h j] build_appends(1) [of j h] b show ?thesis
    by (simp add: returned_fresh_def)
qed

lemma getFirstValue_result:
  assumes g: "map_get (data s) k = Some a" and ne: "elems (hp s) a \<noteq> []"
    and r: "getFirstValue k s = (Inr v, s1)"
  shows "\<exists>j h1. build j (hp s @ [Arr [elems (hp s) a ! 0]]) = (v, h1)
               \<and> s1 = s\<lparr>hp := h1 @ [Arr [v]]\<rparr>"
proof -
  let ?x = "elems (hp s) a ! 0"
  let ?t = "length (hp s)"
  let ?h = "hp s @ [Arr [?x]]"
  have el: "elems ?h ?t = [?x]"
    by (simp add: elems_def)
  have top: "ser ?h [] (Ref ?t) =
      (case ser ?h [?t] ?x of
         Inl e \<Rightarrow> Inl e
       | Inr jo \<Rightarrow> Inr (Some (JArr [case jo of None \<Rightarrow> JNull | Some j \<Rightarrow> j])))"
    by (simp add: ser.simps(6) split: sum.splits)
  show ?thesis
  proof (cases "ser ?h [?t] ?x")
    case (Inl e)
    with top g ne el r show ?thesis
      by (simp add: getFirstValue_def cloneArray_def the_addr_def)
  next
    case (Inr jo)
    let ?j = "case jo of None \<Rightarrow> JNull | Some j \<Rightarrow> j"
    obtain v' h1 where b: "build ?j ?h = (v', h1)"
      by (cases "build ?j ?h")
    from Inr top have t2: "ser ?h [] (Ref ?t) = Inr (Some (JArr [?j]))"
      by simp
    have "cloneArray (Ref ?t) ?h = (Inr (Ref (length h1)), h1 @ [Arr [v']])"
      using t2 b el by (simp add: cloneArray_def the_addr_def)
    with g ne r have "v = v'" "s1 = s\<lparr>hp := h1 @ [Arr [v']]\<rparr>"
      by (auto simp: getFirstValue_def the_addr_def elems_def)
    with b show ?thesis
      by blast
  qed
qed

text \<open>
  A read only adds cells to the heap, and what it returns is fresh: it lies in cells that
  the read has created.
\<close>

lemma perform_fresh:
  assumes "perform r s = (Inr v, s1)"
  shows "\<exists>m\<ge>length (hp s). returned_fresh m (hp s1) v"
    and "\<exists>cs. hp s1 = hp s @ cs" and "data s1 = data s"
proof -
  have "(\<exists>m\<ge>length (hp s). returned_fresh m (hp s1) v) \<and> (\<exists>cs. hp s1 = hp s @ cs)
        \<and> data s1 = data s"
  proof (cases r)
    case (GetValues k)
    show ?thesis
    proof (cases "map_get (data s) k")
      case None
      with assms GetValues show ?thesis
        by (auto simp: perform_def getValues_def returned_fresh_def cell_fresh_def
            intro!: exI [of _ "length (hp s)"])
    next
      case (Some a)
      show ?thesis
      proof (cases "elems (hp s) a = []")
        case True
        with assms GetValues Some show ?thesis
          by (auto simp: perform_def getValues_def returned_fresh_def cell_fresh_def
              intro!: exI [of _ "length (hp s)"])
      next
        case False
        with assms GetValues Some obtain h1 where
          c: "cloneArray (Ref a) (hp s) = (Inr v, h1)" and s1: "s1 = s\<lparr>hp := h1\<rparr>"
          by (auto simp: perform_def getValues_def split: prod.splits)
        from cloneArray_fresh [OF c] s1 show ?thesis
          by auto
      qed
    qed
  next
    case (GetFirstValue k)
    show ?thesis
    proof (cases "map_get (data s) k")
      case None
      with assms GetFirstValue show ?thesis
        by (auto simp: perform_def getFirstValue_def returned_fresh_def
            intro!: exI [of _ "length (hp s)"])
    next
      case (Some a)
      show ?thesis
      proof (cases "elems (hp s) a = []")
        case True
        with assms GetFirstValue Some show ?thesis
          by (auto simp: perform_def getFirstValue_def returned_fresh_def
              intro!: exI [of _ "length (hp s)"])
      next
        case False
        let ?h = "hp s @ [Arr [elems (hp s) a ! 0]]"
        from assms GetFirstValue have "getFirstValue k s = (Inr v, s1)"
          by (simp add: perform_def)
        from getFirstValue_result [OF Some False this] obtain j h1 where
          b: "build j ?h = (v, h1)" and s1: "s1 = s\<lparr>hp := h1 @ [Arr [v]]\<rparr>"
          by blast
        from build_appends(1) [of j ?h] b obtain cs where cs: "h1 = ?h @ cs"
          by auto
        from build_fresh(1) [of ?h j] b cs
        have f: "val_fresh (Suc (length (hp s))) v" "list_all (cell_fresh (Suc (length (hp s)))) cs"
          by simp_all
        then have "returned_fresh (Suc (length (hp s))) (hp s1) v"
          using s1 cs by (simp add: returned_fresh_def cell_fresh_def)
        moreover have "\<exists>cs. hp s1 = hp s @ cs" "data s1 = data s"
          using s1 cs by simp_all
        ultimately show ?thesis
          by (auto intro!: exI [of _ "Suc (length (hp s))"])
      qed
    qed
  next
    case GetAll
    let ?h = "hp s @ [Arr (concat (map (\<lambda>p. elems (hp s) (snd p)) (data s)))]"
    from assms GetAll obtain h1 where
      c: "cloneArray (Ref (length (hp s))) ?h = (Inr v, h1)" and s1: "s1 = s\<lparr>hp := h1\<rparr>"
      by (auto simp: perform_def getAll_def split: prod.splits)
    from cloneArray_fresh [OF c] obtain cs where
      f: "returned_fresh (Suc (length (hp s))) h1 v" and cs: "h1 = ?h @ cs"
      by auto
    with s1 show ?thesis
      by (auto intro!: exI [of _ "Suc (length (hp s))"])
  qed
  then show "\<exists>m\<ge>length (hp s). returned_fresh m (hp s1) v"
    and "\<exists>cs. hp s1 = hp s @ cs" and "data s1 = data s"
    by blast+
qed

lemma perform_frame:
  assumes "index_in n s" and "data s2 = data s" and "n \<le> length (hp s2)"
    and "\<forall>a<n. hp s2 ! a = hp s ! a"
  shows "result_json (perform r s2) = result_json (perform r s)"
  using reads_frame [OF assms] by (cases r) (simp_all add: perform_def)

text \<open>
  C9. Take a cache whose heap is closed and holds the lists of the index, let any of the
  three reads return a value, and let the caller then change the heap in any way that
  leaves the cells from before the read alone. What the read has returned is fresh (it
  lies in cells that the read has created, so changing a returned record is such a
  change), and every read afterwards gives, by value, what it gives without the change.
\<close>

theorem returned_records_isolated:
  assumes wf: "index_in (length (hp s)) s"
    and r1: "perform r1 s = (Inr v, s1)"
    and len: "length (hp s) \<le> length h2"
    and mut: "\<forall>a<length (hp s). h2 ! a = hp s1 ! a"
  shows "(\<exists>m\<ge>length (hp s). returned_fresh m (hp s1) v)
       \<and> result_json (perform r2 (s1\<lparr>hp := h2\<rparr>)) = result_json (perform r2 s1)"
proof -
  note F = perform_fresh [OF r1]
  from F(2) obtain cs where cs: "hp s1 = hp s @ cs"
    by blast
  have old: "\<forall>a<length (hp s). hp s1 ! a = hp s ! a"
    using cs by (simp add: nth_append)
  have e1: "result_json (perform r2 s1) = result_json (perform r2 s)"
    using wf F(3) _ old by (rule perform_frame) (simp add: cs)
  have e2: "result_json (perform r2 (s1\<lparr>hp := h2\<rparr>)) = result_json (perform r2 s)"
  proof (rule perform_frame [OF wf])
    show "data (s1\<lparr>hp := h2\<rparr>) = data s"
      using F(3) by simp
    show "length (hp s) \<le> length (hp (s1\<lparr>hp := h2\<rparr>))"
      using len by simp
    show "\<forall>a<length (hp s). hp (s1\<lparr>hp := h2\<rparr>) ! a = hp s ! a"
      using mut old by simp
  qed
  from F(1) e1 e2 show ?thesis
    by simp
qed

theorem returned_records_isolated_witness:
  "index_in (length (hp demo_cache)) demo_cache
   \<and> perform (GetValues (Num 1)) demo_cache
     = (Inr (Ref 7),
        demo_cache\<lparr>hp := hp demo_cache @
          [Obj [(''id'', Num 1), (''text'', Str ''a'')],
           Obj [(''id'', Num 1), (''text'', Str ''b'')], Arr [Ref 5, Ref 6]]\<rparr>)
   \<and> result_json (perform GetAll
        (demo_cache\<lparr>hp := hp demo_cache @
          [Obj [(''id'', Num 99), (''text'', Str ''changed'')],
           Obj [(''id'', Num 1), (''text'', Str ''b'')], Arr [Ref 5, Ref 6]]\<rparr>))
     = result_json (perform GetAll
        (demo_cache\<lparr>hp := hp demo_cache @
          [Obj [(''id'', Num 1), (''text'', Str ''a'')],
           Obj [(''id'', Num 1), (''text'', Str ''b'')], Arr [Ref 5, Ref 6]]\<rparr>))"
proof -
  let ?s1 = "demo_cache\<lparr>hp := hp demo_cache @
          [Obj [(''id'', Num 1), (''text'', Str ''a'')],
           Obj [(''id'', Num 1), (''text'', Str ''b'')], Arr [Ref 5, Ref 6]]\<rparr>"
  let ?h2 = "hp demo_cache @
          [Obj [(''id'', Num 99), (''text'', Str ''changed'')],
           Obj [(''id'', Num 1), (''text'', Str ''b'')], Arr [Ref 5, Ref 6]]"
  have wf: "index_in (length (hp demo_cache)) demo_cache"
    by code_simp
  have r1: "perform (GetValues (Num 1)) demo_cache = (Inr (Ref 7), ?s1)"
    by code_simp
  have len: "length (hp demo_cache) \<le> length ?h2"
    by simp
  have mut: "\<forall>a<length (hp demo_cache). ?h2 ! a = hp ?s1 ! a"
    by (simp add: nth_append)
  from returned_records_isolated [OF wf r1 len mut, of GetAll] wf r1 show ?thesis
    by simp
qed

section \<open>Cycles that fail\<close>

text \<open>The construction loop writes to the array it runs over and adds cells, whatever it returns.\<close>

lemma construct_elems_frame:
  "construct_elems c a js h = (r, h') \<Longrightarrow>
   length h \<le> length h' \<and> (\<forall>b<length h. b \<noteq> a \<longrightarrow> h' ! b = h ! b)"
proof (induction js arbitrary: h)
  case Nil
  then show ?case by simp
next
  case (Cons j js)
  obtain r1 h1 where n: "new_Item c (elems h a ! j) h = (r1, h1)"
    by (cases "new_Item c (elems h a ! j) h")
  from n have h1: "length h \<le> length h1 \<and> (\<forall>b<length h. h1 ! b = h ! b)"
    by (cases rule: new_Item_cases) (simp_all add: nth_append)
  show ?case
  proof (cases r1)
    case (Inl e)
    with Cons.prems n h1 show ?thesis by simp
  next
    case (Inr x)
    let ?h2 = "h1[a := Arr ((elems h1 a)[j := x])]"
    from Cons.prems n Inr have "construct_elems c a js ?h2 = (r, h')"
      by simp
    from Cons.IH [OF this] h1 show ?thesis
      by simp
  qed
qed

lemma construct_value_frame:
  assumes "construct_value Item v h = (r, h')"
  shows "length h \<le> length h'
       \<and> (\<forall>b<length h. (isArray h v \<longrightarrow> b \<noteq> the_addr v) \<longrightarrow> h' ! b = h ! b)"
  using assms
proof (cases rule: construct_value_cases)
  case plain
  then show ?thesis by simp
next
  case (scalar c)
  from scalar(3) show ?thesis
    by (cases rule: new_Item_cases) (simp_all add: nth_append)
next
  case (array c r1)
  from construct_elems_frame [OF array(3)] array(2) show ?thesis
    by simp
qed

text \<open>
  When the lists of \<^verbatim>\<open>cacheMap\<close> lie at \<open>n\<close> or beyond and the pair's value is not an array
  below \<open>n\<close>, a turn of the loop leaves the cells below \<open>n\<close> alone, whatever it returns.
\<close>

lemma mergeItem_frame:
  assumes n: "n \<le> length h" and m: "\<forall>p\<in>set m. n \<le> snd p"
    and it: "\<forall>a. snd it = Ref a \<and> a < n \<longrightarrow> \<not> isArray h (Ref a)"
    and s: "mergeItem Item it m h = (r, h')"
  shows "n \<le> length h' \<and> (\<forall>a<n. h' ! a = h ! a)
       \<and> (\<forall>m'. r = Inr m' \<longrightarrow> (\<forall>p\<in>set m'. n \<le> snd p))"
proof -
  have far: "n \<le> the_addr (snd it)" if "isArray h (snd it)"
  proof (rule ccontr)
    assume "\<not> n \<le> the_addr (snd it)"
    with it isArray_Ref [OF that] that show False
      by (metis not_le)
  qed
  have cv: "n \<le> length h1 \<and> (\<forall>a<n. h1 ! a = h ! a)"
    if "construct_value Item (snd it) h = (r1, h1)" for r1 h1
    using construct_value_frame [OF that] n far by fastforce
  from s show ?thesis
  proof (cases rule: mergeItem_cases)
    case (throws e)
    with cv show ?thesis by simp
  next
    case (new_scalar v h1)
    with cv [OF new_scalar(1)] m show ?thesis
      by (auto simp: map_set_absent nth_append)
  next
    case (new_array v)
    from construct_value_array [OF new_array(1,3)] have "v = snd it" .
    with cv [OF new_array(1)] m far [OF new_array(3)] new_array(2,4) show ?thesis
      by (auto simp: map_set_absent)
  next
    case (push_scalar v h1 a)
    from map_get_mem [OF push_scalar(2)] m have "n \<le> a"
      by fastforce
    with cv [OF push_scalar(1)] m push_scalar(4,5) show ?thesis
      by auto
  next
    case (push_array v h1 a)
    from map_get_mem [OF push_array(2)] m have "n \<le> a"
      by fastforce
    with cv [OF push_array(1)] m push_array(4,5) show ?thesis
      by auto
  qed
qed

lemma mergeItems_frame:
  assumes "n \<le> length h" and "\<forall>p\<in>set m. n \<le> snd p"
    and "\<forall>it\<in>set items. \<forall>a. snd it = Ref a \<and> a < n \<longrightarrow> \<not> isArray h (Ref a)"
    and "mergeItems Item items m h = (r, h')"
  shows "n \<le> length h' \<and> (\<forall>a<n. h' ! a = h ! a)"
  using assms
proof (induction items arbitrary: m h)
  case Nil
  then show ?case by simp
next
  case (Cons it items)
  obtain r1 h1 where s: "mergeItem Item it m h = (r1, h1)"
    by (cases "mergeItem Item it m h")
  from Cons.prems(3) have it: "\<forall>a. snd it = Ref a \<and> a < n \<longrightarrow> \<not> isArray h (Ref a)"
    by simp
  note F = mergeItem_frame [OF Cons.prems(1,2) it s]
  show ?case
  proof (cases r1)
    case (Inl e)
    with Cons.prems(4) s F show ?thesis by simp
  next
    case (Inr m1)
    with F have m1: "\<forall>p\<in>set m1. n \<le> snd p" and n1: "n \<le> length h1"
      and same: "\<forall>a<n. h1 ! a = h ! a"
      by simp_all
    have its: "\<forall>it\<in>set items. \<forall>a. snd it = Ref a \<and> a < n \<longrightarrow> \<not> isArray h1 (Ref a)"
      using Cons.prems(1,3) n1 same by (auto simp: isArray_def)
    from Cons.prems(4) s Inr have "mergeItems Item items m1 h1 = (r, h')"
      by simp
    from Cons.IH [OF n1 m1 its this] same show ?thesis
      by simp
  qed
qed

lemma mapRows_appends: "mapRows f rows acc h = (r, h') \<Longrightarrow> \<exists>cs. h' = h @ cs"
proof (induction rows arbitrary: acc h)
  case Nil
  then show ?case by simp
next
  case (Cons row rows)
  show ?case
  proof (cases "f h row")
    case (Inl e)
    with Cons.prems show ?thesis by simp
  next
    case (Inr x)
    obtain item cells where x: "x = (item, cells)"
      by (cases x)
    with Cons.prems Inr have "mapRows f rows (acc @ [item]) (h @ cells) = (r, h')"
      by simp
    from Cons.IH [OF this] show ?thesis
      by auto
  qed
qed

lemma mapRowsMulti_appends: "mapRowsMulti f rows acc h = (r, h') \<Longrightarrow> \<exists>cs. h' = h @ cs"
proof (induction rows arbitrary: acc h)
  case Nil
  then show ?case by simp
next
  case (Cons row rows)
  show ?case
  proof (cases "f h row")
    case (Inl e)
    with Cons.prems show ?thesis by simp
  next
    case (Inr x)
    obtain items cells where x: "x = (items, cells)"
      by (cases x)
    with Cons.prems Inr have "mapRowsMulti f rows (acc @ items) (h @ cells) = (r, h')"
      by simp
    from Cons.IH [OF this] show ?thesis
      by auto
  qed
qed

lemma collectMapItems_appends: "collectMapItems cfg rows h = (r, h') \<Longrightarrow> \<exists>cs. h' = h @ cs"
  by (auto simp: collectMapItems_def split: option.splits
      dest: mapRows_appends mapRowsMulti_appends)

lemma loadFromDatabase_failure:
  assumes "loadFromDatabase cfg now q s = (Inl err, s1)"
  obtains (query) "queryDatabase q = Inl err" "s1 = s"
  | (mapper) rows h1 where "q = Rows rows" "collectMapItems cfg rows (hp s) = (Inl err, h1)"
      "s1 = s\<lparr>hp := h1\<rparr>"
  | (constructor) rows mapItems h1 h2 where "q = Rows rows"
      "collectMapItems cfg rows (hp s) = (Inr mapItems, h1)"
      "mergeItems (itemClass cfg) mapItems [] h1 = (Inl err, h2)" "s1 = s\<lparr>hp := h2\<rparr>"
  using assms
  by (cases q)
     (auto simp: loadFromDatabase_def queryDatabase_def setData_def
      split: prod.splits sum.splits if_splits)

lemma loadFromDatabase_published:
  assumes "loadFromDatabase cfg now q s = (Inr u, s1)"
  shows "lastUpdate s1 = Some now \<and> emitted s1 = emitted s @ [Update]"
  using assms
  by (cases q)
     (auto simp: loadFromDatabase_def queryDatabase_def setData_def publish_def emit_def
      split: prod.splits sum.splits if_splits)

lemma saveToFile_fields:
  assumes "saveToFile w s = (r, s')"
  shows "data s' = data s \<and> lastUpdate s' = lastUpdate s \<and> emitted s' = emitted s"
  using assms
  by (auto simp: saveToFile_def split: prod.splits sum.splits option.splits writeResult.splits)

lemma failed_load_frame:
  assumes wf: "index_in n s"
    and own: "\<forall>rows mapItems h1.
        q = Rows rows \<and> collectMapItems cfg rows (hp s) = (Inr mapItems, h1) \<longrightarrow>
        (\<forall>it\<in>set mapItems. \<forall>a<n. snd it = Ref a \<longrightarrow> \<not> isArray h1 (Ref a))"
    and fail: "loadFromDatabase cfg now q s = (Inl err, s1)"
  shows "data s1 = data s \<and> lastUpdate s1 = lastUpdate s \<and> emitted s1 = emitted s
       \<and> n \<le> length (hp s1) \<and> (\<forall>a<n. hp s1 ! a = hp s ! a)"
proof -
  from wf have n: "n \<le> length (hp s)"
    by (simp add: index_in_def closed_def)
  from fail show ?thesis
  proof (cases rule: loadFromDatabase_failure)
    case query
    with n show ?thesis by simp
  next
    case (mapper rows h1)
    from collectMapItems_appends [OF mapper(2)] obtain cs where "h1 = hp s @ cs" ..
    with mapper(3) n show ?thesis
      by (simp add: nth_append)
  next
    case (constructor rows mapItems h1 h2)
    from collectMapItems_appends [OF constructor(2)] obtain cs where h1: "h1 = hp s @ cs" ..
    with n have n1: "n \<le> length h1"
      by simp
    from own constructor(1,2)
    have its: "\<forall>it\<in>set mapItems. \<forall>a. snd it = Ref a \<and> a < n \<longrightarrow> \<not> isArray h1 (Ref a)"
      by blast
    have "\<forall>p\<in>set ([] :: index). n \<le> snd p"
      by simp
    from mergeItems_frame [OF n1 this its constructor(3)]
    have "n \<le> length h2" and "\<forall>a<n. h2 ! a = h1 ! a"
      by simp_all
    with h1 n constructor(4) show ?thesis
      by (simp add: nth_append)
  qed
qed

lemma emit_hp_data [simp]: "hp (emit e s) = hp s" "data (emit e s) = data s"
  by (simp_all add: emit_def)

text \<open>
  C3 (amended). Let the index lie in the first \<open>n\<close> cells of a closed heap, and let no
  mapper hand back an array among these cells as the value of a pair. A cycle whose
  query, mapper or record constructor fails emits the error and nothing else, leaves
  \<^verbatim>\<open>data\<close> and \<^verbatim>\<open>lastUpdate\<close> as they were, and every read gives by value what it gave before
  the cycle. A cycle whose snapshot cannot be serialized or written fails after
  \<^verbatim>\<open>setData\<close>: it emits \<^verbatim>\<open>update\<close> and then the error, and the new index stays.
\<close>

theorem failed_refresh_keeps_index:
  assumes wf: "index_in n s"
    and own: "\<forall>rows mapItems h1.
        q = Rows rows \<and> collectMapItems cfg rows (hp s) = (Inr mapItems, h1) \<longrightarrow>
        (\<forall>it\<in>set mapItems. \<forall>a<n. snd it = Ref a \<longrightarrow> \<not> isArray h1 (Ref a))"
  shows "(\<forall>err s1. loadFromDatabase cfg now q s = (Inl err, s1) \<longrightarrow>
            loadFromDatabaseAndSaveToFile cfg now q w s = emit (Error err) s1
          \<and> data s1 = data s \<and> lastUpdate s1 = lastUpdate s \<and> emitted s1 = emitted s
          \<and> (\<forall>r. result_json (perform r (emit (Error err) s1)) = result_json (perform r s)))
       \<and> (\<forall>u s1 err s2. shouldSaveToFile cfg \<and> loadFromDatabase cfg now q s = (Inr u, s1)
              \<and> saveToFile w s1 = (Inl err, s2) \<longrightarrow>
            loadFromDatabaseAndSaveToFile cfg now q w s = emit (Error err) s2
          \<and> data s2 = data s1 \<and> lastUpdate s2 = Some now
          \<and> emitted (emit (Error err) s2) = emitted s @ [Update, Error err])"
proof (intro conjI allI impI)
  fix err s1
  assume fail: "loadFromDatabase cfg now q s = (Inl err, s1)"
  note F = failed_load_frame [OF wf own fail]
  from fail show "loadFromDatabaseAndSaveToFile cfg now q w s = emit (Error err) s1"
    by (simp add: loadFromDatabaseAndSaveToFile_def)
  from F show "data s1 = data s" "lastUpdate s1 = lastUpdate s" "emitted s1 = emitted s"
    by simp_all
  fix r
  from F have "data (emit (Error err) s1) = data s"
    and "n \<le> length (hp (emit (Error err) s1))"
    and "\<forall>a<n. hp (emit (Error err) s1) ! a = hp s ! a"
    by simp_all
  from perform_frame [OF wf this]
  show "result_json (perform r (emit (Error err) s1)) = result_json (perform r s)" .
next
  fix u s1 err s2
  assume a: "shouldSaveToFile cfg \<and> loadFromDatabase cfg now q s = (Inr u, s1)
      \<and> saveToFile w s1 = (Inl err, s2)"
  then show "loadFromDatabaseAndSaveToFile cfg now q w s = emit (Error err) s2"
    by (simp add: loadFromDatabaseAndSaveToFile_def)
  from a have l: "loadFromDatabase cfg now q s = (Inr u, s1)"
    and sv: "saveToFile w s1 = (Inl err, s2)"
    by simp_all
  note P = loadFromDatabase_published [OF l] and S = saveToFile_fields [OF sv]
  from S show "data s2 = data s1"
    by simp
  from P S show "lastUpdate s2 = Some now"
    by simp
  from P S show "emitted (emit (Error err) s2) = emitted s @ [Update, Error err]"
    by (simp add: emit_def)
qed

theorem failed_refresh_keeps_index_witness:
  "(\<forall>r. result_json (perform r (loadFromDatabaseAndSaveToFile
            (demo_options\<lparr>opt_parseDataRow := Some tests_parseDataRow\<rparr>) 7
            (Rows [Ref 0, Null]) Written demo_cache))
        = result_json (perform r demo_cache))
   \<and> emitted (loadFromDatabaseAndSaveToFile
         (demo_options\<lparr>opt_parseDataRow := Some tests_parseDataRow\<rparr>) 7
         (Rows [Ref 0, Null]) Written demo_cache) = [Update, Error TypeError]
   \<and> emitted (loadFromDatabaseAndSaveToFile demo_options 7 (Rows [Ref 1])
         (WriteFailed IOError) demo_cache) = [Update, Update, Error IOError]
   \<and> data (loadFromDatabaseAndSaveToFile demo_options 7 (Rows [Ref 1])
         (WriteFailed IOError) demo_cache) = [(Num 2, 5)]"
proof -
  let ?cfg = "demo_options\<lparr>opt_parseDataRow := Some tests_parseDataRow\<rparr>"
  let ?h1 = "hp demo_cache @ [Obj [(''t1'', Ref 0)], Obj [(''t2'', Ref 0)], Obj [(''t3'', Ref 0)],
      Arr [Ref 5, Ref 6, Ref 7]]"
  let ?s2 = "\<lparr>hp = hp demo_cache @ [Arr [Ref 1]], data = [(Num 2, 5)], lastUpdate = Some 7,
      emitted = [Update, Update], loadDataPromise = True\<rparr>"
  let ?s3 = "?s2\<lparr>hp := hp demo_cache @ [Arr [Ref 1], Arr [Num 2, Ref 5], Arr [Ref 6]]\<rparr>"
  have wf: "index_in 5 demo_cache"
    by code_simp
  have e: "emitted demo_cache = [Update]"
    by code_simp
  have c1: "collectMapItems ?cfg [Ref 0, Null] (hp demo_cache) = (Inl TypeError, ?h1)"
    by code_simp
  have l1: "loadFromDatabase ?cfg 7 (Rows [Ref 0, Null]) demo_cache
      = (Inl TypeError, demo_cache\<lparr>hp := ?h1\<rparr>)"
    by code_simp
  have own1: "\<forall>rows mapItems h1.
      Rows [Ref 0, Null] = Rows rows \<and> collectMapItems ?cfg rows (hp demo_cache) = (Inr mapItems, h1) \<longrightarrow>
      (\<forall>it\<in>set mapItems. \<forall>a<5. snd it = Ref a \<longrightarrow> \<not> isArray h1 (Ref a))"
    using c1 by auto
  note T1 = failed_refresh_keeps_index [OF wf own1, of 7 Written]
  from T1 l1 have a1: "loadFromDatabaseAndSaveToFile ?cfg 7 (Rows [Ref 0, Null]) Written demo_cache
      = emit (Error TypeError) (demo_cache\<lparr>hp := ?h1\<rparr>)"
    by blast
  from T1 l1 have a2: "\<forall>r. result_json (perform r (emit (Error TypeError) (demo_cache\<lparr>hp := ?h1\<rparr>)))
      = result_json (perform r demo_cache)"
    by blast
  from T1 l1 have a3: "emitted (demo_cache\<lparr>hp := ?h1\<rparr>) = emitted demo_cache"
    by blast
  have c2: "collectMapItems demo_options [Ref 1] (hp demo_cache) = (Inr [(Num 2, Ref 1)], hp demo_cache)"
    by code_simp
  have arr: "\<not> isArray (hp demo_cache) (Ref 1)"
    by code_simp
  have own2: "\<forall>rows mapItems h1.
      Rows [Ref 1] = Rows rows \<and> collectMapItems demo_options rows (hp demo_cache) = (Inr mapItems, h1) \<longrightarrow>
      (\<forall>it\<in>set mapItems. \<forall>a<5. snd it = Ref a \<longrightarrow> \<not> isArray h1 (Ref a))"
    using c2 arr by auto
  have l2: "loadFromDatabase demo_options 7 (Rows [Ref 1]) demo_cache = (Inr (), ?s2)"
    by code_simp
  have sv: "saveToFile (WriteFailed IOError) ?s2 = (Inl IOError, ?s3)"
    by code_simp
  have p: "shouldSaveToFile demo_options"
    by code_simp
  note T2 = failed_refresh_keeps_index [OF wf own2, of 7 "WriteFailed IOError"]
  from T2 p l2 sv
  have b1: "loadFromDatabaseAndSaveToFile demo_options 7 (Rows [Ref 1]) (WriteFailed IOError) demo_cache
      = emit (Error IOError) ?s3"
    by blast
  from T2 p l2 sv
  have b2: "emitted (emit (Error IOError) ?s3) = emitted demo_cache @ [Update, Error IOError]"
    by blast
  from T2 p l2 sv have b3: "data ?s3 = data ?s2"
    by blast
  from a1 a2 a3 b1 b2 b3 e show ?thesis
    by (simp add: emit_def)
qed

text \<open>
  C3 as stated fails. A cycle that cannot write its snapshot, or cannot serialize it
  because a record refers to itself, has called \<^verbatim>\<open>setData\<close> before: \<^verbatim>\<open>update\<close> and the error
  are both emitted, and the reads give the new rows. And when a mapper hands back a list
  of the published index and the record constructor throws at its second element, the
  first element of the published list has already been replaced.
\<close>

theorem save_failure_after_swap:
  "emitted (loadFromDatabaseAndSaveToFile demo_options 7 (Rows [Ref 1])
      (WriteFailed IOError) demo_cache) = [Update, Update, Error IOError]
   \<and> result_json (perform GetAll demo_cache)
      = Inr (Some (JArr [JObj [(''id'', JNum 1), (''text'', JStr ''a'')],
                         JObj [(''id'', JNum 1), (''text'', JStr ''b'')],
                         JObj [(''id'', JNum 2)]]))
   \<and> result_json (perform GetAll (loadFromDatabaseAndSaveToFile demo_options 7 (Rows [Ref 1])
        (WriteFailed IOError) demo_cache))
      = Inr (Some (JArr [JObj [(''id'', JNum 2)]]))
   \<and> emitted (loadFromDatabaseAndSaveToFile
        (demo_options\<lparr>opt_parseDataRow := Some cyclic_parseDataRow\<rparr>) 7 (Rows [Ref 1])
        Written demo_cache) = [Update, Update, Error TypeError]
   \<and> data (loadFromDatabaseAndSaveToFile
        (demo_options\<lparr>opt_parseDataRow := Some cyclic_parseDataRow\<rparr>) 7 (Rows [Ref 1])
        Written demo_cache) = [(Num 2, 6)]
   \<and> data demo_cache = [(Num 1, 3), (Num 2, 4)]
   \<and> emitted (loadFromDatabaseAndSaveToFile
        (demo_options\<lparr>opt_parseDataRow := Some shared_list_parseDataRow,
                       itemClass := Some picky_Item\<rparr>) 7 (Rows [Ref 0])
        Written demo_cache) = [Update, Error UserError]
   \<and> result_json (perform (GetValues (Num 1)) demo_cache)
      = Inr (Some (JArr [JObj [(''id'', JNum 1), (''text'', JStr ''a'')],
                         JObj [(''id'', JNum 1), (''text'', JStr ''b'')]]))
   \<and> result_json (perform (GetValues (Num 1)) (loadFromDatabaseAndSaveToFile
        (demo_options\<lparr>opt_parseDataRow := Some shared_list_parseDataRow,
                       itemClass := Some picky_Item\<rparr>) 7 (Rows [Ref 0])
        Written demo_cache))
      = Inr (Some (JArr [JObj [(''seen'', JBool True)],
                         JObj [(''id'', JNum 1), (''text'', JStr ''b'')]]))"
  by code_simp

section \<open>The snapshot round trip\<close>

text \<open>
  A call of \<^verbatim>\<open>JSON.stringify\<close> that returns also returns, with the same result, when fewer
  objects are on its stack.
\<close>

lemma ser_fewer_ancestors:
  "ser h stk v = Inr r \<Longrightarrow> set stk' \<subseteq> set stk \<Longrightarrow> ser h stk' v = Inr r"
  "ser_elems h stk xs = Inr js \<Longrightarrow> set stk' \<subseteq> set stk \<Longrightarrow> ser_elems h stk' xs = Inr js"
  "ser_props h stk ps = Inr qs \<Longrightarrow> set stk' \<subseteq> set stk \<Longrightarrow> ser_props h stk' ps = Inr qs"
proof (induction h stk v and h stk xs and h stk ps arbitrary: stk' r and stk' js and stk' qs
    rule: ser_ser_elems_ser_props.induct)
  case (6 h stk a)
  from 6(3) have go: "\<not> (a \<in> set stk \<or> length h \<le> a)"
    by (auto simp: ser.simps(6) split: if_splits)
  with 6(4) have go': "\<not> (a \<in> set stk' \<or> length h \<le> a)"
    by auto
  from 6(4) have sub: "set (a # stk') \<subseteq> set (a # stk)"
    by auto
  show ?case
  proof (cases "h ! a")
    case (Arr xs)
    with 6(3) go obtain js where js: "ser_elems h (a # stk) xs = Inr js" and r: "r = Some (JArr js)"
      by (auto simp: ser.simps(6) split: sum.splits)
    from 6(1) [OF go Arr js sub] go' Arr r show ?thesis
      by (simp add: ser.simps(6))
  next
    case (Obj ps)
    with 6(3) go obtain qs where qs: "ser_props h (a # stk) ps = Inr qs" and r: "r = Some (JObj qs)"
      by (auto simp: ser.simps(6) split: sum.splits)
    from 6(2) [OF go Obj qs sub] go' Obj r show ?thesis
      by (simp add: ser.simps(6))
  qed
next
  case (8 h stk x xs)
  from 8(3) obtain jo js1 where x: "ser h stk x = Inr jo" and xs: "ser_elems h stk xs = Inr js1"
    and js: "js = (case jo of None \<Rightarrow> JNull | Some j \<Rightarrow> j) # js1"
    by (auto split: sum.splits)
  from 8(1) [OF x 8(4)] 8(2) [OF x xs 8(4)] js show ?case
    by simp
next
  case (10 h stk p ps)
  from 10(3) obtain jo qs1 where x: "ser h stk (snd p) = Inr jo"
    and xs: "ser_props h stk ps = Inr qs1"
    and qs: "qs = (case jo of None \<Rightarrow> qs1 | Some j \<Rightarrow> (fst p, j) # qs1)"
    by (auto split: sum.splits)
  from 10(1) [OF x 10(4)] 10(2) [OF x xs 10(4)] qs show ?case
    by simp
qed simp_all

lemma ser_elems_append:
  "ser_elems h stk (xs @ ys) =
     (case ser_elems h stk xs of
        Inl e \<Rightarrow> Inl e
      | Inr js1 \<Rightarrow> (case ser_elems h stk ys of Inl e \<Rightarrow> Inl e | Inr js2 \<Rightarrow> Inr (js1 @ js2)))"
  by (induction xs) (simp_all split: sum.splits)

lemma ser_elems_concat:
  "list_all2 (\<lambda>xs js. ser_elems h stk xs = Inr js) xss jss \<Longrightarrow>
   ser_elems h stk (concat xss) = Inr (concat jss)"
  by (induction rule: list_all2_induct) (simp_all add: ser_elems_append)

text \<open>The JSON of the elements of an array, one by one.\<close>

lemma ser_elems_nth:
  "ser_elems h stk xs = Inr js \<Longrightarrow>
   length js = length xs
   \<and> (\<forall>i<length xs. \<exists>jo. ser h stk (xs ! i) = Inr jo
          \<and> js ! i = (case jo of None \<Rightarrow> JNull | Some j \<Rightarrow> j))"
proof (induction xs arbitrary: js)
  case Nil
  then show ?case by simp
next
  case (Cons x xs)
  from Cons.prems obtain jo js1 where x: "ser h stk x = Inr jo"
    and xs: "ser_elems h stk xs = Inr js1"
    and js: "js = (case jo of None \<Rightarrow> JNull | Some j \<Rightarrow> j) # js1"
    by (auto split: sum.splits)
  from Cons.IH [OF xs] x js show ?case
    by (auto simp: nth_Cons split: nat.splits)
qed

lemma ser_scalar: "scalar k \<Longrightarrow> ser h stk k = Inr (Some (key_json k))"
  by (cases k) simp_all

lemma readSnapshot_pairs: "readSnapshot (JArr (map pair_json snapshot)) = Some (Parsed snapshot)"
proof -
  have "list_all (\<lambda>x. snapshot_pair x \<noteq> None) (map pair_json snapshot)"
    by (induction snapshot) (simp_all add: pair_json_def)
  moreover have "map (\<lambda>x. the (snapshot_pair x)) (map pair_json snapshot) = snapshot"
    by (induction snapshot) (simp_all add: pair_json_def)
  ultimately show ?thesis
    by (simp add: readSnapshot_def)
qed

text \<open>The JSON of one \<^verbatim>\<open>[key, values]\<close> entry.\<close>

lemma ser_entry:
  assumes wf: "index_in n s" and p: "p \<in> set (data s)" and k: "scalar (fst p)"
    and he: "he = hp s @ cs" and cell: "he ! b = Arr [fst p, Ref (snd p)]"
    and b: "b < length he" "length (hp s) \<le> b" "b \<notin> set stk"
    and stk: "\<forall>x\<in>set stk. length (hp s) \<le> x"
    and ser: "ser he stk (Ref b) = Inr jo"
  shows "\<exists>js. ser_elems (hp s) [] (elems (hp s) (snd p)) = Inr js
            \<and> jo = Some (JArr [key_json (fst p), JArr js])"
proof -
  let ?h = "hp s" and ?a = "snd p"
  from wf have cl: "closed n ?h" and n: "n \<le> length ?h"
    by (simp_all add: index_in_def closed_def)
  from wf p have a: "?a < n" and arr: "isArray ?h (Ref ?a)"
    by (auto simp: index_in_def list_all_iff)
  from a n he have same: "he ! ?a = ?h ! ?a"
    by (simp add: nth_append)
  with arr a n he have arr': "isArray he (Ref ?a)" and el: "elems he ?a = elems ?h ?a"
    by (simp_all add: isArray_def elems_def)
  from a n b(2) stk have notin: "?a \<notin> set (b # stk)"
    by auto
  from ser b cell obtain js2 where
    js2: "ser_elems he (b # stk) [fst p, Ref ?a] = Inr js2" and jo: "jo = Some (JArr js2)"
    by (auto simp: ser.simps(6) split: sum.splits)
  from js2 ser_scalar [OF k, of he "b # stk"] obtain ja where
    ja: "ser he (b # stk) (Ref ?a) = Inr ja"
    and js2': "js2 = [key_json (fst p), (case ja of None \<Rightarrow> JNull | Some j \<Rightarrow> j)]"
    by (auto split: sum.splits)
  from ja ser_array [OF arr' notin] el obtain js where
    js: "ser_elems he (?a # b # stk) (elems ?h ?a) = Inr js" and ja': "ja = Some (JArr js)"
    by (auto split: sum.splits)
  from ser_fewer_ancestors(2) [OF js, of "[]"] have "ser_elems he [] (elems ?h ?a) = Inr js"
    by simp
  moreover have "ser_elems he [] (elems ?h ?a) = ser_elems ?h [] (elems ?h ?a)"
  proof (rule ser_frame_aux(2) [OF cl])
    from n he show "n \<le> length he"
      by simp
    from n he show "\<forall>a<n. he ! a = ?h ! a"
      by (simp add: nth_append)
    from closed_elems [OF cl a] show "list_all (val_ok n) (elems ?h ?a)" .
    show "\<forall>a<n. (a \<in> set []) = (a \<in> set [])"
      by simp
  qed
  ultimately have "ser_elems ?h [] (elems ?h ?a) = Inr js"
    by simp
  with jo js2' ja' show ?thesis
    by simp
qed

text \<open>What \<^verbatim>\<open>saveToFile\<close> writes is the snapshot of the cache.\<close>

lemma saveToFile_json:
  assumes wf: "index_in n s" and keys: "list_all (\<lambda>p. scalar (fst p)) (data s)"
    and save: "saveToFile w s = (Inr dataJson, s1)"
  shows "dataJson = JArr (map pair_json (snapshot_of s))
       \<and> (\<forall>p\<in>set (data s). \<exists>js. ser_elems (hp s) [] (elems (hp s) (snd p)) = Inr js)"
proof -
  let ?h = "hp s" and ?m = "data s"
  let ?N = "length ?h" and ?M = "length ?m"
  let ?cs = "map (\<lambda>p. Arr [fst p, Ref (snd p)]) ?m @ [Arr (map Ref [?N..<?N + ?M])]"
  let ?he = "?h @ ?cs"
  from save have top: "ser ?he [] (Ref (?N + ?M)) = Inr (Some dataJson)"
    by (auto simp: saveToFile_def entries_def split: sum.splits option.splits writeResult.splits)
  have outer: "?he ! (?N + ?M) = Arr (map Ref [?N..<?N + ?M])"
    by (simp add: nth_append)
  have len: "length ?he = Suc (?N + ?M)"
    by simp
  from top outer len obtain js where
    js: "ser_elems ?he [?N + ?M] (map Ref [?N..<?N + ?M]) = Inr js" and J: "dataJson = JArr js"
    by (auto simp: ser.simps(6) split: sum.splits simp del: length_append)
  from ser_elems_nth [OF js] have ljs: "length js = ?M"
    and each: "\<forall>i<?M. \<exists>jo. ser ?he [?N + ?M] (Ref (?N + i)) = Inr jo
        \<and> js ! i = (case jo of None \<Rightarrow> JNull | Some j \<Rightarrow> j)"
    by simp_all
  have entry: "\<exists>jsi. ser_elems ?h [] (elems ?h (snd (?m ! i))) = Inr jsi
      \<and> js ! i = JArr [key_json (fst (?m ! i)), JArr jsi]" if i: "i < ?M" for i
  proof -
    from each i obtain jo where jo: "ser ?he [?N + ?M] (Ref (?N + i)) = Inr jo"
      and ji: "js ! i = (case jo of None \<Rightarrow> JNull | Some j \<Rightarrow> j)"
      by blast
    from i have p: "?m ! i \<in> set ?m"
      by simp
    with keys have k: "scalar (fst (?m ! i))"
      by (simp add: list_all_iff)
    from i have cell: "?he ! (?N + i) = Arr [fst (?m ! i), Ref (snd (?m ! i))]"
      by (simp add: nth_append)
    from i have b: "?N + i < length ?he" "?N \<le> ?N + i" "?N + i \<notin> set [?N + ?M]"
      by simp_all
    have stk: "\<forall>x\<in>set [?N + ?M]. ?N \<le> x"
      by simp
    from ser_entry [OF wf p k refl cell b stk jo] ji show ?thesis
      by auto
  qed
  have 1: "js = map pair_json (snapshot_of s)"
  proof (rule nth_equalityI)
    from ljs show "length js = length (map pair_json (snapshot_of s))"
      by (simp add: snapshot_of_def)
    fix i
    assume "i < length js"
    with ljs have i: "i < ?M"
      by simp
    from entry [OF i] i show "js ! i = map pair_json (snapshot_of s) ! i"
      by (auto simp: snapshot_of_def pair_json_def)
  qed
  have 2: "\<forall>p\<in>set ?m. \<exists>js. ser_elems ?h [] (elems ?h (snd p)) = Inr js"
  proof
    fix p
    assume "p \<in> set ?m"
    then obtain i where "i < ?M" and "?m ! i = p"
      by (auto simp: in_set_conv_nth)
    with entry [of i] show "\<exists>js. ser_elems ?h [] (elems ?h (snd p)) = Inr js"
      by auto
  qed
  from 1 2 J show ?thesis
    by simp
qed

text \<open>\<^verbatim>\<open>getAll\<close> gives, by value, the records of the snapshot in order.\<close>

lemma getAll_snapshot:
  assumes wf: "index_in n s"
    and ok: "\<forall>p\<in>set (data s). \<exists>js. ser_elems (hp s) [] (elems (hp s) (snd p)) = Inr js"
  shows "result_json (getAll s) = Inr (Some (JArr (concat (map snd (snapshot_of s)))))"
proof -
  let ?h = "hp s" and ?m = "data s"
  let ?items = "concat (map (\<lambda>p. elems ?h (snd p)) ?m)"
  let ?h' = "?h @ [Arr ?items]"
  from wf have cl: "closed n ?h" and n: "n \<le> length ?h"
    by (simp_all add: index_in_def closed_def)
  have vals: "list_all (val_ok n) ?items"
  proof -
    have "list_all (val_ok n) (elems ?h (snd p))" if "p \<in> set ?m" for p
    proof -
      from wf that have "snd p < n"
        by (auto simp: index_in_def list_all_iff)
      from closed_elems [OF cl this] show ?thesis .
    qed
    then show ?thesis
      by (auto simp: list_all_iff)
  qed
  have "ser_elems ?h' [length ?h] ?items = ser_elems ?h [] ?items"
  proof (rule ser_frame_aux(2) [OF cl])
    from n show "n \<le> length ?h'"
      by simp
    from n show "\<forall>a<n. ?h' ! a = ?h ! a"
      by (simp add: nth_append)
    from vals show "list_all (val_ok n) ?items" .
    from n show "\<forall>a<n. (a \<in> set [length ?h]) = (a \<in> set [])"
      by auto
  qed
  moreover have "ser_elems ?h [] ?items = Inr (concat (map snd (snapshot_of s)))"
  proof (rule ser_elems_concat)
    from ok show "list_all2 (\<lambda>xs js. ser_elems ?h [] xs = Inr js)
        (map (\<lambda>p. elems ?h (snd p)) ?m) (map snd (snapshot_of s))"
      by (auto simp: snapshot_of_def list_all2_map1 list_all2_map2 intro!: list_all2_same [THEN iffD2])
  qed
  ultimately have "ser_elems ?h' [length ?h] ?items = Inr (concat (map snd (snapshot_of s)))"
    by simp
  then show ?thesis
    by (simp add: getAll_json ser.simps(6))
qed

lemma build_key: "scalar k \<Longrightarrow> build (key_json k) h = (k, h)"
  by (cases k) simp_all

lemma new_Map_distinct:
  assumes "distinct (map fst ps)"
  shows "new_Map ps = ps"
proof -
  have "foldl (\<lambda>m p. map_set m (fst p) (snd p)) acc ps = acc @ ps"
    if "distinct (map fst (acc @ ps))" for acc
    using that
  proof (induction ps arbitrary: acc)
    case Nil
    then show ?case by simp
  next
    case (Cons p ps)
    from Cons.prems have "fst p \<notin> fst ` set acc"
      by auto
    then have "map_get acc (fst p) = None"
      by (simp add: map_get_def map_of_eq_None_iff)
    from map_set_absent [OF this] have 1: "map_set acc (fst p) (snd p) = acc @ [p]"
      by simp
    from Cons.prems have "distinct (map fst ((acc @ [p]) @ ps))"
      by simp
    from Cons.IH [OF this] 1 show ?case
      by simp
  qed
  from this [of "[]"] assms show ?thesis
    by (simp add: new_Map_def)
qed

text \<open>
  The arrays that \<^verbatim>\<open>JSON.parse\<close> makes of a snapshot with scalar keys: the keys come back,
  and the list of each pair has the JSON it was parsed from.
\<close>

lemma build_pairs_snapshot:
  assumes "build_pairs snapshot h = (pairs, h1)"
    and "list_all2 (\<lambda>q k. scalar k \<and> fst q = key_json k) snapshot ks"
  shows "map fst pairs = ks
       \<and> list_all2 (\<lambda>p q. \<forall>ext stk. (\<forall>a\<in>set stk. a < length h \<or> length h1 \<le> a) \<longrightarrow>
              ser_elems (h1 @ ext) stk (elems h1 (snd p)) = Inr (snd q)) pairs snapshot"
  using assms
proof (induction snapshot arbitrary: h pairs h1 ks)
  case Nil
  then show ?case by auto
next
  case (Cons q snapshot)
  from Cons.prems(2) obtain k ks' where ks: "ks = k # ks'" and k: "scalar k" "fst q = key_json k"
    and rest: "list_all2 (\<lambda>q k. scalar k \<and> fst q = key_json k) snapshot ks'"
    by (auto simp: list_all2_Cons1)
  obtain vs h' where be: "build_elems (snd q) h = (vs, h')"
    by (cases "build_elems (snd q) h")
  let ?h2 = "h' @ [Arr vs]"
  obtain ps h3 where bp: "build_pairs snapshot ?h2 = (ps, h3)"
    by (cases "build_pairs snapshot ?h2")
  from Cons.prems(1) k be bp build_key [OF k(1), of h]
  have pairs: "pairs = (k, length h') # ps" and h1: "h1 = h3"
    by (simp_all add: the_addr_def)
  from build_pairs_arrays [OF bp] obtain cs where h3: "h3 = ?h2 @ cs"
    by blast
  from build_length(2) [of h "snd q"] be have le: "length h \<le> length h'"
    by simp
  note IH = Cons.IH [OF bp rest]
  have el: "elems h3 (length h') = vs"
    using h3 by (simp add: elems_def nth_append)
  have head: "ser_elems (h3 @ ext) stk (elems h3 (length h')) = Inr (snd q)"
    if "\<forall>a\<in>set stk. a < length h \<or> length h3 \<le> a" for ext stk
  proof -
    from that h3 have "\<forall>a\<in>set stk. a < length h \<or> length (snd (build_elems (snd q) h)) \<le> a"
      using be by auto
    from build_ser(2) [OF this, of "[Arr vs] @ cs @ ext"] be el h3 show ?thesis
      by simp
  qed
  have tail: "list_all2 (\<lambda>p q. \<forall>ext stk. (\<forall>a\<in>set stk. a < length h \<or> length h3 \<le> a) \<longrightarrow>
      ser_elems (h3 @ ext) stk (elems h3 (snd p)) = Inr (snd q)) ps snapshot"
  proof (rule list_all2_mono [OF IH [THEN conjunct2]])
    fix p q'
    assume a: "\<forall>ext stk. (\<forall>a\<in>set stk. a < length ?h2 \<or> length h3 \<le> a) \<longrightarrow>
        ser_elems (h3 @ ext) stk (elems h3 (snd p)) = Inr (snd q')"
    show "\<forall>ext stk. (\<forall>a\<in>set stk. a < length h \<or> length h3 \<le> a) \<longrightarrow>
        ser_elems (h3 @ ext) stk (elems h3 (snd p)) = Inr (snd q')"
    proof (intro allI impI)
      fix ext stk
      assume "\<forall>a\<in>set stk. a < length h \<or> length h3 \<le> a"
      with le have "\<forall>a\<in>set stk. a < length ?h2 \<or> length h3 \<le> a"
        by auto
      with a show "ser_elems (h3 @ ext) stk (elems h3 (snd p)) = Inr (snd q')"
        by blast
    qed
  qed
  from IH pairs ks h1 head tail show ?case
    by simp
qed

lemma loadCacheFromFile_plain:
  assumes "itemClass cfg = None" and "build_pairs snapshot (hp t) = (pairs, h1)"
  shows "loadCacheFromFile cfg now (Parsed snapshot) t
       = publish now (t\<lparr>hp := h1, data := new_Map pairs\<rparr>)"
  using assms by (simp add: loadCacheFromFile_def setData_def)

text \<open>
  Without a record class, \<^verbatim>\<open>getAll\<close> on a cache loaded from a snapshot with distinct scalar
  keys gives the records of the snapshot, in order.
\<close>

lemma reload_getAll_plain:
  assumes none: "itemClass cfg = None"
    and keys: "list_all2 (\<lambda>q k. scalar k \<and> fst q = key_json k) snapshot ks"
    and dist: "distinct ks"
  shows "result_json (getAll (loadCacheFromFile cfg now (Parsed snapshot) t))
       = Inr (Some (JArr (concat (map snd snapshot))))"
proof -
  obtain pairs h1 where bp: "build_pairs snapshot (hp t) = (pairs, h1)"
    by (cases "build_pairs snapshot (hp t)")
  note B = build_pairs_snapshot [OF bp keys]
  from B dist have "distinct (map fst pairs)"
    by simp
  from new_Map_distinct [OF this] loadCacheFromFile_plain [OF none bp]
  have t': "loadCacheFromFile cfg now (Parsed snapshot) t = publish now (t\<lparr>hp := h1, data := pairs\<rparr>)"
    by simp
  let ?items = "concat (map (\<lambda>p. elems h1 (snd p)) pairs)"
  have "ser_elems (h1 @ [Arr ?items]) [length h1] ?items = Inr (concat (map snd snapshot))"
  proof (rule ser_elems_concat)
    have "list_all2 (\<lambda>p q. ser_elems (h1 @ [Arr ?items]) [length h1] (elems h1 (snd p)) = Inr (snd q))
        pairs snapshot"
      by (rule list_all2_mono [OF B [THEN conjunct2]]) simp
    then show "list_all2 (\<lambda>xs js. ser_elems (h1 @ [Arr ?items]) [length h1] xs = Inr js)
        (map (\<lambda>p. elems h1 (snd p)) pairs) (map snd snapshot)"
      by (simp add: list_all2_map1 list_all2_map2)
  qed
  with t' show ?thesis
    by (simp add: getAll_json ser.simps(6))
qed

lemma snapshot_of_keys:
  assumes "list_all (\<lambda>p. scalar (fst p)) (data s)"
  shows "list_all2 (\<lambda>q k. scalar k \<and> fst q = key_json k) (snapshot_of s) (map fst (data s))"
  using assms
  by (simp add: snapshot_of_def list_all2_map1 list_all2_map2 list_all_iff list_all2_same)

section \<open>Records rebuilt from a snapshot\<close>

text \<open>
  \<^verbatim>\<open>JSON.stringify\<close> of what \<^verbatim>\<open>JSON.parse\<close> has built gives the JSON back on every heap that
  agrees with the one after parsing on the cells that parsing has created.
\<close>

lemma build_ser_seg:
  "agrees (length h) (length (snd (build j h))) H (snd (build j h)) \<Longrightarrow>
   avoids (length h) (length (snd (build j h))) stk \<Longrightarrow>
   ser H stk (fst (build j h)) = Inr (Some j)"
  "agrees (length h) (length (snd (build_elems js h))) H (snd (build_elems js h)) \<Longrightarrow>
   avoids (length h) (length (snd (build_elems js h))) stk \<Longrightarrow>
   ser_elems H stk (fst (build_elems js h)) = Inr js"
  "agrees (length h) (length (snd (build_props ps h))) H (snd (build_props ps h)) \<Longrightarrow>
   avoids (length h) (length (snd (build_props ps h))) stk \<Longrightarrow>
   ser_props H stk (fst (build_props ps h)) = Inr ps"
proof (induction j h and js h and ps h arbitrary: stk and stk and stk
    rule: build_build_elems_build_props.induct)
  case (5 js h)
  obtain vs h1 where b: "build_elems js h = (vs, h1)"
    by (cases "build_elems js h")
  from build_length(2) [of h js] b have le: "length h \<le> length h1"
    by simp
  from 5(2) b have ag: "agrees (length h) (Suc (length h1)) H (h1 @ [Arr vs])"
    by simp
  from 5(3) b have av: "avoids (length h) (Suc (length h1)) stk"
    by simp
  from ag le have cell: "H ! length h1 = Arr vs" and lt: "length h1 < length H"
    by (auto simp: agrees_def)
  from av le have notin: "length h1 \<notin> set stk"
    by (fastforce simp: avoids_def)
  from ag have ag1: "agrees (length h) (length (snd (build_elems js h))) H (snd (build_elems js h))"
    using b by (auto simp: agrees_def nth_append)
  from av have av1: "avoids (length h) (length (snd (build_elems js h))) (length h1 # stk)"
    using b by (auto simp: avoids_def)
  from 5(1) [OF ag1 av1] b have "ser_elems H (length h1 # stk) vs = Inr js"
    by simp
  with notin lt cell b show ?case
    by (simp add: ser.simps(6))
next
  case (6 ps h)
  obtain vs h1 where b: "build_props ps h = (vs, h1)"
    by (cases "build_props ps h")
  from build_length(3) [of h ps] b have le: "length h \<le> length h1"
    by simp
  from 6(2) b have ag: "agrees (length h) (Suc (length h1)) H (h1 @ [Obj vs])"
    by simp
  from 6(3) b have av: "avoids (length h) (Suc (length h1)) stk"
    by simp
  from ag le have cell: "H ! length h1 = Obj vs" and lt: "length h1 < length H"
    by (auto simp: agrees_def)
  from av le have notin: "length h1 \<notin> set stk"
    by (fastforce simp: avoids_def)
  from ag have ag1: "agrees (length h) (length (snd (build_props ps h))) H (snd (build_props ps h))"
    using b by (auto simp: agrees_def nth_append)
  from av have av1: "avoids (length h) (length (snd (build_props ps h))) (length h1 # stk)"
    using b by (auto simp: avoids_def)
  from 6(1) [OF ag1 av1] b have "ser_props H (length h1 # stk) vs = Inr ps"
    by simp
  with notin lt cell b show ?case
    by (simp add: ser.simps(6))
next
  case (8 j js h)
  obtain v h1 where b1: "build j h = (v, h1)"
    by (cases "build j h")
  obtain vs h2 where b2: "build_elems js h1 = (vs, h2)"
    by (cases "build_elems js h1")
  from build_appends(2) [of js h1] b2 obtain cs where cs: "h2 = h1 @ cs"
    by auto
  from build_length(1) [of h j] b1 have le: "length h \<le> length h1"
    by simp
  from 8(3) b1 b2 have ag: "agrees (length h) (length h2) H h2"
    by simp
  from 8(4) b1 b2 have av: "avoids (length h) (length h2) stk"
    by simp
  have ag1: "agrees (length h) (length (snd (build j h))) H (snd (build j h))"
    using ag b1 cs by (auto simp: agrees_def nth_append)
  have av1: "avoids (length h) (length (snd (build j h))) stk"
    using av b1 cs by (auto simp: avoids_def)
  from 8(1) [OF ag1 av1] b1 have s1: "ser H stk v = Inr (Some j)"
    by simp
  have ag2: "agrees (length h1) (length (snd (build_elems js h1))) H (snd (build_elems js h1))"
    using ag b2 le by (auto simp: agrees_def)
  have av2: "avoids (length h1) (length (snd (build_elems js h1))) stk"
    using av b2 le by (auto simp: avoids_def)
  from 8(2) [OF b1 [symmetric] ag2 av2] b2 have s2: "ser_elems H stk vs = Inr js"
    by simp
  from s1 s2 b1 b2 show ?case
    by simp
next
  case (10 p ps h)
  obtain v h1 where b1: "build (snd p) h = (v, h1)"
    by (cases "build (snd p) h")
  obtain vs h2 where b2: "build_props ps h1 = (vs, h2)"
    by (cases "build_props ps h1")
  from build_appends(3) [of ps h1] b2 obtain cs where cs: "h2 = h1 @ cs"
    by auto
  from build_length(1) [of h "snd p"] b1 have le: "length h \<le> length h1"
    by simp
  from 10(3) b1 b2 have ag: "agrees (length h) (length h2) H h2"
    by simp
  from 10(4) b1 b2 have av: "avoids (length h) (length h2) stk"
    by simp
  have ag1: "agrees (length h) (length (snd (build (snd p) h))) H (snd (build (snd p) h))"
    using ag b1 cs by (auto simp: agrees_def nth_append)
  have av1: "avoids (length h) (length (snd (build (snd p) h))) stk"
    using av b1 cs by (auto simp: avoids_def)
  from 10(1) [OF ag1 av1] b1 have s1: "ser H stk v = Inr (Some (snd p))"
    by simp
  have ag2: "agrees (length h1) (length (snd (build_props ps h1))) H (snd (build_props ps h1))"
    using ag b2 le by (auto simp: agrees_def)
  have av2: "avoids (length h1) (length (snd (build_props ps h1))) stk"
    using av b2 le by (auto simp: avoids_def)
  from 10(2) [OF b1 [symmetric] ag2 av2] b2 have s2: "ser_props H stk vs = Inr ps"
    by simp
  from s1 s2 b1 b2 show ?case
    by simp
qed simp_all

lemma props_rep_append: "props_rep L U h fs props \<Longrightarrow> U \<le> length h \<Longrightarrow> props_rep L U (h @ cs) fs props"
  by (simp add: props_rep_def agrees_def nth_append)

text \<open>
  The parsed form of an object: a reference to an \<open>Obj\<close> cell whose fields have the JSON
  of the object wherever the cells parsed for them are left alone.
\<close>

lemma build_object:
  assumes "build (JObj props) h = (v, h1)"
  obtains fs where "v = Ref (length h1 - 1)" "length h < length h1" "h1 ! (length h1 - 1) = Obj fs"
    "props_rep (length h) (length h1 - 1) h1 fs props"
proof -
  obtain fs hp where bp: "build_props props h = (fs, hp)"
    by (cases "build_props props h")
  with assms have v: "v = Ref (length hp)" and h1: "h1 = hp @ [Obj fs]"
    by simp_all
  from build_length(3) [of h props] bp have le: "length h \<le> length hp"
    by simp
  have "props_rep (length h) (length hp) hp fs props"
    unfolding props_rep_def
  proof (intro allI impI)
    fix H stk
    assume "agrees (length h) (length hp) H hp \<and> avoids (length h) (length hp) stk"
    with build_ser_seg(3) [of h props H stk] bp show "ser_props H stk fs = Inr props"
      by simp
  qed
  from props_rep_append [OF this, of "[Obj fs]"] have "props_rep (length h) (length hp) h1 fs props"
    using h1 by simp
  with v h1 le that [of fs] show ?thesis
    by simp
qed

lemma rec_rep_mono:
  assumes "rec_rep A l h v j" and "l' \<le> l" and "\<forall>a\<in>A'. a \<in> A \<or> a < l \<or> length h \<le> a"
  shows "rec_rep A' l' (h @ cs) v j"
proof -
  from assms(1) obtain b fs props L where r: "v = Ref b" "j = JObj props" "l \<le> L" "L \<le> b"
    "b < length h" "h ! b = Obj fs" "\<forall>a\<in>A. a < L \<or> b < a" "props_rep L b h fs props"
    unfolding rec_rep_def by blast
  from r(5) have "b \<le> length h"
    by simp
  from props_rep_append [OF r(8) this] have p: "props_rep L b (h @ cs) fs props" .
  have "\<forall>a\<in>A'. a < L \<or> b < a"
  proof
    fix a
    assume "a \<in> A'"
    with assms(3) have "a \<in> A \<or> a < l \<or> length h \<le> a"
      by blast
    with r(3,5,7) show "a < L \<or> b < a"
      by auto
  qed
  with r assms(2) p show ?thesis
    unfolding rec_rep_def
    by (intro exI [of _ b] exI [of _ fs] exI [of _ props] exI [of _ L]) (simp add: nth_append)
qed

lemma build_elems_objects:
  assumes "build_elems js h = (vs, h')" and "\<forall>j\<in>set js. \<exists>props. j = JObj props"
  shows "list_all2 (rec_rep {} (length h) h') vs js"
  using assms
proof (induction js arbitrary: h vs h')
  case Nil
  then show ?case by simp
next
  case (Cons j js)
  from Cons.prems(2) obtain props where j: "j = JObj props"
    by auto
  obtain v h1 where b1: "build j h = (v, h1)"
    by (cases "build j h")
  obtain vs' h2 where b2: "build_elems js h1 = (vs', h2)"
    by (cases "build_elems js h1")
  from Cons.prems(1) b1 b2 have vs: "vs = v # vs'" and h': "h' = h2"
    by simp_all
  from build_appends(2) [of js h1] b2 obtain cs where cs: "h2 = h1 @ cs"
    by auto
  from b1 j have "build (JObj props) h = (v, h1)"
    by simp
  then obtain fs where o: "v = Ref (length h1 - 1)" "length h < length h1"
    "h1 ! (length h1 - 1) = Obj fs" "props_rep (length h) (length h1 - 1) h1 fs props"
    by (rule build_object)
  from o j have "rec_rep {} (length h) h1 v j"
    unfolding rec_rep_def by auto
  from rec_rep_mono [OF this, of "length h" "{}" cs] cs
  have head: "rec_rep {} (length h) h2 v j"
    by simp
  from Cons.prems(2) have "\<forall>j\<in>set js. \<exists>props. j = JObj props"
    by simp
  note IH = Cons.IH [OF b2 this]
  have tail: "list_all2 (rec_rep {} (length h) h2) vs' js"
  proof (rule list_all2_mono [OF IH])
    fix w j'
    assume "rec_rep {} (length h1) h2 w j'"
    from rec_rep_mono [OF this, of "length h" "{}" "[]"] o(2)
    show "rec_rep {} (length h) h2 w j'"
      by simp
  qed
  from head tail vs h' show ?case
    by simp
qed

text \<open>
  The arrays that \<^verbatim>\<open>JSON.parse\<close> makes of a snapshot whose records are objects: one new array
  for each pair, at different addresses, holding parsed records.
\<close>

lemma build_pairs_objects:
  assumes "build_pairs snapshot h = (pairs, h1)"
    and "\<forall>q\<in>set snapshot. \<forall>j\<in>set (snd q). \<exists>props. j = JObj props"
  shows "list_all2 (\<lambda>p q. length h \<le> snd p \<and> snd p < length h1
             \<and> (\<exists>vs. h1 ! snd p = Arr vs
                  \<and> list_all2 (rec_rep (snd ` set pairs) (length h) h1) vs (snd q))) pairs snapshot
       \<and> distinct (map snd pairs)"
  using assms
proof (induction snapshot arbitrary: h pairs h1)
  case Nil
  then show ?case by auto
next
  case (Cons q snapshot)
  obtain k hk where bk: "build (fst q) h = (k, hk)"
    by (cases "build (fst q) h")
  obtain vs h' where be: "build_elems (snd q) hk = (vs, h')"
    by (cases "build_elems (snd q) hk")
  let ?h2 = "h' @ [Arr vs]"
  obtain ps h3 where bp: "build_pairs snapshot ?h2 = (ps, h3)"
    by (cases "build_pairs snapshot ?h2")
  from Cons.prems(1) bk be bp
  have pairs: "pairs = (k, length h') # ps" and h1: "h1 = h3"
    by (simp_all add: the_addr_def)
  from build_pairs_arrays [OF bp] obtain cs where h3: "h3 = ?h2 @ cs"
    by blast
  from build_length(1) [of h "fst q"] bk have le1: "length h \<le> length hk"
    by simp
  from build_length(2) [of hk "snd q"] be have le2: "length hk \<le> length h'"
    by simp
  from Cons.prems(2) have objs: "\<forall>j\<in>set (snd q). \<exists>props. j = JObj props"
    and rest: "\<forall>q\<in>set snapshot. \<forall>j\<in>set (snd q). \<exists>props. j = JObj props"
    by simp_all
  note IH = Cons.IH [OF bp rest]
  have far: "\<forall>p\<in>set ps. length ?h2 \<le> snd p"
  proof
    fix p
    assume "p \<in> set ps"
    then obtain i where i: "i < length ps" and p: "ps ! i = p"
      by (auto simp: in_set_conv_nth)
    from list_all2_nthD [OF IH [THEN conjunct1] i] p show "length ?h2 \<le> snd p"
      by simp
  qed
  have cell: "h3 ! length h' = Arr vs"
    using h3 by (simp add: nth_append)
  have recs: "list_all2 (rec_rep (snd ` set pairs) (length h) h3) vs (snd q)"
  proof (rule list_all2_mono [OF build_elems_objects [OF be objs]])
    fix w j
    assume r: "rec_rep {} (length hk) h' w j"
    have "\<forall>a\<in>snd ` set pairs. a \<in> {} \<or> a < length hk \<or> length h' \<le> a"
      using pairs far by auto
    from rec_rep_mono [OF r le1 this, of "[Arr vs] @ cs"] h3
    show "rec_rep (snd ` set pairs) (length h) h3 w j"
      by simp
  qed
  have head: "length h \<le> length h' \<and> length h' < length h3
      \<and> (\<exists>vs. h3 ! length h' = Arr vs
           \<and> list_all2 (rec_rep (snd ` set pairs) (length h) h3) vs (snd q))"
    using le1 le2 h3 cell recs by simp
  have tail: "list_all2 (\<lambda>p q. length h \<le> snd p \<and> snd p < length h3
             \<and> (\<exists>vs. h3 ! snd p = Arr vs
                  \<and> list_all2 (rec_rep (snd ` set pairs) (length h) h3) vs (snd q))) ps snapshot"
  proof (rule list_all2_mono [OF IH [THEN conjunct1]])
    fix p q'
    assume a: "length ?h2 \<le> snd p \<and> snd p < length h3
        \<and> (\<exists>vs. h3 ! snd p = Arr vs \<and> list_all2 (rec_rep (snd ` set ps) (length ?h2) h3) vs (snd q'))"
    then obtain ws where ws: "h3 ! snd p = Arr ws"
      and r: "list_all2 (rec_rep (snd ` set ps) (length ?h2) h3) ws (snd q')"
      by blast
    have "list_all2 (rec_rep (snd ` set pairs) (length h) h3) ws (snd q')"
    proof (rule list_all2_mono [OF r])
      fix w j
      assume r1: "rec_rep (snd ` set ps) (length ?h2) h3 w j"
      have l: "length h \<le> length ?h2"
        using le1 le2 by simp
      have "\<forall>a\<in>snd ` set pairs. a \<in> snd ` set ps \<or> a < length ?h2 \<or> length h3 \<le> a"
        using pairs by auto
      from rec_rep_mono [OF r1 l this, of "[]"]
      show "rec_rep (snd ` set pairs) (length h) h3 w j"
        by simp
    qed
    with a ws le1 le2
    show "length h \<le> snd p \<and> snd p < length h3
        \<and> (\<exists>vs. h3 ! snd p = Arr vs \<and> list_all2 (rec_rep (snd ` set pairs) (length h) h3) vs (snd q'))"
      by auto
  qed
  have "length h' \<notin> snd ` set ps"
    using far by auto
  with IH have dist: "distinct (map snd pairs)"
    using pairs by simp
  from head tail dist pairs h1 show ?case
    by simp
qed

text \<open>
  The construction loop with such a class, on an array of objects: each element that the
  loop visits is replaced by a new object with the same fields.
\<close>

lemma construct_elems_copy:
  assumes cf: "copies_fields c"
    and a: "a < length h" "h ! a = Arr ws"
    and d: "distinct js"
    and el: "\<forall>i\<in>set js. i < length ws \<and> (\<exists>b fs. ws ! i = Ref b \<and> b < length h \<and> h ! b = Obj fs)"
  shows "\<exists>h' ws'. construct_elems c a js h = (Inr (), h') \<and> length h \<le> length h'
       \<and> (\<forall>x<length h. x \<noteq> a \<longrightarrow> h' ! x = h ! x) \<and> h' ! a = Arr ws' \<and> length ws' = length ws
       \<and> (\<forall>i<length ws.
            if i \<in> set js
            then (\<exists>b fs r. ws ! i = Ref b \<and> h ! b = Obj fs \<and> ws' ! i = Ref r
                    \<and> length h \<le> r \<and> r < length h' \<and> h' ! r = Obj fs)
            else ws' ! i = ws ! i)"
  using a d el
proof (induction js arbitrary: h ws)
  case Nil
  then show ?case by simp
next
  case (Cons i js)
  note a = Cons.prems(1,2)
  from Cons.prems(3) have ni: "i \<notin> set js" and d: "distinct js"
    by simp_all
  from Cons.prems(4) obtain b fs where i: "i < length ws" and b: "ws ! i = Ref b" "b < length h"
    "h ! b = Obj fs"
    by auto
  from a b have ba: "b \<noteq> a"
    by auto
  from a have el: "elems h a = ws"
    by (simp add: elems_def)
  from cf b have "c h (Ref b) = Inr fs"
    by (simp add: copies_fields_def)
  then have ni1: "new_Item c (elems h a ! i) h = (Inr (Ref (length h)), h @ [Obj fs])"
    using el b by (simp add: new_Item_def)
  let ?h1 = "h @ [Obj fs]"
  let ?ws2 = "ws[i := Ref (length h)]"
  let ?h2 = "?h1[a := Arr ?ws2]"
  from a have el1: "elems ?h1 a = ws"
    by (simp add: elems_def nth_append)
  from ni1 el1 have step: "construct_elems c a (i # js) h = construct_elems c a js ?h2"
    by simp
  from a have a2: "a < length ?h2" "?h2 ! a = Arr ?ws2"
    by simp_all
  have same: "?h2 ! x = h ! x" if "x < length h" "x \<noteq> a" for x
    using that by (simp add: nth_append)
  have el2: "\<forall>k\<in>set js. k < length ?ws2
      \<and> (\<exists>b fs. ?ws2 ! k = Ref b \<and> b < length ?h2 \<and> ?h2 ! b = Obj fs)"
  proof
    fix k
    assume k: "k \<in> set js"
    with Cons.prems(4) obtain b' fs' where k1: "k < length ws" and b': "ws ! k = Ref b'"
      "b' < length h" "h ! b' = Obj fs'"
      by auto
    from k ni have "k \<noteq> i"
      by auto
    with b' have 1: "?ws2 ! k = Ref b'"
      by simp
    from a b' have "b' \<noteq> a"
      by auto
    with same [of b'] b' have "?h2 ! b' = Obj fs'"
      by simp
    with 1 k1 b'(2) show "k < length ?ws2
        \<and> (\<exists>b fs. ?ws2 ! k = Ref b \<and> b < length ?h2 \<and> ?h2 ! b = Obj fs)"
      by auto
  qed
  from Cons.IH [OF a2 d el2] obtain h' ws' where
    r: "construct_elems c a js ?h2 = (Inr (), h')" and len: "length ?h2 \<le> length h'"
    and fr: "\<forall>x<length ?h2. x \<noteq> a \<longrightarrow> h' ! x = ?h2 ! x"
    and arr: "h' ! a = Arr ws'" and lws: "length ws' = length ?ws2"
    and each: "\<forall>k<length ?ws2.
        if k \<in> set js
        then (\<exists>b fs r. ?ws2 ! k = Ref b \<and> ?h2 ! b = Obj fs \<and> ws' ! k = Ref r
                \<and> length ?h2 \<le> r \<and> r < length h' \<and> h' ! r = Obj fs)
        else ws' ! k = ?ws2 ! k"
    by blast
  have new: "h' ! length h = Obj fs"
  proof -
    from a have "length h \<noteq> a" "length h < length ?h2"
      by simp_all
    with fr have "h' ! length h = ?h2 ! length h"
      by blast
    with a show ?thesis
      by (simp add: nth_append)
  qed
  have fr': "\<forall>x<length h. x \<noteq> a \<longrightarrow> h' ! x = h ! x"
  proof (intro allI impI)
    fix x
    assume x: "x < length h" "x \<noteq> a"
    then have "x < length ?h2"
      by simp
    with fr x have "h' ! x = ?h2 ! x"
      by blast
    with same [OF x] show "h' ! x = h ! x"
      by simp
  qed
  have each': "if k \<in> set (i # js)
      then (\<exists>b fs r. ws ! k = Ref b \<and> h ! b = Obj fs \<and> ws' ! k = Ref r
              \<and> length h \<le> r \<and> r < length h' \<and> h' ! r = Obj fs)
      else ws' ! k = ws ! k" if k: "k < length ws" for k
  proof (cases "k = i")
    case True
    with each ni i have "ws' ! i = Ref (length h)"
      by simp
    moreover from len have "length h < length h'"
      by simp
    ultimately show ?thesis
      using True b new by auto
  next
    case False
    show ?thesis
    proof (cases "k \<in> set js")
      case True
      with Cons.prems(4) obtain b' fs' where b': "ws ! k = Ref b'" "b' < length h" "h ! b' = Obj fs'"
        by auto
      from a b' have "b' \<noteq> a"
        by auto
      with same [of b'] b' have h2b: "?h2 ! b' = Obj fs'"
        by simp
      from each k True obtain b2 fs2 r where
        r: "?ws2 ! k = Ref b2" "?h2 ! b2 = Obj fs2" "ws' ! k = Ref r" "length ?h2 \<le> r"
        "r < length h'" "h' ! r = Obj fs2"
        by (auto split: if_splits)
      from r(1) False b' have "b2 = b'"
        by simp
      with r(2) h2b have "fs2 = fs'"
        by simp
      with r b' True show ?thesis
        by auto
    next
      case notin: False
      with each k False show ?thesis
        by simp
    qed
  qed
  from each' have each'': "\<forall>k<length ws.
      if k \<in> set (i # js)
      then (\<exists>b fs r. ws ! k = Ref b \<and> h ! b = Obj fs \<and> ws' ! k = Ref r
              \<and> length h \<le> r \<and> r < length h' \<and> h' ! r = Obj fs)
      else ws' ! k = ws ! k"
    by blast
  from step r have 1: "construct_elems c a (i # js) h = (Inr (), h')"
    by simp
  from len have 2: "length h \<le> length h'"
    by simp
  from lws have 3: "length ws' = length ws"
    by simp
  from 1 2 fr' arr 3 each'' show ?case
    by blast
qed

lemma construct_pairs_copy:
  assumes cf: "copies_fields c"
    and d: "distinct (map snd ps)"
    and pre: "\<forall>p\<in>set ps. snd p < length h
        \<and> (\<exists>ws. h ! snd p = Arr ws \<and> (\<forall>w\<in>set ws. \<exists>b fs. w = Ref b \<and> b < length h \<and> h ! b = Obj fs))"
  shows "\<exists>h'. construct_pairs c ps h = (Inr (), h') \<and> length h \<le> length h'
       \<and> (\<forall>x<length h. x \<notin> snd ` set ps \<longrightarrow> h' ! x = h ! x)
       \<and> (\<forall>p\<in>set ps. \<exists>ws ws'. h ! snd p = Arr ws \<and> h' ! snd p = Arr ws'
            \<and> list_all2 (\<lambda>w w'. \<exists>b fs r. w = Ref b \<and> h ! b = Obj fs \<and> w' = Ref r
                   \<and> length h \<le> r \<and> r < length h' \<and> h' ! r = Obj fs) ws ws')"
  using d pre
proof (induction ps arbitrary: h)
  case Nil
  then show ?case by simp
next
  case (Cons p ps)
  let ?a = "snd p"
  from Cons.prems(1) have na: "?a \<notin> snd ` set ps" and d: "distinct (map snd ps)"
    by simp_all
  from Cons.prems(2) obtain ws where a: "?a < length h" "h ! ?a = Arr ws"
    and objs: "\<forall>w\<in>set ws. \<exists>b fs. w = Ref b \<and> b < length h \<and> h ! b = Obj fs"
    by auto
  from a have el: "elems h ?a = ws"
    by (simp add: elems_def)
  have d0: "distinct [0..<length ws]"
    by simp
  from objs have el0: "\<forall>i\<in>set [0..<length ws]. i < length ws
      \<and> (\<exists>b fs. ws ! i = Ref b \<and> b < length h \<and> h ! b = Obj fs)"
    by simp
  from construct_elems_copy [OF cf a d0 el0] obtain h1 ws1 where
    ce: "construct_elems c ?a [0..<length ws] h = (Inr (), h1)" and len1: "length h \<le> length h1"
    and fr1: "\<forall>x<length h. x \<noteq> ?a \<longrightarrow> h1 ! x = h ! x"
    and arr1: "h1 ! ?a = Arr ws1" and lws1: "length ws1 = length ws"
    and each1: "\<forall>i<length ws. \<exists>b fs r. ws ! i = Ref b \<and> h ! b = Obj fs \<and> ws1 ! i = Ref r
        \<and> length h \<le> r \<and> r < length h1 \<and> h1 ! r = Obj fs"
    by auto
  from ce el have step: "construct_pairs c (p # ps) h = construct_pairs c ps h1"
    by simp
  have keep: "h1 ! b = h ! b" if "b < length h" "h ! b = Obj fs" for b fs
  proof -
    from that a have "b \<noteq> ?a"
      by auto
    with fr1 that show ?thesis
      by simp
  qed
  have pre1: "\<forall>q\<in>set ps. snd q < length h1
      \<and> (\<exists>ws. h1 ! snd q = Arr ws
           \<and> (\<forall>w\<in>set ws. \<exists>b fs. w = Ref b \<and> b < length h1 \<and> h1 ! b = Obj fs))"
  proof
    fix q
    assume q: "q \<in> set ps"
    with Cons.prems(2) obtain wq where q1: "snd q < length h" "h ! snd q = Arr wq"
      and q2: "\<forall>w\<in>set wq. \<exists>b fs. w = Ref b \<and> b < length h \<and> h ! b = Obj fs"
      by auto
    from q na have "snd q \<noteq> ?a"
      by (metis imageI)
    with fr1 q1 have c1: "h1 ! snd q = Arr wq"
      by simp
    have "\<forall>w\<in>set wq. \<exists>b fs. w = Ref b \<and> b < length h1 \<and> h1 ! b = Obj fs"
    proof
      fix w
      assume "w \<in> set wq"
      with q2 obtain b fs where "w = Ref b" "b < length h" "h ! b = Obj fs"
        by blast
      with keep [of b fs] len1 show "\<exists>b fs. w = Ref b \<and> b < length h1 \<and> h1 ! b = Obj fs"
        by auto
    qed
    with c1 q1 len1 show "snd q < length h1
      \<and> (\<exists>ws. h1 ! snd q = Arr ws
           \<and> (\<forall>w\<in>set ws. \<exists>b fs. w = Ref b \<and> b < length h1 \<and> h1 ! b = Obj fs))"
      by auto
  qed
  from Cons.IH [OF d pre1] obtain h' where
    r: "construct_pairs c ps h1 = (Inr (), h')" and len: "length h1 \<le> length h'"
    and fr: "\<forall>x<length h1. x \<notin> snd ` set ps \<longrightarrow> h' ! x = h1 ! x"
    and all: "\<forall>q\<in>set ps. \<exists>ws ws'. h1 ! snd q = Arr ws \<and> h' ! snd q = Arr ws'
        \<and> list_all2 (\<lambda>w w'. \<exists>b fs r. w = Ref b \<and> h1 ! b = Obj fs \<and> w' = Ref r
               \<and> length h1 \<le> r \<and> r < length h' \<and> h' ! r = Obj fs) ws ws'"
    by blast
  from Cons.prems(2) have below: "\<forall>q\<in>set ps. snd q < length h"
    by simp
  have frame: "\<forall>x<length h. x \<notin> snd ` set (p # ps) \<longrightarrow> h' ! x = h ! x"
  proof (intro allI impI)
    fix x
    assume x: "x < length h" "x \<notin> snd ` set (p # ps)"
    with len1 fr have "h' ! x = h1 ! x"
      by simp
    with fr1 x show "h' ! x = h ! x"
      by simp
  qed
  have head: "\<exists>ws ws'. h ! ?a = Arr ws \<and> h' ! ?a = Arr ws'
      \<and> list_all2 (\<lambda>w w'. \<exists>b fs r. w = Ref b \<and> h ! b = Obj fs \<and> w' = Ref r
             \<and> length h \<le> r \<and> r < length h' \<and> h' ! r = Obj fs) ws ws'"
  proof -
    from a len1 na fr have "h' ! ?a = h1 ! ?a"
      by simp
    with arr1 have c': "h' ! ?a = Arr ws1"
      by simp
    have "list_all2 (\<lambda>w w'. \<exists>b fs r. w = Ref b \<and> h ! b = Obj fs \<and> w' = Ref r
             \<and> length h \<le> r \<and> r < length h' \<and> h' ! r = Obj fs) ws ws1"
      unfolding list_all2_conv_all_nth
    proof (intro conjI allI impI)
      from lws1 show "length ws = length ws1"
        by simp
      fix i
      assume "i < length ws"
      with each1 obtain b fs r where e: "ws ! i = Ref b" "h ! b = Obj fs" "ws1 ! i = Ref r"
        "length h \<le> r" "r < length h1" "h1 ! r = Obj fs"
        by blast
      from e(4) below have "r \<notin> snd ` set ps"
        by auto
      with fr e(5) have "h' ! r = h1 ! r"
        by simp
      with e len show "\<exists>b fs r. ws ! i = Ref b \<and> h ! b = Obj fs \<and> ws1 ! i = Ref r
          \<and> length h \<le> r \<and> r < length h' \<and> h' ! r = Obj fs"
        by auto
    qed
    with a c' show ?thesis
      by blast
  qed
  have tail: "\<exists>ws ws'. h ! snd q = Arr ws \<and> h' ! snd q = Arr ws'
      \<and> list_all2 (\<lambda>w w'. \<exists>b fs r. w = Ref b \<and> h ! b = Obj fs \<and> w' = Ref r
             \<and> length h \<le> r \<and> r < length h' \<and> h' ! r = Obj fs) ws ws'" if q: "q \<in> set ps" for q
  proof -
    from all q obtain wq wq' where w: "h1 ! snd q = Arr wq" "h' ! snd q = Arr wq'"
      and rel: "list_all2 (\<lambda>w w'. \<exists>b fs r. w = Ref b \<and> h1 ! b = Obj fs \<and> w' = Ref r
               \<and> length h1 \<le> r \<and> r < length h' \<and> h' ! r = Obj fs) wq wq'"
      by blast
    from q na have ne: "snd q \<noteq> ?a"
      by (metis imageI)
    from q below have lt: "snd q < length h"
      by simp
    with fr1 ne w have hq: "h ! snd q = Arr wq"
      by simp
    from Cons.prems(2) q hq have objq: "\<forall>w\<in>set wq. \<exists>b fs. w = Ref b \<and> b < length h \<and> h ! b = Obj fs"
      by auto
    have "list_all2 (\<lambda>w w'. \<exists>b fs r. w = Ref b \<and> h ! b = Obj fs \<and> w' = Ref r
             \<and> length h \<le> r \<and> r < length h' \<and> h' ! r = Obj fs) wq wq'"
      unfolding list_all2_conv_all_nth
    proof (intro conjI allI impI)
      from rel show "length wq = length wq'"
        by (rule list_all2_lengthD)
      fix i
      assume i: "i < length wq"
      from list_all2_nthD [OF rel i] obtain b fs r where e: "wq ! i = Ref b" "h1 ! b = Obj fs"
        "wq' ! i = Ref r" "length h1 \<le> r" "r < length h'" "h' ! r = Obj fs"
        by blast
      from objq i e(1) obtain fs0 where b0: "b < length h" "h ! b = Obj fs0"
        by (metis nth_mem val.inject(4))
      from keep [OF b0] e(2) b0 have "h ! b = Obj fs"
        by simp
      with e len1 show "\<exists>b fs r. wq ! i = Ref b \<and> h ! b = Obj fs \<and> wq' ! i = Ref r
          \<and> length h \<le> r \<and> r < length h' \<and> h' ! r = Obj fs"
        by auto
    qed
    with hq w show ?thesis
      by blast
  qed
  from step r have 1: "construct_pairs c (p # ps) h = (Inr (), h')"
    by simp
  from len len1 have 2: "length h \<le> length h'"
    by simp
  from head tail have 3: "\<forall>q\<in>set (p # ps). \<exists>ws ws'. h ! snd q = Arr ws \<and> h' ! snd q = Arr ws'
      \<and> list_all2 (\<lambda>w w'. \<exists>b fs r. w = Ref b \<and> h ! b = Obj fs \<and> w' = Ref r
             \<and> length h \<le> r \<and> r < length h' \<and> h' ! r = Obj fs) ws ws'"
    by simp
  from 1 2 frame 3 show ?case
    by blast
qed

lemma ser_elems_objects:
  assumes "ser_elems h stk xs = Inr js" and "list_all (is_object h) xs"
  shows "\<forall>j\<in>set js. \<exists>props. j = JObj props"
  using assms
proof (induction xs arbitrary: js)
  case Nil
  then show ?case by simp
next
  case (Cons x xs)
  from Cons.prems(1) obtain jo js1 where x: "ser h stk x = Inr jo"
    and xs: "ser_elems h stk xs = Inr js1"
    and js: "js = (case jo of None \<Rightarrow> JNull | Some j \<Rightarrow> j) # js1"
    by (auto split: sum.splits)
  from Cons.prems(2) obtain a ps where "x = Ref a" "a < length h" "h ! a = Obj ps"
    by (auto simp: is_object_def split: val.splits obj.splits)
  with x obtain props where "jo = Some (JObj props)"
    by (auto simp: ser.simps(6) split: if_splits sum.splits)
  with Cons.IH [OF xs] Cons.prems(2) js show ?case
    by simp
qed

lemma snapshot_objects:
  assumes "records_are_objects s"
    and "\<forall>p\<in>set (data s). \<exists>js. ser_elems (hp s) [] (elems (hp s) (snd p)) = Inr js"
  shows "\<forall>q\<in>set (snapshot_of s). \<forall>j\<in>set (snd q). \<exists>props. j = JObj props"
proof
  fix q
  assume "q \<in> set (snapshot_of s)"
  then obtain p where p: "p \<in> set (data s)"
    and q: "snd q = (case ser_elems (hp s) [] (elems (hp s) (snd p)) of Inl e \<Rightarrow> [] | Inr js \<Rightarrow> js)"
    by (auto simp: snapshot_of_def)
  from assms(2) p obtain js where js: "ser_elems (hp s) [] (elems (hp s) (snd p)) = Inr js"
    by blast
  from assms(1) p have "list_all (is_object (hp s)) (elems (hp s) (snd p))"
    by (simp add: records_are_objects_def list_all_iff)
  from ser_elems_objects [OF js this] q js show "\<forall>j\<in>set (snd q). \<exists>props. j = JObj props"
    by simp
qed

lemma ser_elems_all2:
  "list_all2 (\<lambda>w j. ser h stk w = Inr (Some j)) ws js \<Longrightarrow> ser_elems h stk ws = Inr js"
  by (induction rule: list_all2_induct) simp_all

text \<open>
  The JSON of an object that has been constructed with the fields of a parsed record,
  after the construction loops.
\<close>

lemma copied_record_json:
  assumes rep: "rec_rep A l h1 (Ref b) j" and cell: "h1 ! b = Obj fs"
    and new: "h2 ! r = Obj fs" "length h1 \<le> r" "r < length h2"
    and frame: "\<forall>x<length h1. x \<notin> A \<longrightarrow> h2 ! x = h1 ! x"
  shows "ser (h2 @ cs) [length h2] (Ref r) = Inr (Some j)"
proof -
  from rep cell obtain props L where j: "j = JObj props" and b: "L \<le> b" "b < length h1"
    and A: "\<forall>a\<in>A. a < L \<or> b < a" and pr: "props_rep L b h1 fs props"
    unfolding rec_rep_def by auto
  let ?H = "h2 @ cs"
  have "agrees L b ?H h1"
    unfolding agrees_def
  proof (intro conjI allI impI)
    from b new show "b \<le> length ?H"
      by simp
    fix x
    assume x: "L \<le> x \<and> x < b"
    with A have "x \<notin> A"
      by auto
    with frame x b have "h2 ! x = h1 ! x"
      by simp
    with x b new show "?H ! x = h1 ! x"
      by (simp add: nth_append)
  qed
  moreover have "avoids L b [r, length h2]"
    using b new by (simp add: avoids_def)
  ultimately have "ser_props ?H [r, length h2] fs = Inr props"
    using pr unfolding props_rep_def by blast
  with new j show ?thesis
    by (simp add: ser.simps(6) nth_append)
qed

lemma loadCacheFromFile_constructed:
  assumes "itemClass cfg = Some c" and "build_pairs snapshot (hp t) = (pairs, h1)"
    and "construct_pairs c pairs h1 = (Inr (), h2)"
  shows "loadCacheFromFile cfg now (Parsed snapshot) t
       = publish now (t\<lparr>hp := h2, data := new_Map pairs\<rparr>)"
  using assms by (simp add: loadCacheFromFile_def setData_def)

text \<open>
  With a record class that copies fields, \<^verbatim>\<open>getAll\<close> on a cache loaded from a snapshot with
  distinct scalar keys whose records are objects gives the records of the snapshot, in
  order.
\<close>

lemma reload_getAll_copy:
  assumes ic: "itemClass cfg = Some c" and cf: "copies_fields c"
    and keys: "list_all2 (\<lambda>q k. scalar k \<and> fst q = key_json k) snapshot ks"
    and dist: "distinct ks"
    and objs: "\<forall>q\<in>set snapshot. \<forall>j\<in>set (snd q). \<exists>props. j = JObj props"
  shows "result_json (getAll (loadCacheFromFile cfg now (Parsed snapshot) t))
       = Inr (Some (JArr (concat (map snd snapshot))))"
proof -
  obtain pairs h1 where bp: "build_pairs snapshot (hp t) = (pairs, h1)"
    by (cases "build_pairs snapshot (hp t)")
  let ?A = "snd ` set pairs"
  from build_pairs_snapshot [OF bp keys] dist have "distinct (map fst pairs)"
    by simp
  note nm = new_Map_distinct [OF this]
  from build_pairs_objects [OF bp objs]
  have rel: "list_all2 (\<lambda>p q. length (hp t) \<le> snd p \<and> snd p < length h1
             \<and> (\<exists>vs. h1 ! snd p = Arr vs
                  \<and> list_all2 (rec_rep ?A (length (hp t)) h1) vs (snd q))) pairs snapshot"
    and da: "distinct (map snd pairs)"
    by simp_all
  have pre: "\<forall>p\<in>set pairs. snd p < length h1
      \<and> (\<exists>ws. h1 ! snd p = Arr ws
           \<and> (\<forall>w\<in>set ws. \<exists>b fs. w = Ref b \<and> b < length h1 \<and> h1 ! b = Obj fs))"
  proof
    fix p
    assume "p \<in> set pairs"
    then obtain i where i: "i < length pairs" and p: "pairs ! i = p"
      by (auto simp: in_set_conv_nth)
    from list_all2_nthD [OF rel i] p obtain vs where a: "snd p < length h1" "h1 ! snd p = Arr vs"
      and recs: "list_all2 (rec_rep ?A (length (hp t)) h1) vs (snd (snapshot ! i))"
      by auto
    have "\<forall>w\<in>set vs. \<exists>b fs. w = Ref b \<and> b < length h1 \<and> h1 ! b = Obj fs"
    proof
      fix w
      assume "w \<in> set vs"
      then obtain k where k: "k < length vs" and w: "vs ! k = w"
        by (auto simp: in_set_conv_nth)
      from list_all2_nthD [OF recs k] w
      show "\<exists>b fs. w = Ref b \<and> b < length h1 \<and> h1 ! b = Obj fs"
        unfolding rec_rep_def by auto
    qed
    with a show "snd p < length h1
      \<and> (\<exists>ws. h1 ! snd p = Arr ws
           \<and> (\<forall>w\<in>set ws. \<exists>b fs. w = Ref b \<and> b < length h1 \<and> h1 ! b = Obj fs))"
      by blast
  qed
  from construct_pairs_copy [OF cf da pre] obtain h2 where
    cp: "construct_pairs c pairs h1 = (Inr (), h2)" and len: "length h1 \<le> length h2"
    and frame: "\<forall>x<length h1. x \<notin> ?A \<longrightarrow> h2 ! x = h1 ! x"
    and all: "\<forall>p\<in>set pairs. \<exists>ws ws'. h1 ! snd p = Arr ws \<and> h2 ! snd p = Arr ws'
        \<and> list_all2 (\<lambda>w w'. \<exists>b fs r. w = Ref b \<and> h1 ! b = Obj fs \<and> w' = Ref r
               \<and> length h1 \<le> r \<and> r < length h2 \<and> h2 ! r = Obj fs) ws ws'"
    by blast
  from loadCacheFromFile_constructed [OF ic bp cp] nm
  have t': "loadCacheFromFile cfg now (Parsed snapshot) t = publish now (t\<lparr>hp := h2, data := pairs\<rparr>)"
    by simp
  let ?items = "concat (map (\<lambda>p. elems h2 (snd p)) pairs)"
  let ?H = "h2 @ [Arr ?items]"
  have one: "ser_elems ?H [length h2] (elems h2 (snd (pairs ! i))) = Inr (snd (snapshot ! i))"
    if i: "i < length pairs" for i
  proof -
    let ?p = "pairs ! i" and ?q = "snapshot ! i"
    from list_all2_nthD [OF rel i] obtain vs where a: "snd ?p < length h1" "h1 ! snd ?p = Arr vs"
      and recs: "list_all2 (rec_rep ?A (length (hp t)) h1) vs (snd ?q)"
      by auto
    from i have "?p \<in> set pairs"
      by simp
    with all a obtain ws' where a2: "h2 ! snd ?p = Arr ws'"
      and cons: "list_all2 (\<lambda>w w'. \<exists>b fs r. w = Ref b \<and> h1 ! b = Obj fs \<and> w' = Ref r
               \<and> length h1 \<le> r \<and> r < length h2 \<and> h2 ! r = Obj fs) vs ws'"
      by fastforce
    from a a2 len have el: "elems h2 (snd ?p) = ws'"
      by (simp add: elems_def)
    have "list_all2 (\<lambda>w j. ser ?H [length h2] w = Inr (Some j)) ws' (snd ?q)"
      unfolding list_all2_conv_all_nth
    proof (intro conjI allI impI)
      from list_all2_lengthD [OF cons] list_all2_lengthD [OF recs]
      show "length ws' = length (snd ?q)"
        by simp
      fix k
      assume "k < length ws'"
      with list_all2_lengthD [OF cons] have k: "k < length vs"
        by simp
      from list_all2_nthD [OF cons k] obtain b fs r where c: "vs ! k = Ref b" "h1 ! b = Obj fs"
        "ws' ! k = Ref r" "length h1 \<le> r" "r < length h2" "h2 ! r = Obj fs"
        by blast
      from list_all2_nthD [OF recs k] c(1)
      have "rec_rep ?A (length (hp t)) h1 (Ref b) (snd ?q ! k)"
        by simp
      from copied_record_json [OF this c(2) c(6,4,5) frame, of "[Arr ?items]"] c(3)
      show "ser ?H [length h2] (ws' ! k) = Inr (Some (snd ?q ! k))"
        by simp
    qed
    from ser_elems_all2 [OF this] el show ?thesis
      by simp
  qed
  have "ser_elems ?H [length h2] ?items = Inr (concat (map snd snapshot))"
  proof (rule ser_elems_concat)
    have "list_all2 (\<lambda>p q. ser_elems ?H [length h2] (elems h2 (snd p)) = Inr (snd q)) pairs snapshot"
      unfolding list_all2_conv_all_nth
      using one list_all2_lengthD [OF rel] by simp
    then show "list_all2 (\<lambda>xs js. ser_elems ?H [length h2] xs = Inr js)
        (map (\<lambda>p. elems h2 (snd p)) pairs) (map snd snapshot)"
      by (simp add: list_all2_map1 list_all2_map2)
  qed
  with t' show ?thesis
    by (simp add: getAll_json ser.simps(6))
qed

lemma TestRow_copies_fields: "copies_fields TestRow"
  by (simp add: copies_fields_def TestRow_def)

text \<open>
  C5 (amended). Take a cache whose index lies in a closed part of the heap and has
  scalar keys, and let \<^verbatim>\<open>saveToFile\<close> succeed. Let the configuration have no record class, or
  a record class that copies the fields of the object it is given while every record of
  the index is an object. What has been written reads back as a snapshot, and loading
  that snapshot into any cache with this configuration gives an index whose \<^verbatim>\<open>getAll\<close>
  returns, by value, what \<^verbatim>\<open>getAll\<close> returns on the original (and \<^verbatim>\<open>getAll\<close> does return
  there).
\<close>

theorem snapshot_round_trip:
  assumes wf: "index_in n s"
    and keys: "list_all (\<lambda>p. scalar (fst p)) (data s)"
    and dist: "distinct (map fst (data s))"
    and ctor: "case itemClass cfg of
                 None \<Rightarrow> True
               | Some c \<Rightarrow> copies_fields c \<and> records_are_objects s"
    and save: "saveToFile Written s = (Inr dataJson, s1)"
  shows "\<exists>snapshot. readSnapshot dataJson = Some (Parsed snapshot)
       \<and> result_json (getAll (loadCacheFromFile cfg now (Parsed snapshot) t)) = result_json (getAll s)
       \<and> (\<exists>j. result_json (getAll s) = Inr (Some j))"
proof -
  note S = saveToFile_json [OF wf keys save]
  from S have 1: "readSnapshot dataJson = Some (Parsed (snapshot_of s))"
    by (simp add: readSnapshot_pairs)
  from S have ok: "\<forall>p\<in>set (data s). \<exists>js. ser_elems (hp s) [] (elems (hp s) (snd p)) = Inr js"
    by simp
  from getAll_snapshot [OF wf ok]
  have 2: "result_json (getAll s) = Inr (Some (JArr (concat (map snd (snapshot_of s)))))" .
  have 3: "result_json (getAll (loadCacheFromFile cfg now (Parsed (snapshot_of s)) t))
      = Inr (Some (JArr (concat (map snd (snapshot_of s)))))"
  proof (cases "itemClass cfg")
    case None
    from reload_getAll_plain [OF None snapshot_of_keys [OF keys] dist] show ?thesis .
  next
    case (Some c)
    with ctor have cf: "copies_fields c" and ro: "records_are_objects s"
      by simp_all
    from reload_getAll_copy [OF Some cf snapshot_of_keys [OF keys] dist snapshot_objects [OF ro ok]]
    show ?thesis .
  qed
  from 1 2 3 show ?thesis
    by simp
qed

theorem snapshot_round_trip_witness:
  "(\<exists>snapshot. readSnapshot (JArr
        [JArr [JNum 1, JArr [JObj [(''id'', JNum 1), (''text'', JStr ''a'')],
                             JObj [(''id'', JNum 1), (''text'', JStr ''b'')]]],
         JArr [JNum 2, JArr [JObj [(''id'', JNum 2)]]]]) = Some (Parsed snapshot)
     \<and> result_json (getAll (loadCacheFromFile demo_options 8 (Parsed snapshot) (startCache [])))
       = Inr (Some (JArr [JObj [(''id'', JNum 1), (''text'', JStr ''a'')],
                          JObj [(''id'', JNum 1), (''text'', JStr ''b'')],
                          JObj [(''id'', JNum 2)]])))
   \<and> (\<exists>snapshot. readSnapshot (JArr
        [JArr [JNum 1, JArr [JObj [(''id'', JNum 1), (''text'', JStr ''a'')],
                             JObj [(''id'', JNum 1), (''text'', JStr ''b'')]]],
         JArr [JNum 2, JArr [JObj [(''id'', JNum 2)]]]]) = Some (Parsed snapshot)
     \<and> result_json (getAll (loadCacheFromFile (demo_options\<lparr>itemClass := Some TestRow\<rparr>) 8
          (Parsed snapshot) (startCache [])))
       = Inr (Some (JArr [JObj [(''id'', JNum 1), (''text'', JStr ''a'')],
                          JObj [(''id'', JNum 1), (''text'', JStr ''b'')],
                          JObj [(''id'', JNum 2)]])))"
proof -
  let ?J = "JArr
        [JArr [JNum 1, JArr [JObj [(''id'', JNum 1), (''text'', JStr ''a'')],
                             JObj [(''id'', JNum 1), (''text'', JStr ''b'')]]],
         JArr [JNum 2, JArr [JObj [(''id'', JNum 2)]]]]"
  let ?s1 = "demo_cache\<lparr>hp := hp demo_cache @ [Arr [Num 1, Ref 3], Arr [Num 2, Ref 4], Arr [Ref 5, Ref 6]]\<rparr>"
  let ?cfg = "demo_options\<lparr>itemClass := Some TestRow\<rparr>"
  have wf: "index_in 5 demo_cache"
    by code_simp
  have keys: "list_all (\<lambda>p. scalar (fst p)) (data demo_cache)"
    by code_simp
  have dist: "distinct (map fst (data demo_cache))"
    by code_simp
  have none: "case itemClass demo_options of
                 None \<Rightarrow> True
               | Some c \<Rightarrow> copies_fields c \<and> records_are_objects demo_cache"
    by (simp add: demo_options_def)
  have ro: "records_are_objects demo_cache"
    by code_simp
  have some: "case itemClass ?cfg of
                 None \<Rightarrow> True
               | Some c \<Rightarrow> copies_fields c \<and> records_are_objects demo_cache"
    using ro by (simp add: copies_fields_def TestRow_def)
  have save: "saveToFile Written demo_cache = (Inr ?J, ?s1)"
    by code_simp
  have all: "result_json (getAll demo_cache)
      = Inr (Some (JArr [JObj [(''id'', JNum 1), (''text'', JStr ''a'')],
                         JObj [(''id'', JNum 1), (''text'', JStr ''b'')],
                         JObj [(''id'', JNum 2)]]))"
    by code_simp
  from snapshot_round_trip [OF wf keys dist none save, of 8 "startCache []"]
    snapshot_round_trip [OF wf keys dist some save, of 8 "startCache []"] all
  show ?thesis
    by simp
qed

text \<open>
  C5 as stated fails. With the record class \<^verbatim>\<open>Wrapper\<close>, the records of the index are
  \<^verbatim>\<open>{inner: row}\<close>; the snapshot holds their JSON, and loading it wraps each of them again.
  And an index with the keys \<^verbatim>\<open>undefined\<close> (rows without the key field) and \<^verbatim>\<open>null\<close> is written
  with the key \<^verbatim>\<open>null\<close> twice, so that the loaded index has one entry and \<^verbatim>\<open>getAll\<close> returns
  the records of the second only.
\<close>

theorem reload_wraps_records_again:
  "fst (saveToFile Written (loadFromDatabaseAndSaveToFile
       (demo_options\<lparr>itemClass := Some Wrapper\<rparr>) 7 (Rows [Ref 0]) Written (startCache demo_rows)))
     = Inr (JArr [JArr [JNum 1, JArr [JObj [(''inner'', JObj [(''id'', JNum 1), (''text'', JStr ''a'')])]]]])
   \<and> readSnapshot (JArr [JArr [JNum 1, JArr [JObj [(''inner'', JObj [(''id'', JNum 1), (''text'', JStr ''a'')])]]]])
     = Some (Parsed [(JNum 1, [JObj [(''inner'', JObj [(''id'', JNum 1), (''text'', JStr ''a'')])]])])
   \<and> result_json (getAll (loadFromDatabaseAndSaveToFile
       (demo_options\<lparr>itemClass := Some Wrapper\<rparr>) 7 (Rows [Ref 0]) Written (startCache demo_rows)))
     = Inr (Some (JArr [JObj [(''inner'', JObj [(''id'', JNum 1), (''text'', JStr ''a'')])]]))
   \<and> result_json (getAll (loadCacheFromFile (demo_options\<lparr>itemClass := Some Wrapper\<rparr>) 8
       (Parsed [(JNum 1, [JObj [(''inner'', JObj [(''id'', JNum 1), (''text'', JStr ''a'')])]])])
       (startCache [])))
     = Inr (Some (JArr [JObj [(''inner'',
          JObj [(''inner'', JObj [(''id'', JNum 1), (''text'', JStr ''a'')])])]]))
   \<and> data (loadFromDatabaseAndSaveToFile demo_options 7 (Rows [Ref 0, Ref 1]) Written
       (startCache [Obj [(''text'', Str ''a'')], Obj [(''id'', Null)]]))
     = [(Undefined, 2), (Null, 3)]
   \<and> fst (saveToFile Written (loadFromDatabaseAndSaveToFile demo_options 7 (Rows [Ref 0, Ref 1])
       Written (startCache [Obj [(''text'', Str ''a'')], Obj [(''id'', Null)]])))
     = Inr (JArr [JArr [JNull, JArr [JObj [(''text'', JStr ''a'')]]],
                  JArr [JNull, JArr [JObj [(''id'', JNull)]]]])
   \<and> readSnapshot (JArr [JArr [JNull, JArr [JObj [(''text'', JStr ''a'')]]],
                         JArr [JNull, JArr [JObj [(''id'', JNull)]]]])
     = Some (Parsed [(JNull, [JObj [(''text'', JStr ''a'')]]), (JNull, [JObj [(''id'', JNull)]])])
   \<and> result_json (getAll (loadFromDatabaseAndSaveToFile demo_options 7 (Rows [Ref 0, Ref 1])
       Written (startCache [Obj [(''text'', Str ''a'')], Obj [(''id'', Null)]])))
     = Inr (Some (JArr [JObj [(''text'', JStr ''a'')], JObj [(''id'', JNull)]]))
   \<and> result_json (getAll (loadCacheFromFile demo_options 8
       (Parsed [(JNull, [JObj [(''text'', JStr ''a'')]]), (JNull, [JObj [(''id'', JNull)]])])
       (startCache [])))
     = Inr (Some (JArr [JObj [(''id'', JNull)]]))"
  by code_simp

section \<open>Readiness\<close>

text \<open>
  \<^verbatim>\<open>setData\<close> either returns, and then it has set \<^verbatim>\<open>lastUpdate\<close> and emitted \<^verbatim>\<open>'update'\<close>, which
  resolves the promise; or it throws, and then it has touched the heap only.
\<close>

lemma setData_outcome:
  assumes "setData cfg now md s = (r, s')"
  shows "case r of
           Inr u \<Rightarrow> loadDataPromise s' \<and> lastUpdate s' = Some now
         | Inl e \<Rightarrow> loadDataPromise s' = loadDataPromise s \<and> data s' = data s
                   \<and> lastUpdate s' = lastUpdate s"
  using assms
  by (cases md)
     (auto simp: setData_def publish_def emit_def split: option.splits prod.splits sum.splits)

lemma loadFromDatabase_outcome:
  assumes "loadFromDatabase cfg now q s = (r, s')"
  shows "case r of
           Inr u \<Rightarrow> loadDataPromise s' \<and> lastUpdate s' = Some now
         | Inl e \<Rightarrow> loadDataPromise s' = loadDataPromise s \<and> data s' = data s
                   \<and> lastUpdate s' = lastUpdate s"
proof (cases r)
  case (Inl e)
  with assms have "loadFromDatabase cfg now q s = (Inl e, s')"
    by simp
  then show ?thesis
    using Inl by (cases rule: loadFromDatabase_failure) auto
next
  case (Inr u)
  with assms show ?thesis
    by (cases q)
       (auto simp: loadFromDatabase_def queryDatabase_def setData_def publish_def emit_def
        split: prod.splits sum.splits if_splits)
qed

lemma saveToFile_keeps:
  assumes "saveToFile w s = (r, s')"
  shows "loadDataPromise s' = loadDataPromise s \<and> data s' = data s \<and> lastUpdate s' = lastUpdate s"
  using assms
  by (auto simp: saveToFile_def split: prod.splits sum.splits option.splits writeResult.splits)

lemma emit_Error_keeps [simp]:
  "loadDataPromise (emit (Error e) s) = loadDataPromise s"
  by (simp add: emit_def)

lemma file_catch_keeps [simp]:
  "loadDataPromise (file_catch e s) = loadDataPromise s"
  "lastUpdate (file_catch e s) = lastUpdate s"
  by (simp_all add: file_catch_def)

text \<open>What one step does to the promise, to \<^verbatim>\<open>lastUpdate\<close> and to the index.\<close>

lemma cycle_effect:
  "(swaps cfg (DatabaseLoad now q w) s \<longrightarrow>
      loadDataPromise (loadFromDatabaseAndSaveToFile cfg now q w s)
      \<and> lastUpdate (loadFromDatabaseAndSaveToFile cfg now q w s) = Some now)
   \<and> (\<not> swaps cfg (DatabaseLoad now q w) s \<longrightarrow>
      loadDataPromise (loadFromDatabaseAndSaveToFile cfg now q w s) = loadDataPromise s
      \<and> data (loadFromDatabaseAndSaveToFile cfg now q w s) = data s
      \<and> lastUpdate (loadFromDatabaseAndSaveToFile cfg now q w s) = lastUpdate s)"
proof -
  obtain r s1 where l: "loadFromDatabase cfg now q s = (r, s1)"
    by (cases "loadFromDatabase cfg now q s")
  note L = loadFromDatabase_outcome [OF l]
  show ?thesis
  proof (cases r)
    case (Inl e)
    with l L show ?thesis
      by (simp add: swaps_def loadFromDatabaseAndSaveToFile_def)
  next
    case (Inr u)
    obtain r2 s2 where sv: "saveToFile w s1 = (r2, s2)"
      by (cases "saveToFile w s1")
    from saveToFile_keeps [OF sv] l L Inr sv show ?thesis
      by (cases r2) (simp_all add: swaps_def loadFromDatabaseAndSaveToFile_def)
  qed
qed

lemma file_effect:
  "(swaps cfg (FileLoad now f) s \<longrightarrow>
      loadDataPromise (step cfg (FileLoad now f) s)
      \<and> lastUpdate (step cfg (FileLoad now f) s) = Some now)
   \<and> (\<not> swaps cfg (FileLoad now f) s \<longrightarrow>
      loadDataPromise (step cfg (FileLoad now f) s) = loadDataPromise s
      \<and> data (step cfg (FileLoad now f) s) = data s
      \<and> lastUpdate (step cfg (FileLoad now f) s) = lastUpdate s)"
proof (cases "shouldSaveToFile cfg")
  case False
  then show ?thesis
    by (simp add: swaps_def step_def)
next
  case True
  show ?thesis
  proof (cases f)
    case (ReadFailed err)
    with True show ?thesis
      by (simp add: swaps_def step_def loadCacheFromFile_def)
  next
    case EmptyFile
    obtain r s1 where sd: "setData cfg now NullData s = (r, s1)"
      by (cases "setData cfg now NullData s")
    from setData_outcome [OF sd] sd True EmptyFile show ?thesis
      by (cases r) (simp_all add: swaps_def step_def loadCacheFromFile_def)
  next
    case Unparsable
    with True show ?thesis
      by (simp add: swaps_def step_def loadCacheFromFile_def)
  next
    case (Parsed snapshot)
    obtain mapData h1 where b: "build_pairs snapshot (hp s) = (mapData, h1)"
      by (cases "build_pairs snapshot (hp s)")
    obtain r s1 where sd: "setData cfg now (PairData mapData) (s\<lparr>hp := h1\<rparr>) = (r, s1)"
      by (cases "setData cfg now (PairData mapData) (s\<lparr>hp := h1\<rparr>)")
    from setData_outcome [OF sd] sd b True Parsed show ?thesis
      by (cases r) (simp_all add: swaps_def step_def loadCacheFromFile_def)
  qed
qed

lemma step_effect:
  "(swaps cfg ev s \<longrightarrow>
      loadDataPromise (step cfg ev s) \<and> lastUpdate (step cfg ev s) = Some (event_time ev))
   \<and> (\<not> swaps cfg ev s \<longrightarrow>
      loadDataPromise (step cfg ev s) = loadDataPromise s
      \<and> data (step cfg ev s) = data s \<and> lastUpdate (step cfg ev s) = lastUpdate s)"
proof (cases ev)
  case (DatabaseLoad now q w)
  with cycle_effect [of cfg now q w s] show ?thesis
    by (simp add: step_def event_time_def)
next
  case (FileLoad now f)
  with file_effect [of cfg now f s] show ?thesis
    by (simp add: event_time_def)
qed

lemma run_snoc: "run cfg (evs @ [ev]) s = step cfg ev (run cfg evs s)"
  by (simp add: run_def)

lemma ready_run:
  "loadDataPromise (run cfg evs s)
     = (loadDataPromise s \<or> (\<exists>i<length evs. swaps cfg (evs ! i) (run cfg (take i evs) s)))"
proof (induction evs rule: rev_induct)
  case Nil
  then show ?case by (simp add: run_def)
next
  case (snoc ev evs)
  let ?P = "\<lambda>es i. swaps cfg (es ! i) (run cfg (take i es) s)"
  have same: "?P (evs @ [ev]) i = ?P evs i" if "i < length evs" for i
    using that by (simp add: nth_append)
  have last: "?P (evs @ [ev]) (length evs) = swaps cfg ev (run cfg evs s)"
    by simp
  have "(\<exists>i<length (evs @ [ev]). ?P (evs @ [ev]) i)
      = ((\<exists>i<length evs. ?P evs i) \<or> swaps cfg ev (run cfg evs s))"
  proof
    assume "\<exists>i<length (evs @ [ev]). ?P (evs @ [ev]) i"
    then obtain i where i: "i < Suc (length evs)" and p: "?P (evs @ [ev]) i"
      by auto
    show "(\<exists>i<length evs. ?P evs i) \<or> swaps cfg ev (run cfg evs s)"
    proof (cases "i < length evs")
      case True
      with p same [OF True] show ?thesis
        by blast
    next
      case False
      with i have "i = length evs"
        by simp
      with p last show ?thesis
        by simp
    qed
  next
    assume "(\<exists>i<length evs. ?P evs i) \<or> swaps cfg ev (run cfg evs s)"
    then show "\<exists>i<length (evs @ [ev]). ?P (evs @ [ev]) i"
    proof
      assume "\<exists>i<length evs. ?P evs i"
      then obtain i where i: "i < length evs" and "?P evs i"
        by blast
      with same [OF i] have "?P (evs @ [ev]) i"
        by simp
      with i show ?thesis
        by (intro exI [of _ i]) simp
    next
      assume "swaps cfg ev (run cfg evs s)"
      with last show ?thesis
        by (intro exI [of _ "length evs"]) simp
    qed
  qed
  moreover from step_effect [of cfg ev "run cfg evs s"]
  have "loadDataPromise (step cfg ev (run cfg evs s))
      = (loadDataPromise (run cfg evs s) \<or> swaps cfg ev (run cfg evs s))"
    by auto
  ultimately show ?case
    using snoc.IH by (simp add: run_snoc del: length_append)
qed




section \<open>The mapper of a cycle\<close>

lemma mapped_each_Cons:
  "mapped_each f (row # rows) h outs
     = (\<exists>out outs'. outs = out # outs' \<and> f h row = Inr out \<and> mapped_each f rows (h @ snd out) outs')"
proof
  assume m: "mapped_each f (row # rows) h outs"
  then obtain out outs' where o: "outs = out # outs'"
    by (cases outs) (auto simp: mapped_each_def)
  from m have len: "length outs' = length rows"
    and all: "\<forall>i<Suc (length rows). f (h @ concat (map snd (take i outs))) ((row # rows) ! i) = Inr (outs ! i)"
    unfolding mapped_each_def o by simp_all
  from all [rule_format, of 0] o have f0: "f h row = Inr out"
    by simp
  have "f ((h @ snd out) @ concat (map snd (take i outs'))) (rows ! i) = Inr (outs' ! i)"
    if "i < length rows" for i
    using all [rule_format, of "Suc i"] that o by simp
  with len have "mapped_each f rows (h @ snd out) outs'"
    by (simp add: mapped_each_def)
  with o f0 show "\<exists>out outs'. outs = out # outs' \<and> f h row = Inr out
      \<and> mapped_each f rows (h @ snd out) outs'"
    by blast
next
  assume "\<exists>out outs'. outs = out # outs' \<and> f h row = Inr out
      \<and> mapped_each f rows (h @ snd out) outs'"
  then obtain out outs' where o: "outs = out # outs'" and f0: "f h row = Inr out"
    and m: "mapped_each f rows (h @ snd out) outs'"
    by blast
  from m have len: "length outs' = length rows"
    and all: "\<forall>i<length rows. f ((h @ snd out) @ concat (map snd (take i outs'))) (rows ! i)
        = Inr (outs' ! i)"
    by (simp_all add: mapped_each_def)
  have "f (h @ concat (map snd (take i outs))) ((row # rows) ! i) = Inr (outs ! i)"
    if "i < Suc (length rows)" for i
  proof (cases i)
    case 0
    with f0 o show ?thesis by simp
  next
    case (Suc j)
    with that all o show ?thesis by simp
  qed
  with len o show "mapped_each f (row # rows) h outs"
    by (simp add: mapped_each_def)
qed

lemma mapped_each_Nil [simp]: "mapped_each f [] h outs = (outs = [])"
  by (auto simp: mapped_each_def)

text \<open>
  The loops of lines 94 to 102: when the mapper returns for every row, \<^verbatim>\<open>mapItems\<close> holds
  what it returned, row after row; when it throws at a row, the loop stops there.
\<close>

lemma mapRowsMulti_all:
  "mapped_each f rows h outs \<Longrightarrow>
   mapRowsMulti f rows acc h = (Inr (acc @ concat (map fst outs)), h @ concat (map snd outs))"
proof (induction rows arbitrary: acc h outs)
  case Nil
  then show ?case by simp
next
  case (Cons row rows)
  from Cons.prems obtain out outs' where o: "outs = out # outs'" and f0: "f h row = Inr out"
    and m: "mapped_each f rows (h @ snd out) outs'"
    unfolding mapped_each_Cons by blast
  from Cons.IH [OF m, of "acc @ fst out"] f0 o show ?case
    by (cases out) simp
qed

lemma mapRowsMulti_throws:
  "i < length rows \<Longrightarrow> mapped_each f (take i rows) h outs \<Longrightarrow>
   f (h @ concat (map snd outs)) (rows ! i) = Inl e \<Longrightarrow>
   mapRowsMulti f rows acc h = (Inl e, h @ concat (map snd outs))"
proof (induction rows arbitrary: i acc h outs)
  case Nil
  then show ?case by simp
next
  case (Cons row rows)
  show ?case
  proof (cases i)
    case 0
    with Cons.prems show ?thesis by simp
  next
    case (Suc j)
    with Cons.prems(2) obtain out outs' where o: "outs = out # outs'" and f0: "f h row = Inr out"
      and m: "mapped_each f (take j rows) (h @ snd out) outs'"
      by (auto simp: mapped_each_Cons)
    from Cons.prems(1) Suc have j: "j < length rows"
      by simp
    from Cons.prems(3) Suc o
    have "f ((h @ snd out) @ concat (map snd outs')) (rows ! j) = Inl e"
      by simp
    from Cons.IH [OF j m this, of "acc @ fst out"] f0 o show ?thesis
      by (cases out) simp
  qed
qed

lemma mapRows_all:
  "mapped_each f rows h outs \<Longrightarrow>
   mapRows f rows acc h = (Inr (acc @ map fst outs), h @ concat (map snd outs))"
proof (induction rows arbitrary: acc h outs)
  case Nil
  then show ?case by simp
next
  case (Cons row rows)
  from Cons.prems obtain out outs' where o: "outs = out # outs'" and f0: "f h row = Inr out"
    and m: "mapped_each f rows (h @ snd out) outs'"
    unfolding mapped_each_Cons by blast
  from Cons.IH [OF m, of "acc @ [fst out]"] f0 o show ?case
    by (cases out) simp
qed

lemma mapRows_throws:
  "i < length rows \<Longrightarrow> mapped_each f (take i rows) h outs \<Longrightarrow>
   f (h @ concat (map snd outs)) (rows ! i) = Inl e \<Longrightarrow>
   mapRows f rows acc h = (Inl e, h @ concat (map snd outs))"
proof (induction rows arbitrary: i acc h outs)
  case Nil
  then show ?case by simp
next
  case (Cons row rows)
  show ?case
  proof (cases i)
    case 0
    with Cons.prems show ?thesis by simp
  next
    case (Suc j)
    with Cons.prems(2) obtain out outs' where o: "outs = out # outs'" and f0: "f h row = Inr out"
      and m: "mapped_each f (take j rows) (h @ snd out) outs'"
      by (auto simp: mapped_each_Cons)
    from Cons.prems(1) Suc have j: "j < length rows"
      by simp
    from Cons.prems(3) Suc o
    have "f ((h @ snd out) @ concat (map snd outs')) (rows ! j) = Inl e"
      by simp
    from Cons.IH [OF j m this, of "acc @ [fst out]"] f0 o show ?thesis
      by (cases out) simp
  qed
qed

text \<open>The cycle for rows that have been mapped, and for rows whose mapping has thrown.\<close>

lemma loadFromDatabase_mapped:
  assumes "rows \<noteq> []" and "collectMapItems cfg rows (hp s) = (Inr mapItems, h1)"
  shows "loadFromDatabase cfg now (Rows rows) s = mergeAndSwap cfg now mapItems (s\<lparr>hp := h1\<rparr>)"
  using assms
  by (simp add: loadFromDatabase_def queryDatabase_def mergeAndSwap_def split: prod.splits sum.splits)

lemma loadFromDatabase_mapper_throws:
  assumes "rows \<noteq> []" and "collectMapItems cfg rows (hp s) = (Inl e, h1)"
  shows "loadFromDatabase cfg now (Rows rows) s = (Inl e, s\<lparr>hp := h1\<rparr>)"
  using assms by (simp add: loadFromDatabase_def queryDatabase_def)

text \<open>The default mapper on rows that are not \<^verbatim>\<open>null\<close> or \<^verbatim>\<open>undefined\<close>, and on one that is.\<close>

lemma parseDataRow_object:
  "row \<noteq> Undefined \<Longrightarrow> row \<noteq> Null \<Longrightarrow> parseDataRow k h row = Inr ((field h row k, row), [])"
  by (cases row) (simp_all add: parseDataRow_def get_prop_def field_def split: obj.splits)

lemma parseDataRow_null:
  "row = Undefined \<or> row = Null \<Longrightarrow> parseDataRow k h row = Inl TypeError"
  by (auto simp: parseDataRow_def get_prop_def)

lemma default_mapped_each:
  assumes "\<forall>row\<in>set rows. row \<noteq> Undefined \<and> row \<noteq> Null"
  shows "mapped_each (parseDataRow k) rows h (map (\<lambda>row. ((field h row k, row), [])) rows)"
  using assms
proof (induction rows)
  case Nil
  then show ?case by simp
next
  case (Cons row rows)
  then show ?case
    by (simp add: mapped_each_Cons parseDataRow_object)
qed

lemma concat_no_cells [simp]: "concat (map snd (map (\<lambda>row. (g row, [])) rows)) = []"
  by (induction rows) simp_all

text \<open>
  C6. A cycle over rows fills \<^verbatim>\<open>mapItems\<close> with one mapper, called on every row in order, and
  goes on with the pairs it returned. If \<^verbatim>\<open>parseDataMultiRow\<close> is supplied, it is that mapper
  (and the cycle is the same whatever \<^verbatim>\<open>parseDataRow\<close> is set to): \<^verbatim>\<open>mapItems\<close> is the
  concatenation of the arrays it returned. If only \<^verbatim>\<open>parseDataRow\<close> is supplied, it is that
  one: \<^verbatim>\<open>mapItems\<close> holds the pair it returned for each row. If neither is supplied,
  \<^verbatim>\<open>mapItems\<close> holds \<^verbatim>\<open>[row[keyFieldName], row]\<close> for each row. When the mapper throws at a
  row (the default one does at a row that is \<^verbatim>\<open>null\<close> or \<^verbatim>\<open>undefined\<close>), the cycle fails with
  that error, after the calls for the rows before.
\<close>

theorem chosen_mapper_maps_every_row:
  assumes "rows \<noteq> []"
  shows "(parseDataMultiRow cfg = Some f \<longrightarrow>
            (\<forall>outs. mapped_each f rows (hp s) outs \<longrightarrow>
               loadFromDatabase cfg now (Rows rows) s
                 = mergeAndSwap cfg now (concat (map fst outs))
                     (s\<lparr>hp := hp s @ concat (map snd outs)\<rparr>))
          \<and> (\<forall>i outs e. i < length rows \<and> mapped_each f (take i rows) (hp s) outs
                  \<and> f (hp s @ concat (map snd outs)) (rows ! i) = Inl e \<longrightarrow>
               loadFromDatabase cfg now (Rows rows) s
                 = (Inl e, s\<lparr>hp := hp s @ concat (map snd outs)\<rparr>))
          \<and> loadFromDatabase (cfg\<lparr>opt_parseDataRow := g'\<rparr>) now (Rows rows) s
               = loadFromDatabase cfg now (Rows rows) s)
       \<and> (parseDataMultiRow cfg = None \<and> opt_parseDataRow cfg = Some g \<longrightarrow>
            (\<forall>outs. mapped_each g rows (hp s) outs \<longrightarrow>
               loadFromDatabase cfg now (Rows rows) s
                 = mergeAndSwap cfg now (map fst outs) (s\<lparr>hp := hp s @ concat (map snd outs)\<rparr>))
          \<and> (\<forall>i outs e. i < length rows \<and> mapped_each g (take i rows) (hp s) outs
                  \<and> g (hp s @ concat (map snd outs)) (rows ! i) = Inl e \<longrightarrow>
               loadFromDatabase cfg now (Rows rows) s
                 = (Inl e, s\<lparr>hp := hp s @ concat (map snd outs)\<rparr>)))
       \<and> (parseDataMultiRow cfg = None \<and> opt_parseDataRow cfg = None \<longrightarrow>
            ((\<forall>row\<in>set rows. row \<noteq> Undefined \<and> row \<noteq> Null) \<longrightarrow>
               loadFromDatabase cfg now (Rows rows) s
                 = mergeAndSwap cfg now
                     (map (\<lambda>row. (field (hp s) row (keyFieldName cfg), row)) rows) s)
          \<and> (\<forall>i. i < length rows \<and> (\<forall>j<i. rows ! j \<noteq> Undefined \<and> rows ! j \<noteq> Null)
                  \<and> (rows ! i = Undefined \<or> rows ! i = Null) \<longrightarrow>
               loadFromDatabase cfg now (Rows rows) s = (Inl TypeError, s)))"
proof (intro conjI impI allI)
  fix outs
  assume f: "parseDataMultiRow cfg = Some f" and m: "mapped_each f rows (hp s) outs"
  from mapRowsMulti_all [OF m, of "[]"] f
  have "collectMapItems cfg rows (hp s)
      = (Inr (concat (map fst outs)), hp s @ concat (map snd outs))"
    by (simp add: collectMapItems_def)
  from loadFromDatabase_mapped [OF assms this]
  show "loadFromDatabase cfg now (Rows rows) s
      = mergeAndSwap cfg now (concat (map fst outs)) (s\<lparr>hp := hp s @ concat (map snd outs)\<rparr>)" .
next
  fix i outs e
  assume f: "parseDataMultiRow cfg = Some f"
    and a: "i < length rows \<and> mapped_each f (take i rows) (hp s) outs
        \<and> f (hp s @ concat (map snd outs)) (rows ! i) = Inl e"
  from a have "mapRowsMulti f rows [] (hp s) = (Inl e, hp s @ concat (map snd outs))"
    by (intro mapRowsMulti_throws [of i]) simp_all
  with f have "collectMapItems cfg rows (hp s) = (Inl e, hp s @ concat (map snd outs))"
    by (simp add: collectMapItems_def)
  from loadFromDatabase_mapper_throws [OF assms this]
  show "loadFromDatabase cfg now (Rows rows) s = (Inl e, s\<lparr>hp := hp s @ concat (map snd outs)\<rparr>)" .
next
  assume f: "parseDataMultiRow cfg = Some f"
  from loadFromDatabase_ignores_single [OF f, of now "Rows rows" s g']
  show "loadFromDatabase (cfg\<lparr>opt_parseDataRow := g'\<rparr>) now (Rows rows) s
      = loadFromDatabase cfg now (Rows rows) s"
    by simp
next
  fix outs
  assume g: "parseDataMultiRow cfg = None \<and> opt_parseDataRow cfg = Some g"
    and m: "mapped_each g rows (hp s) outs"
  from mapRows_all [OF m, of "[]"] g
  have "collectMapItems cfg rows (hp s) = (Inr (map fst outs), hp s @ concat (map snd outs))"
    by (simp add: collectMapItems_def)
  from loadFromDatabase_mapped [OF assms this]
  show "loadFromDatabase cfg now (Rows rows) s
      = mergeAndSwap cfg now (map fst outs) (s\<lparr>hp := hp s @ concat (map snd outs)\<rparr>)" .
next
  fix i outs e
  assume g: "parseDataMultiRow cfg = None \<and> opt_parseDataRow cfg = Some g"
    and a: "i < length rows \<and> mapped_each g (take i rows) (hp s) outs
        \<and> g (hp s @ concat (map snd outs)) (rows ! i) = Inl e"
  from a have "mapRows g rows [] (hp s) = (Inl e, hp s @ concat (map snd outs))"
    by (intro mapRows_throws [of i]) simp_all
  with g have "collectMapItems cfg rows (hp s) = (Inl e, hp s @ concat (map snd outs))"
    by (simp add: collectMapItems_def)
  from loadFromDatabase_mapper_throws [OF assms this]
  show "loadFromDatabase cfg now (Rows rows) s = (Inl e, s\<lparr>hp := hp s @ concat (map snd outs)\<rparr>)" .
next
  assume d: "parseDataMultiRow cfg = None \<and> opt_parseDataRow cfg = None"
    and ok: "\<forall>row\<in>set rows. row \<noteq> Undefined \<and> row \<noteq> Null"
  let ?k = "keyFieldName cfg"
  from mapRows_all [OF default_mapped_each [OF ok, of ?k "hp s"], of "[]"] d
  have "collectMapItems cfg rows (hp s)
      = (Inr (map (\<lambda>row. (field (hp s) row ?k, row)) rows), hp s)"
    by (simp add: collectMapItems_def comp_def)
  from loadFromDatabase_mapped [OF assms this]
  show "loadFromDatabase cfg now (Rows rows) s
      = mergeAndSwap cfg now (map (\<lambda>row. (field (hp s) row ?k, row)) rows) s"
    by simp
next
  fix i
  assume d: "parseDataMultiRow cfg = None \<and> opt_parseDataRow cfg = None"
    and a: "i < length rows \<and> (\<forall>j<i. rows ! j \<noteq> Undefined \<and> rows ! j \<noteq> Null)
        \<and> (rows ! i = Undefined \<or> rows ! i = Null)"
  let ?k = "keyFieldName cfg"
  let ?outs = "map (\<lambda>row. ((field (hp s) row ?k, row), [])) (take i rows)"
  from a have "\<forall>row\<in>set (take i rows). row \<noteq> Undefined \<and> row \<noteq> Null"
    by (auto simp: in_set_conv_nth)
  from default_mapped_each [OF this, of ?k "hp s"]
  have m: "mapped_each (parseDataRow ?k) (take i rows) (hp s) ?outs" .
  from a have t: "parseDataRow ?k (hp s @ concat (map snd ?outs)) (rows ! i) = Inl TypeError"
    by (intro parseDataRow_null) simp
  from a have i: "i < length rows"
    by simp
  from mapRows_throws [OF i m t, of "[]"] d
  have "collectMapItems cfg rows (hp s) = (Inl TypeError, hp s)"
    by (simp add: collectMapItems_def)
  from loadFromDatabase_mapper_throws [OF assms this]
  show "loadFromDatabase cfg now (Rows rows) s = (Inl TypeError, s)"
    by simp
qed

theorem chosen_mapper_maps_every_row_witness:
  "loadFromDatabase
      (demo_options\<lparr>opt_parseDataRow := Some tests_parseDataRow,
                     parseDataMultiRow := Some tests_parseDataMultiRow\<rparr>) 1
      (Rows [Ref 0, Ref 1]) (startCache demo_rows)
     = mergeAndSwap
         (demo_options\<lparr>opt_parseDataRow := Some tests_parseDataRow,
                        parseDataMultiRow := Some tests_parseDataMultiRow\<rparr>) 1
         [(Num 1, Ref 3), (Num 1, Ref 4), (Num 1, Ref 5),
          (Num 2, Ref 6), (Num 2, Ref 7), (Num 2, Ref 8)]
         (startCache (demo_rows @
            [Obj [(''t1'', Ref 0)], Obj [(''t2'', Ref 0)], Obj [(''t3'', Ref 0)],
             Obj [(''t1'', Ref 1)], Obj [(''t2'', Ref 1)], Obj [(''t3'', Ref 1)]]))
   \<and> loadFromDatabase (demo_options\<lparr>opt_parseDataRow := Some tests_parseDataRow\<rparr>) 1
        (Rows [Ref 0, Ref 1]) (startCache demo_rows)
     = mergeAndSwap (demo_options\<lparr>opt_parseDataRow := Some tests_parseDataRow\<rparr>) 1
         [(Num 1, Ref 6), (Num 2, Ref 10)]
         (startCache (demo_rows @
            [Obj [(''t1'', Ref 0)], Obj [(''t2'', Ref 0)], Obj [(''t3'', Ref 0)],
             Arr [Ref 3, Ref 4, Ref 5],
             Obj [(''t1'', Ref 1)], Obj [(''t2'', Ref 1)], Obj [(''t3'', Ref 1)],
             Arr [Ref 7, Ref 8, Ref 9]]))
   \<and> loadFromDatabase demo_options 1 (Rows [Ref 0, Ref 1, Ref 2]) (startCache demo_rows)
     = mergeAndSwap demo_options 1 [(Num 1, Ref 0), (Num 2, Ref 1), (Num 1, Ref 2)]
         (startCache demo_rows)
   \<and> loadFromDatabase demo_options 1 (Rows [Ref 0, Null, Ref 2]) (startCache demo_rows)
     = (Inl TypeError, startCache demo_rows)
   \<and> data (snd (mergeAndSwap demo_options 1 [(Num 1, Ref 0), (Num 2, Ref 1), (Num 1, Ref 2)]
         (startCache demo_rows))) = [(Num 1, 3), (Num 2, 4)]"
proof -
  let ?both = "demo_options\<lparr>opt_parseDataRow := Some tests_parseDataRow,
                 parseDataMultiRow := Some tests_parseDataMultiRow\<rparr>"
  let ?single = "demo_options\<lparr>opt_parseDataRow := Some tests_parseDataRow\<rparr>"
  let ?s = "startCache demo_rows"
  let ?outs2 = "[([(Num 1, Ref 3), (Num 1, Ref 4), (Num 1, Ref 5)],
                  [Obj [(''t1'', Ref 0)], Obj [(''t2'', Ref 0)], Obj [(''t3'', Ref 0)]]),
                 ([(Num 2, Ref 6), (Num 2, Ref 7), (Num 2, Ref 8)],
                  [Obj [(''t1'', Ref 1)], Obj [(''t2'', Ref 1)], Obj [(''t3'', Ref 1)]])]"
  let ?outs1 = "[((Num 1, Ref 6),
                  [Obj [(''t1'', Ref 0)], Obj [(''t2'', Ref 0)], Obj [(''t3'', Ref 0)],
                   Arr [Ref 3, Ref 4, Ref 5]]),
                 ((Num 2, Ref 10),
                  [Obj [(''t1'', Ref 1)], Obj [(''t2'', Ref 1)], Obj [(''t3'', Ref 1)],
                   Arr [Ref 7, Ref 8, Ref 9]])]"
  have hs: "hp ?s = demo_rows"
    by (simp add: startCache_def)
  have b: "parseDataMultiRow ?both = Some tests_parseDataMultiRow"
    by simp
  have sg: "parseDataMultiRow ?single = None \<and> opt_parseDataRow ?single = Some tests_parseDataRow"
    by (simp add: demo_options_def)
  have d: "parseDataMultiRow demo_options = None \<and> opt_parseDataRow demo_options = None"
    by (simp add: demo_options_def)
  have k: "keyFieldName demo_options = ''id''"
    by (simp add: demo_options_def)
  have m2: "mapped_each tests_parseDataMultiRow [Ref 0, Ref 1] (hp ?s) ?outs2"
    unfolding hs
    by (simp add: mapped_each_Cons tests_parseDataMultiRow_def get_prop_def demo_rows_def)
  have m1: "mapped_each tests_parseDataRow [Ref 0, Ref 1] (hp ?s) ?outs1"
    unfolding hs
    by (simp add: mapped_each_Cons tests_parseDataRow_def get_prop_def demo_rows_def)
  have ne2: "[Ref 0, Ref 1] \<noteq> []" and ne3: "[Ref 0, Ref 1, Ref 2] \<noteq> []"
    and ne4: "[Ref 0, Null, Ref 2] \<noteq> []"
    by simp_all
  note T2 = chosen_mapper_maps_every_row [OF ne2, of ?both tests_parseDataMultiRow ?s 1]
  from T2 b m2
  have 1: "loadFromDatabase ?both 1 (Rows [Ref 0, Ref 1]) ?s
      = mergeAndSwap ?both 1 (concat (map fst ?outs2)) (?s\<lparr>hp := hp ?s @ concat (map snd ?outs2)\<rparr>)"
    by blast
  note T1 = chosen_mapper_maps_every_row [OF ne2, of ?single _ ?s 1 _ tests_parseDataRow]
  from T1 sg m1
  have 2: "loadFromDatabase ?single 1 (Rows [Ref 0, Ref 1]) ?s
      = mergeAndSwap ?single 1 (map fst ?outs1) (?s\<lparr>hp := hp ?s @ concat (map snd ?outs1)\<rparr>)"
    by blast
  have ok: "\<forall>row\<in>set [Ref 0, Ref 1, Ref 2]. row \<noteq> Undefined \<and> row \<noteq> Null"
    by simp
  note T3 = chosen_mapper_maps_every_row [OF ne3, of demo_options _ ?s 1]
  from T3 d ok
  have 3: "loadFromDatabase demo_options 1 (Rows [Ref 0, Ref 1, Ref 2]) ?s
      = mergeAndSwap demo_options 1
          (map (\<lambda>row. (field (hp ?s) row (keyFieldName demo_options), row)) [Ref 0, Ref 1, Ref 2]) ?s"
    by blast
  have bad: "(1::nat) < length [Ref 0, Null, Ref 2]
      \<and> (\<forall>j<1. [Ref 0, Null, Ref 2] ! j \<noteq> Undefined \<and> [Ref 0, Null, Ref 2] ! j \<noteq> Null)
      \<and> ([Ref 0, Null, Ref 2] ! 1 = Undefined \<or> [Ref 0, Null, Ref 2] ! 1 = Null)"
    by simp
  note T4 = chosen_mapper_maps_every_row [OF ne4, of demo_options _ ?s 1]
  from T4 d bad
  have 4: "loadFromDatabase demo_options 1 (Rows [Ref 0, Null, Ref 2]) ?s = (Inl TypeError, ?s)"
    by blast
  have e3: "map (\<lambda>row. (field (hp ?s) row (keyFieldName demo_options), row)) [Ref 0, Ref 1, Ref 2]
      = [(Num 1, Ref 0), (Num 2, Ref 1), (Num 1, Ref 2)]"
    unfolding hs k by (simp add: get_prop_def field_def demo_rows_def)
  have e5: "data (snd (mergeAndSwap demo_options 1 [(Num 1, Ref 0), (Num 2, Ref 1), (Num 1, Ref 2)] ?s))
      = [(Num 1, 3), (Num 2, 4)]"
    by code_simp
  have h2: "?s\<lparr>hp := hp ?s @ concat (map snd ?outs2)\<rparr>
      = startCache (demo_rows @
            [Obj [(''t1'', Ref 0)], Obj [(''t2'', Ref 0)], Obj [(''t3'', Ref 0)],
             Obj [(''t1'', Ref 1)], Obj [(''t2'', Ref 1)], Obj [(''t3'', Ref 1)]])"
    by (simp add: startCache_def)
  have h1: "?s\<lparr>hp := hp ?s @ concat (map snd ?outs1)\<rparr>
      = startCache (demo_rows @
            [Obj [(''t1'', Ref 0)], Obj [(''t2'', Ref 0)], Obj [(''t3'', Ref 0)],
             Arr [Ref 3, Ref 4, Ref 5],
             Obj [(''t1'', Ref 1)], Obj [(''t2'', Ref 1)], Obj [(''t3'', Ref 1)],
             Arr [Ref 7, Ref 8, Ref 9]])"
    by (simp add: startCache_def)
  from 1 2 3 4 e5 show ?thesis
    unfolding h1 h2 e3 by simp
qed

section \<open>Records and the constructor\<close>

text \<open>The arrays that \<^verbatim>\<open>JSON.parse\<close> makes for the pairs of a snapshot are different cells.\<close>

lemma build_pairs_distinct:
  assumes "build_pairs snapshot h = (pairs, h1)"
  shows "distinct (map snd pairs) \<and> (\<forall>p\<in>set pairs. length h \<le> snd p \<and> snd p < length h1)"
  using assms
proof (induction snapshot arbitrary: h pairs h1)
  case Nil
  then show ?case by simp
next
  case (Cons q snapshot)
  obtain k hk where bk: "build (fst q) h = (k, hk)"
    by (cases "build (fst q) h")
  obtain vs h' where be: "build_elems (snd q) hk = (vs, h')"
    by (cases "build_elems (snd q) hk")
  let ?h2 = "h' @ [Arr vs]"
  obtain ps h3 where bp: "build_pairs snapshot ?h2 = (ps, h3)"
    by (cases "build_pairs snapshot ?h2")
  from Cons.prems bk be bp
  have pairs: "pairs = (k, length h') # ps" and h1: "h1 = h3"
    by (simp_all add: the_addr_def)
  from build_pairs_arrays [OF bp] obtain cs where h3: "h3 = ?h2 @ cs"
    by blast
  from build_length(1) [of h "fst q"] bk have le1: "length h \<le> length hk"
    by simp
  from build_length(2) [of hk "snd q"] be have le2: "length hk \<le> length h'"
    by simp
  note IH = Cons.IH [OF bp]
  from IH have far: "\<forall>p\<in>set ps. length ?h2 \<le> snd p \<and> snd p < length h3"
    by simp
  then have "length h' \<notin> snd ` set ps"
    by auto
  with IH far pairs h1 h3 le1 le2 show ?case
    by auto
qed

text \<open>
  The loop of \<^verbatim>\<open>setData\<close> over the pairs of a snapshot: every element of every list is
  replaced by the object that \<^verbatim>\<open>new Item(element)\<close> has created.
\<close>

lemma construct_pairs_trace:
  assumes "extends h0 h" and "distinct (map snd ps)"
    and "\<forall>p\<in>set ps. isArray h (Ref (snd p))"
    and "construct_pairs c ps h = (Inr (), h')"
  shows "extends h h'
       \<and> (\<forall>p\<in>set ps. list_all2 (stored_as (Some c) h0 h') (elems h' (snd p)) (elems h (snd p)))
       \<and> (\<forall>b<length h. b \<notin> snd ` set ps \<longrightarrow> h' ! b = h ! b)"
  using assms
proof (induction ps arbitrary: h)
  case Nil
  then show ?case by simp
next
  case (Cons p ps)
  let ?a = "snd p"
  let ?js = "[0..<length (elems h ?a)]"
  from Cons.prems(2) have na: "?a \<notin> snd ` set ps" and d: "distinct (map snd ps)"
    by simp_all
  from Cons.prems(3) have arr: "isArray h (Ref ?a)"
    by simp
  then have al: "?a < length h"
    by (rule isArray_less)
  obtain r1 h1 where ce: "construct_elems c ?a ?js h = (r1, h1)"
    by (cases "construct_elems c ?a ?js h")
  with Cons.prems(4) have r1: "r1 = Inr ()"
    by (cases r1) simp_all
  from ce r1 Cons.prems(4) have cp: "construct_pairs c ps h1 = (Inr (), h')"
    by simp
  note ce = ce [unfolded r1]
  have js: "\<forall>j\<in>set ?js. j < length (elems h ?a)"
    by simp
  from construct_elems_extends [OF arr ce] have e1: "extends h h1" .
  note e01 = extends_trans [OF Cons.prems(1) e1]
  from construct_elems_frame [OF ce] have fr1: "\<forall>b<length h. b \<noteq> ?a \<longrightarrow> h1 ! b = h ! b"
    by simp
  from construct_elems_result [OF arr Cons.prems(1) ce js]
  have len1: "length (elems h1 ?a) = length (elems h ?a)"
    by simp
  have head1: "list_all2 (stored_as (Some c) h0 h1) (elems h1 ?a) (elems h ?a)"
  proof (rule list_all2_all_nthI)
    from len1 show "length (elems h1 ?a) = length (elems h ?a)" .
  next
    fix i
    assume "i < length (elems h1 ?a)"
    with len1 have i: "i < length (elems h ?a)"
      by simp
    from construct_elems_trace [OF arr Cons.prems(1) ce js _ i] i
    show "stored_as (Some c) h0 h1 (elems h1 ?a ! i) (elems h ?a ! i)"
      by simp
  qed
  have arrs1: "\<forall>q\<in>set ps. isArray h1 (Ref (snd q))"
  proof
    fix q
    assume "q \<in> set ps"
    with Cons.prems(3) have "isArray h (Ref (snd q))"
      by simp
    with e1 show "isArray h1 (Ref (snd q))"
      by (rule extends_isArray_val)
  qed
  from Cons.IH [OF e01 d arrs1 cp] have e2: "extends h1 h'"
    and tail: "\<forall>q\<in>set ps. list_all2 (stored_as (Some c) h0 h') (elems h' (snd q)) (elems h1 (snd q))"
    and fr2: "\<forall>b<length h1. b \<notin> snd ` set ps \<longrightarrow> h' ! b = h1 ! b"
    by simp_all
  from extends_length [OF e1] have l1: "length h \<le> length h1" .
  from extends_length [OF e2] have l2: "length h1 \<le> length h'" .
  have keep: "elems h' ?a = elems h1 ?a"
  proof -
    from al l1 na fr2 have "h' ! ?a = h1 ! ?a"
      by simp
    with al l1 l2 show ?thesis
      by (simp add: elems_def)
  qed
  from list_all2_stored_extends [OF head1 e2] keep
  have head: "list_all2 (stored_as (Some c) h0 h') (elems h' ?a) (elems h ?a)"
    by simp
  have tail': "list_all2 (stored_as (Some c) h0 h') (elems h' (snd q)) (elems h (snd q))"
    if q: "q \<in> set ps" for q
  proof -
    from q na have ne: "snd q \<noteq> ?a"
      by (metis imageI)
    from Cons.prems(3) q have "snd q < length h"
      by (auto dest: isArray_less)
    with fr1 ne l1 have eq: "elems h1 (snd q) = elems h (snd q)"
      by (simp add: elems_def)
    from tail q
    have "list_all2 (stored_as (Some c) h0 h') (elems h' (snd q)) (elems h1 (snd q))"
      by blast
    then show ?thesis
      unfolding eq .
  qed
  have frame: "\<forall>b<length h. b \<notin> snd ` set (p # ps) \<longrightarrow> h' ! b = h ! b"
  proof (intro allI impI)
    fix b
    assume b: "b < length h" "b \<notin> snd ` set (p # ps)"
    with l1 fr2 have "h' ! b = h1 ! b"
      by simp
    with fr1 b show "h' ! b = h ! b"
      by simp
  qed
  from extends_trans [OF e1 e2] head tail' frame show ?case
    by simp
qed

text \<open>
  On a snapshot whose pairs carry arrays, \<open>snapshotMap\<close> makes the map that
  \<^verbatim>\<open>loadCacheFromFile\<close> puts into \<^verbatim>\<open>data\<close>, and throws where \<^verbatim>\<open>setData\<close> throws.
\<close>

lemma build_loose_lists:
  "build_loose (map (\<lambda>q. (fst q, Inl (snd q))) snapshot) h
     = (case build_pairs snapshot h of (pairs, h1) \<Rightarrow> (map boxed pairs, h1))"
  by (induction snapshot arbitrary: h)
     (simp_all add: boxed_def the_addr_def split: prod.splits)

lemma construct_loose_lists:
  assumes "\<forall>p\<in>set pairs. isArray h (Ref (snd p))"
  shows "construct_loose c (map boxed pairs) h = construct_pairs c pairs h"
  using assms
proof (induction pairs arbitrary: h)
  case Nil
  then show ?case by simp
next
  case (Cons p ps)
  let ?a = "snd p"
  from Cons.prems have arr: "isArray h (Ref ?a)"
    by simp
  obtain r1 h1 where ce: "construct_elems c ?a [0..<length (elems h ?a)] h = (r1, h1)"
    by (cases "construct_elems c ?a [0..<length (elems h ?a)] h")
  show ?case
  proof (cases r1)
    case (Inl e)
    with ce arr show ?thesis
      by (simp add: boxed_def the_addr_def)
  next
    case (Inr u)
    from construct_elems_extends [OF arr ce] have e: "extends h h1" .
    have "\<forall>q\<in>set ps. isArray h1 (Ref (snd q))"
    proof
      fix q
      assume "q \<in> set ps"
      with Cons.prems have "isArray h (Ref (snd q))"
        by simp
      with e show "isArray h1 (Ref (snd q))"
        by (rule extends_isArray_val)
    qed
    from Cons.IH [OF this] ce Inr arr show ?thesis
      by (simp add: boxed_def the_addr_def)
  qed
qed

lemma snapshotMap_lists:
  "snapshotMap Item (map (\<lambda>q. (fst q, Inl (snd q))) snapshot) h
     = (case build_pairs snapshot h of
          (pairs, h1) \<Rightarrow>
            (case Item of
               None \<Rightarrow> (Inr (new_Map (map boxed pairs)), h1)
             | Some c \<Rightarrow>
                 (case construct_pairs c pairs h1 of
                    (Inl e, h2) \<Rightarrow> (Inl e, h2)
                  | (Inr u, h2) \<Rightarrow> (Inr (new_Map (map boxed pairs)), h2))))"
proof -
  obtain pairs h1 where bp: "build_pairs snapshot h = (pairs, h1)"
    by (cases "build_pairs snapshot h")
  from build_pairs_arrays [OF bp] have "\<forall>p\<in>set pairs. isArray h1 (Ref (snd p))"
    by simp
  from construct_loose_lists [OF this] bp show ?thesis
    by (simp add: snapshotMap_def build_loose_lists split: option.splits)
qed

lemma map_set_boxed: "map_set (map boxed m) k (Ref a) = map boxed (map_set m k a)"
  by (induction m) (simp_all add: boxed_def)

lemma new_Map_boxed: "new_Map (map boxed ps) = map boxed (new_Map ps)"
proof -
  have "foldl (\<lambda>m p. map_set m (fst p) (snd p)) (map boxed acc) (map boxed ps)
      = map boxed (foldl (\<lambda>m p. map_set m (fst p) (snd p)) acc ps)" for acc
  proof (induction ps arbitrary: acc)
    case Nil
    then show ?case by simp
  next
    case (Cons p ps)
    have "fst (boxed p) = fst p" and "snd (boxed p) = Ref (snd p)"
      by (simp_all add: boxed_def)
    then have "map_set (map boxed acc) (fst (boxed p)) (snd (boxed p))
        = map boxed (map_set acc (fst p) (snd p))"
      by (simp add: map_set_boxed)
    with Cons.IH [of "map_set acc (fst p) (snd p)"] show ?case
      by simp
  qed
  from this [of "[]"] show ?thesis
    by (simp add: new_Map_def)
qed

lemma loadCacheFromFile_snapshotMap:
  "loadCacheFromFile cfg now (Parsed snapshot) t
     = (case snapshotMap (itemClass cfg) (map (\<lambda>q. (fst q, Inl (snd q))) snapshot) (hp t) of
          (Inl e, h') \<Rightarrow> file_catch e (t\<lparr>hp := h'\<rparr>)
        | (Inr m, h') \<Rightarrow> publish now (t\<lparr>hp := h', data := map (\<lambda>p. (fst p, the_addr (snd p))) m\<rparr>))"
proof -
  have un: "map ((\<lambda>p. (fst p, the_addr (snd p))) \<circ> boxed) m = m" for m :: index
    by (induction m) (simp_all add: boxed_def the_addr_def)
  show ?thesis
    unfolding snapshotMap_lists new_Map_boxed
    by (simp add: loadCacheFromFile_def setData_def un split: prod.splits option.splits sum.splits)
qed




text \<open>
  Why the rule for refresh cycles asks that no two pairs carry the same array: a
  single-row mapper returns the one array \<^verbatim>\<open>['x']\<close> for both rows, and the record class
  keeps its argument in the field \<^verbatim>\<open>inner\<close>. The loop of lines 112 to 114 runs over the
  array once for each pair, so the list of both keys ends with one record, made by the
  constructor from the record that the constructor had made from \<^verbatim>\<open>'x'\<close>.
\<close>

lemma shared_array_constructed_twice:
  "loadFromDatabase
      (demo_options\<lparr>itemClass := Some Wrapper, opt_parseDataRow := Some shared_list_parseDataRow\<rparr>)
      1 (Rows [Ref 0, Ref 1]) (startCache (demo_rows @ [Arr [Str ''x'']]))
     = (Inr (),
        \<lparr>hp = demo_rows @ [Arr [Ref 5], Obj [(''inner'', Str ''x'')], Obj [(''inner'', Ref 4)]],
           data = [(Num 1, 3), (Num 2, 3)], lastUpdate = Some 1, emitted = [Update],
           loadDataPromise = True\<rparr>)"
  by code_simp

end
